(* ===== verification/Prelude.thy ===== *)
theory Prelude imports Main "HOL-Library.Multiset" begin

text \<open>
  What every component shares: the exceptions of the program, the shape of an operation that
  changes a state and may raise, and generic lemmas on lists and multisets.

  An operation is a function from the state to its outcome and the new state (\<open>py\<close>): the
  outcome is \<open>Inl e\<close> when it raises \<open>e\<close>, \<open>Inr a\<close> when it returns \<open>a\<close>, and what it changed before
  raising stays changed, as in Python.  Code that is not under \<open>src/\<close> (the AnyIO scheduler, the
  tasks of the user) enters the model as arguments of this type.
\<close>

section \<open>Exceptions\<close>

text \<open>
  The exceptions of \<open>chrono_daemon/_types.py\<close>, the built-in ones the code raises, the four of
  AnyIO and the two of ZeroMQ it catches, the backend's cancellation, and those of the user's code: \<open>Raised n\<close> is an
  \<open>Exception\<close>, \<open>RaisedBase n\<close> a \<open>BaseException\<close> that is none (KeyboardInterrupt, SystemExit).
\<close>

datatype exn =
    EndOfStream | ChannelClosed | ChannelInUse | WouldBlock | DaemonError
  | ValueError | RuntimeError | TypeError | AssertionError | OverflowError
  | AnyioBrokenResource | AnyioClosedResource | AnyioWouldBlock | AnyioEndOfStream
  | ZmqAgain | ZmqError
  | Cancelled
  | Raised nat | RaisedBase nat

text \<open>\<open>isinstance(exc, Exception)\<close>; cancellation is a \<open>BaseException\<close> on both backends.\<close>

fun is_Exception :: "exn \<Rightarrow> bool" where
  "is_Exception Cancelled = False"
| "is_Exception (RaisedBase _) = False"
| "is_Exception _ = True"

section \<open>Operations that may raise\<close>

type_synonym ('s, 'a) py = "'s \<Rightarrow> (exn + 'a) \<times> 's"

definition ret :: "'a \<Rightarrow> ('s, 'a) py" where
  "ret a s = (Inr a, s)"

definition raise :: "exn \<Rightarrow> ('s, 'a) py" where
  "raise e s = (Inl e, s)"

definition andThen :: "('s, 'a) py \<Rightarrow> ('a \<Rightarrow> ('s, 'b) py) \<Rightarrow> ('s, 'b) py" where
  "andThen m f s = (case m s of (Inl e, s') \<Rightarrow> (Inl e, s') | (Inr a, s') \<Rightarrow> f a s')"

lemma ret_simp [simp]: "ret a s = (Inr a, s)"
  by (simp add: ret_def)

lemma raise_simp [simp]: "raise e s = (Inl e, s)"
  by (simp add: raise_def)

lemma andThen_simps [simp]:
  "m s = (Inl e, s') \<Longrightarrow> andThen m f s = (Inl e, s')"
  "m s = (Inr a, s') \<Longrightarrow> andThen m f s = f a s'"
  by (simp_all add: andThen_def)

text \<open>
  \<open>keeps P m\<close>: the operation keeps the property \<open>P\<close> of the state, whatever its outcome.
\<close>

definition keeps :: "('s \<Rightarrow> bool) \<Rightarrow> ('s, 'a) py \<Rightarrow> bool" where
  "keeps P m \<longleftrightarrow> (\<forall>s. P s \<longrightarrow> P (snd (m s)))"

named_theorems keeps_intros \<open>rules that show an operation keeps a property\<close>

lemma keepsI: "(\<And>s r s'. P s \<Longrightarrow> m s = (r, s') \<Longrightarrow> P s') \<Longrightarrow> keeps P m"
  unfolding keeps_def by (metis prod.collapse)

lemma keepsD: "keeps P m \<Longrightarrow> P s \<Longrightarrow> m s = (r, s') \<Longrightarrow> P s'"
  unfolding keeps_def by (metis snd_conv)

lemma keeps_ret [keeps_intros]: "keeps P (ret a)"
  by (simp add: keeps_def)

lemma keeps_raise [keeps_intros]: "keeps P (raise e)"
  by (simp add: keeps_def)

lemma keeps_andThen [keeps_intros]:
  assumes "keeps P m" "\<And>a. keeps P (f a)"
  shows "keeps P (andThen m f)"
proof (rule keepsI)
  fix s r s'
  assume s: "P s" and run: "andThen m f s = (r, s')"
  obtain a t where m: "m s = (a, t)" by (cases "m s")
  have t: "P t" using assms(1) s m by (rule keepsD)
  show "P s'"
  proof (cases a)
    case (Inl e)
    with run m t show ?thesis by simp
  next
    case (Inr b)
    with run m have "f b t = (r, s')" by simp
    with assms(2) t show ?thesis by (rule keepsD)
  qed
qed

lemma keeps_if [keeps_intros]: "keeps P m \<Longrightarrow> keeps P n \<Longrightarrow> keeps P (if b then m else n)"
  by simp

section \<open>Lists and multisets\<close>

lemma mset_fold_push:
  assumes "\<And>x q. mset (push x q) = add_mset x (mset q)"
  shows "mset (fold push xs q) = mset xs + mset q"
  by (induction xs arbitrary: q) (simp_all add: assms)

lemma fold_push_inv:
  assumes "\<And>x q. x \<in> set xs \<Longrightarrow> P q \<Longrightarrow> P (push x q)" "P q"
  shows "P (fold push xs q)"
  using assms by (induction xs arbitrary: q) simp_all

lemma distinct_map_mset_eq: "mset xs = mset ys \<Longrightarrow> distinct (map f xs) = distinct (map f ys)"
  by (metis mset_map mset_eq_imp_distinct_iff)

end
