(* ===== verification/PyFloat.thy ===== *)
theory PyFloat imports Main "HOL-Library.Log_Nat" begin

text \<open>
  Python's \<open>float\<close>: an IEEE-754 binary64 value.  A finite float is given by the rational number
  it stands for, the two infinities and NaN are constructors of their own, and the two zeros are
  one value: nothing in the modelled code tells them apart (it never divides, prints or copies a
  sign).  Arithmetic computes the exact result and rounds it to 53 bits, ties to even, with
  gradual underflow and overflow to an infinity (\<open>round_double\<close>), as the hardware does;
  Python adds nothing to it for the operators the code uses.  Comparisons are Python's: every
  comparison with NaN is false.

  The second half makes \<open>pyfloat\<close> a linear order (NaN on top), on which Python's comparisons
  agree with \<open>\<le>\<close> and \<open><\<close> away from NaN, and proves the facts the clocks rest on: rounding is
  monotone and keeps a value that is a float already.
\<close>

section \<open>Values and rounding\<close>

datatype pyfloat = MInf | Fin rat | PInf | NaN

text \<open>\<open>ilog2 q\<close> is the exponent of a positive rational: \<open>2 ^ ilog2 q \<le> q < 2 ^ (ilog2 q + 1)\<close>.\<close>

definition ilog2 :: "rat \<Rightarrow> int" where
  "ilog2 q = (case quotient_of q of (a, b) \<Rightarrow>
     let e = bitlen a - bitlen b in if q < 2 powi e then e - 1 else e)"

text \<open>The exponent of the last place of a double near \<open>q\<close>: 53 bits, at least \<open>-1074\<close>.\<close>

definition ulp_exp :: "rat \<Rightarrow> int" where
  "ulp_exp q = (if q = 0 then - 1074 else max (ilog2 \<bar>q\<bar>) (- 1022) - 52)"

definition round_half_even :: "rat \<Rightarrow> int" where
  "round_half_even x = (let f = \<lfloor>x\<rfloor>; r = x - of_int f in
     if r < 1/2 \<or> (r = 1/2 \<and> even f) then f else f + 1)"

definition round_value :: "rat \<Rightarrow> rat" where
  "round_value q = (let u = 2 powi ulp_exp q in of_int (round_half_even (q / u)) * u)"

definition float_limit :: rat where
  "float_limit = 2 ^ 1024"

definition round_double :: "rat \<Rightarrow> pyfloat" where
  "round_double q = (let v = round_value q in
     if v \<ge> float_limit then PInf else if v \<le> - float_limit then MInf else Fin v)"

section \<open>Comparisons, arithmetic and the built-ins\<close>

fun feq :: "pyfloat \<Rightarrow> pyfloat \<Rightarrow> bool" where
  "feq NaN _ = False"
| "feq _ NaN = False"
| "feq x y = (x = y)"

fun flt :: "pyfloat \<Rightarrow> pyfloat \<Rightarrow> bool" where
  "flt (Fin p) (Fin q) = (p < q)"
| "flt MInf (Fin q) = True"
| "flt MInf PInf = True"
| "flt (Fin p) PInf = True"
| "flt _ _ = False"

definition fle :: "pyfloat \<Rightarrow> pyfloat \<Rightarrow> bool" where
  "fle x y \<longleftrightarrow> flt x y \<or> feq x y"

fun fadd :: "pyfloat \<Rightarrow> pyfloat \<Rightarrow> pyfloat" where
  "fadd (Fin p) (Fin q) = round_double (p + q)"
| "fadd NaN _ = NaN"
| "fadd _ NaN = NaN"
| "fadd PInf MInf = NaN"
| "fadd MInf PInf = NaN"
| "fadd PInf _ = PInf"
| "fadd _ PInf = PInf"
| "fadd MInf _ = MInf"
| "fadd _ MInf = MInf"

fun fneg :: "pyfloat \<Rightarrow> pyfloat" where
  "fneg (Fin p) = Fin (- p)"
| "fneg PInf = MInf"
| "fneg MInf = PInf"
| "fneg NaN = NaN"

definition fsub :: "pyfloat \<Rightarrow> pyfloat \<Rightarrow> pyfloat" where
  "fsub x y = fadd x (fneg y)"

text \<open>The infinity with the sign of \<open>q\<close>; \<open>inf * 0\<close> is NaN.\<close>

definition inf_times :: "rat \<Rightarrow> pyfloat" where
  "inf_times q = (if q > 0 then PInf else if q < 0 then MInf else NaN)"

fun fmul :: "pyfloat \<Rightarrow> pyfloat \<Rightarrow> pyfloat" where
  "fmul (Fin p) (Fin q) = round_double (p * q)"
| "fmul NaN _ = NaN"
| "fmul _ NaN = NaN"
| "fmul PInf (Fin q) = inf_times q"
| "fmul (Fin p) PInf = inf_times p"
| "fmul MInf (Fin q) = inf_times (- q)"
| "fmul (Fin p) MInf = inf_times (- p)"
| "fmul PInf PInf = PInf"
| "fmul MInf MInf = PInf"
| "fmul PInf MInf = MInf"
| "fmul MInf PInf = MInf"

fun fabs :: "pyfloat \<Rightarrow> pyfloat" where
  "fabs (Fin p) = Fin \<bar>p\<bar>"
| "fabs NaN = NaN"
| "fabs _ = PInf"

fun isfinite :: "pyfloat \<Rightarrow> bool" where
  "isfinite (Fin _) = True"
| "isfinite _ = False"

definition isinf :: "pyfloat \<Rightarrow> bool" where
  "isinf x \<longleftrightarrow> x = PInf \<or> x = MInf"

text \<open>Python's \<open>max(x, y)\<close> and \<open>min(x, y)\<close>: the first argument unless the second is beyond it.\<close>

definition pymax :: "pyfloat \<Rightarrow> pyfloat \<Rightarrow> pyfloat" where
  "pymax x y = (if flt x y then y else x)"

definition pymin :: "pyfloat \<Rightarrow> pyfloat \<Rightarrow> pyfloat" where
  "pymin x y = (if flt y x then y else x)"

text \<open>
  \<open>math.isclose(a, b, rel_tol=rtol, abs_tol=atol)\<close>, as \<open>mathmodule.c\<close> computes it, for
  tolerances that are not negative (on a negative one it raises; the code has checked them).
\<close>

definition isclose :: "pyfloat \<Rightarrow> pyfloat \<Rightarrow> pyfloat \<Rightarrow> pyfloat \<Rightarrow> bool" where
  "isclose rtol atol a b =
     (if feq a b then True
      else if isinf a \<or> isinf b then False
      else let diff = fabs (fsub b a) in
        fle diff (fabs (fmul rtol b)) \<or> fle diff (fabs (fmul rtol a)) \<or> fle diff atol)"

text \<open>\<open>n * x\<close> for an \<open>int\<close> and a \<open>float\<close>: the int is converted first, \<open>None\<close> is OverflowError.\<close>

definition int_times :: "int \<Rightarrow> pyfloat \<Rightarrow> pyfloat option" where
  "int_times n x = (case round_double (of_int n) of Fin m \<Rightarrow> Some (fmul (Fin m) x) | _ \<Rightarrow> None)"

section \<open>The linear order\<close>

fun rank :: "pyfloat \<Rightarrow> nat" where
  "rank MInf = 0"
| "rank (Fin _) = 1"
| "rank PInf = 2"
| "rank NaN = 3"

fun value_of :: "pyfloat \<Rightarrow> rat" where
  "value_of (Fin q) = q"
| "value_of _ = 0"

instantiation pyfloat :: linorder
begin

definition less_eq_pyfloat :: "pyfloat \<Rightarrow> pyfloat \<Rightarrow> bool" where
  "less_eq_pyfloat x y \<longleftrightarrow> rank x < rank y \<or> rank x = rank y \<and> value_of x \<le> value_of y"

definition less_pyfloat :: "pyfloat \<Rightarrow> pyfloat \<Rightarrow> bool" where
  "less_pyfloat x y \<longleftrightarrow> rank x < rank y \<or> rank x = rank y \<and> value_of x < value_of y"

instance
proof
  fix x y z :: pyfloat
  show "(x < y) = (x \<le> y \<and> \<not> y \<le> x)"
    by (auto simp: less_eq_pyfloat_def less_pyfloat_def)
  show "x \<le> x" by (simp add: less_eq_pyfloat_def)
  show "x \<le> z" if "x \<le> y" "y \<le> z"
    using that by (auto simp: less_eq_pyfloat_def)
  show "x = y" if "x \<le> y" "y \<le> x"
    using that by (cases x; cases y) (auto simp: less_eq_pyfloat_def)
  show "x \<le> y \<or> y \<le> x"
    by (auto simp: less_eq_pyfloat_def)
qed

end

lemma le_pyfloat_simps [simp]:
  "Fin p \<le> Fin q \<longleftrightarrow> p \<le> q" "Fin p \<le> PInf" "MInf \<le> x" "x \<le> NaN"
  "\<not> PInf \<le> Fin q" "\<not> NaN \<le> Fin q" "\<not> NaN \<le> PInf" "\<not> NaN \<le> MInf" "\<not> Fin q \<le> MInf" "\<not> PInf \<le> MInf"
  by (cases x; simp add: less_eq_pyfloat_def)+

lemma less_pyfloat_simps [simp]:
  "Fin p < Fin q \<longleftrightarrow> p < q" "Fin p < PInf" "MInf < Fin p" "MInf < PInf" "MInf < NaN" "Fin p < NaN"
  "PInf < NaN" "\<not> PInf < Fin q" "\<not> NaN < x" "\<not> x < MInf"
  by (cases x; simp add: less_pyfloat_def)+

lemma le_MInf_iff [simp]: "x \<le> MInf \<longleftrightarrow> x = MInf"
  by (cases x) (simp_all add: less_eq_pyfloat_def)

text \<open>Away from NaN, Python's comparisons are the order.\<close>

lemma flt_iff: "x \<noteq> NaN \<Longrightarrow> y \<noteq> NaN \<Longrightarrow> flt x y \<longleftrightarrow> x < y"
  by (cases x; cases y) auto

lemma feq_iff: "feq x y \<longleftrightarrow> x = y \<and> x \<noteq> NaN"
  by (cases x; cases y) auto

lemma flt_def_order: "flt x y \<longleftrightarrow> x < y \<and> y \<noteq> NaN"
  by (cases x; cases y) auto

lemma fle_def_order: "fle x y \<longleftrightarrow> x \<le> y \<and> y \<noteq> NaN"
  by (cases x; cases y) (auto simp: fle_def feq_iff)

lemma pymax_max: "x \<noteq> NaN \<Longrightarrow> y \<noteq> NaN \<Longrightarrow> pymax x y = max x y"
  by (auto simp: pymax_def flt_iff max_def)

lemma pymin_min: "x \<noteq> NaN \<Longrightarrow> y \<noteq> NaN \<Longrightarrow> pymin x y = min x y"
  by (auto simp: pymin_def flt_iff min_def)


section \<open>Rounding is monotone and keeps floats\<close>

lemma powi_two_less: "m < n \<Longrightarrow> (2 :: rat) powi m < 2 powi n"
  by (simp add: power_int_strict_increasing)

lemma powi_two_le: "m \<le> n \<Longrightarrow> (2 :: rat) powi m \<le> 2 powi n"
  by (simp add: power_int_increasing)

lemma powi_two_pos [simp]: "(0 :: rat) < 2 powi n"
  by (simp add: zero_less_power_int)

lemma powi_two_split: "(2 :: rat) powi (m + n) = 2 powi m * 2 powi n"
  by (simp add: power_int_add)

lemma powi_two_nat: "n \<ge> 0 \<Longrightarrow> (2 :: rat) powi n = of_int (2 ^ nat n)"
  by (simp add: power_int_def)

lemma bitlen_bounds_rat:
  assumes "a > 0"
  shows "(2 :: rat) powi (bitlen a - 1) \<le> of_int a" "of_int a < (2 :: rat) powi bitlen a"
proof -
  have pos: "bitlen a \<ge> 1" using assms by (simp add: bitlen_alt_def)
  have "2 ^ nat (bitlen a - 1) \<le> a \<and> a < 2 ^ nat (bitlen a)"
    by (rule bitlen_bounds) (rule assms)
  then have "(of_int (2 ^ nat (bitlen a - 1)) :: rat) \<le> of_int a \<and> (of_int a :: rat) < of_int (2 ^ nat (bitlen a))"
    by (simp only: of_int_le_iff of_int_less_iff)
  with pos show "(2 :: rat) powi (bitlen a - 1) \<le> of_int a" "of_int a < (2 :: rat) powi bitlen a"
    by (simp_all add: powi_two_nat)
qed

lemma ilog2_bounds:
  assumes "q > 0"
  shows "2 powi ilog2 q \<le> q" "q < 2 powi (ilog2 q + 1)"
proof -
  obtain a b where ab: "quotient_of q = (a, b)" by (cases "quotient_of q")
  have b: "b > 0" using quotient_of_denom_pos [OF ab] .
  have q: "q = of_int a / of_int b" using quotient_of_div [OF ab] .
  have a: "a > 0" using assms b unfolding q by (simp add: zero_less_divide_iff)
  define e where "e = bitlen a - bitlen b"
  note A = bitlen_bounds_rat [OF a] and B = bitlen_bounds_rat [OF b]
  have bpos: "(0 :: rat) < of_int b" using b by simp
  have low: "2 powi (e - 1) \<le> q"
  proof -
    have "2 powi (e - 1) * of_int b \<le> 2 powi (e - 1) * (2 powi bitlen b :: rat)"
      using B(2) by (simp add: less_imp_le mult_left_mono)
    also have "\<dots> = 2 powi (bitlen a - 1)"
      by (simp add: powi_two_split [symmetric] e_def)
    also have "\<dots> \<le> of_int a" by (rule A(1))
    finally show ?thesis unfolding q using bpos by (simp add: pos_le_divide_eq)
  qed
  have high: "q < 2 powi (e + 1)"
  proof -
    have "(of_int a :: rat) < 2 powi bitlen a" by (rule A(2))
    also have "\<dots> = 2 powi (e + 1) * 2 powi (bitlen b - 1)"
      by (simp add: powi_two_split [symmetric] e_def)
    also have "\<dots> \<le> 2 powi (e + 1) * of_int b"
      using B(1) by (simp add: mult_left_mono)
    finally show ?thesis unfolding q using bpos by (simp add: pos_divide_less_eq)
  qed
  have eq: "ilog2 q = (if q < 2 powi e then e - 1 else e)"
    by (simp add: ilog2_def ab e_def Let_def)
  show "2 powi ilog2 q \<le> q" "q < 2 powi (ilog2 q + 1)"
    using low high by (auto simp: eq)
qed

lemma ilog2_unique:
  assumes "2 powi e \<le> q" "q < 2 powi (e + 1)"
  shows "ilog2 q = e"
proof -
  have q: "q > 0" using assms(1) powi_two_pos [of e] by (rule less_le_trans [rotated])
  have "\<not> ilog2 q < e"
  proof
    assume "ilog2 q < e"
    then have "(2 :: rat) powi (ilog2 q + 1) \<le> 2 powi e" by (intro powi_two_le) simp
    with ilog2_bounds(2) [OF q] assms(1) show False by simp
  qed
  moreover have "\<not> e < ilog2 q"
  proof
    assume "e < ilog2 q"
    then have "(2 :: rat) powi (e + 1) \<le> 2 powi ilog2 q" by (intro powi_two_le) simp
    with ilog2_bounds(1) [OF q] assms(2) show False by simp
  qed
  ultimately show ?thesis by simp
qed

lemma ilog2_mono:
  assumes "0 < q" "q \<le> r"
  shows "ilog2 q \<le> ilog2 r"
proof (rule ccontr)
  assume "\<not> ilog2 q \<le> ilog2 r"
  then have "(2 :: rat) powi (ilog2 r + 1) \<le> 2 powi ilog2 q" by (intro powi_two_le) simp
  with ilog2_bounds(2) [of r] ilog2_bounds(1) [of q] assms show False by simp
qed

lemma round_half_even_of_int [simp]: "round_half_even (of_int n) = n"
  by (simp add: round_half_even_def Let_def)

lemma round_half_even_bounds: "\<lfloor>x\<rfloor> \<le> round_half_even x \<and> round_half_even x \<le> \<lfloor>x\<rfloor> + 1"
  by (simp add: round_half_even_def Let_def)

lemma round_half_even_mono:
  assumes "x \<le> y"
  shows "round_half_even x \<le> round_half_even y"
proof (cases "\<lfloor>x\<rfloor> = \<lfloor>y\<rfloor>")
  case True
  with assms show ?thesis by (auto simp: round_half_even_def Let_def)
next
  case False
  with floor_mono [OF assms] have "\<lfloor>x\<rfloor> + 1 \<le> \<lfloor>y\<rfloor>" by simp
  with round_half_even_bounds [of x] round_half_even_bounds [of y] show ?thesis by linarith
qed

lemma round_half_even_minus: "round_half_even (- x) = - round_half_even x"
proof (cases "x = of_int \<lfloor>x\<rfloor>")
  case True
  then show ?thesis by (metis round_half_even_of_int of_int_minus)
next
  case False
  have fl: "\<lfloor>- x\<rfloor> = - \<lfloor>x\<rfloor> - 1"
  proof (rule floor_unique)
    show "of_int (- \<lfloor>x\<rfloor> - 1) \<le> - x"
      using of_int_floor_le [of x] by (simp, linarith)
    show "- x < of_int (- \<lfloor>x\<rfloor> - 1) + 1"
      using False of_int_floor_le [of x] by (simp add: order.strict_iff_order)
  qed
  show ?thesis by (auto simp: round_half_even_def Let_def fl)
qed

lemma ulp_exp_minus [simp]: "ulp_exp (- q) = ulp_exp q"
  by (simp add: ulp_exp_def)

lemma ulp_exp_ge: "ulp_exp q \<ge> - 1074"
  by (auto simp: ulp_exp_def)

lemma ulp_exp_mono: "0 \<le> q \<Longrightarrow> q \<le> r \<Longrightarrow> ulp_exp q \<le> ulp_exp r"
proof (cases "q = 0")
  case True
  then have "ulp_exp q = - 1074" by (simp add: ulp_exp_def)
  with ulp_exp_ge show ?thesis by simp
next
  case False
  assume "0 \<le> q" "q \<le> r"
  with False have "ilog2 q \<le> ilog2 r" by (intro ilog2_mono) simp_all
  with \<open>0 \<le> q\<close> \<open>q \<le> r\<close> False show ?thesis by (auto simp: ulp_exp_def)
qed

lemma round_value_minus: "round_value (- q) = - round_value q"
proof -
  have "round_half_even (- q / u) = - round_half_even (q / u)" for u
    using round_half_even_minus [of "q / u"] by simp
  then show ?thesis by (simp add: round_value_def Let_def)
qed

lemma grid_divide:
  assumes "u \<le> k"
  shows "of_int m * 2 powi k / 2 powi u = (of_int (m * 2 ^ nat (k - u)) :: rat)"
proof -
  have "(2 :: rat) powi k = 2 powi (k - u) * 2 powi u"
    by (simp add: powi_two_split [symmetric])
  then show ?thesis using assms by (simp add: powi_two_nat)
qed

text \<open>A point of a coarser grid is a barrier rounding does not cross.\<close>

lemma round_value_le_grid:
  assumes "ulp_exp q \<le> k" "q \<le> of_int m * 2 powi k"
  shows "round_value q \<le> of_int m * 2 powi k"
proof -
  define u where "u = ulp_exp q"
  have "q / 2 powi u \<le> of_int m * 2 powi k / 2 powi u"
    using assms(2) by (simp add: divide_right_mono less_imp_le)
  also have "\<dots> = of_int (m * 2 ^ nat (k - u))"
    using assms(1) by (simp add: grid_divide u_def)
  finally have "round_half_even (q / 2 powi u) \<le> m * 2 ^ nat (k - u)"
    by (metis round_half_even_mono round_half_even_of_int)
  then have "of_int (round_half_even (q / 2 powi u)) \<le> of_int m * 2 powi k / (2 powi u :: rat)"
    using assms(1) by (simp only: grid_divide u_def of_int_le_iff)
  then show ?thesis
    by (simp add: round_value_def Let_def u_def pos_le_divide_eq)
qed

lemma round_value_ge_grid:
  assumes "ulp_exp q \<le> k" "of_int m * 2 powi k \<le> q"
  shows "of_int m * 2 powi k \<le> round_value q"
  using round_value_le_grid [of "- q" k "- m"] assms by (simp add: round_value_minus)

lemma round_value_mono_nonneg:
  assumes "0 \<le> q" "q \<le> r"
  shows "round_value q \<le> round_value r"
proof (cases "ulp_exp q = ulp_exp r")
  case True
  have "round_half_even (q / 2 powi ulp_exp q) \<le> round_half_even (r / 2 powi ulp_exp q)"
    by (intro round_half_even_mono divide_right_mono assms) (simp add: less_imp_le)
  with True show ?thesis
    by (simp add: round_value_def Let_def mult_right_mono less_imp_le)
next
  case False
  with ulp_exp_mono [OF assms] have less: "ulp_exp q < ulp_exp r" by simp
  then have r: "r > 0" and E: "ulp_exp r = ilog2 r - 52"
    using assms ulp_exp_ge [of q] by (auto simp: ulp_exp_def max_def split: if_splits)
  have low: "2 powi ilog2 r \<le> r" using ilog2_bounds(1) [OF r] .
  have "2 powi ilog2 r \<le> round_value r"
    using round_value_ge_grid [of r "ilog2 r" 1] low E by simp
  moreover have "round_value q \<le> 2 powi ilog2 r"
  proof -
    have "q \<le> 2 powi ilog2 r"
    proof (cases "q = 0")
      case False
      with assms have q: "q > 0" by simp
      have "ilog2 q < ilog2 r"
        using less E q by (auto simp: ulp_exp_def)
      then have "(2 :: rat) powi (ilog2 q + 1) \<le> 2 powi ilog2 r" by (intro powi_two_le) simp
      with ilog2_bounds(2) [OF q] show ?thesis by simp
    qed (simp add: less_imp_le)
    moreover have "ulp_exp q \<le> ilog2 r" using less E by simp
    ultimately show ?thesis using round_value_le_grid [of q "ilog2 r" 1] by simp
  qed
  ultimately show ?thesis by simp
qed

lemma round_value_zero [simp]: "round_value 0 = 0"
  by (simp add: round_value_def round_half_even_def Let_def)

lemma round_value_mono:
  assumes "q \<le> r"
  shows "round_value q \<le> round_value r"
proof -
  consider "0 \<le> q" | "r \<le> 0" | "q \<le> 0" "0 \<le> r" by linarith
  then show ?thesis
  proof cases
    case 1
    then show ?thesis using assms by (rule round_value_mono_nonneg)
  next
    case 2
    then show ?thesis
      using round_value_mono_nonneg [of "- r" "- q"] assms by (simp add: round_value_minus)
  next
    case 3
    then show ?thesis
      using round_value_mono_nonneg [of 0 "- q"] round_value_mono_nonneg [of 0 r]
      by (simp add: round_value_minus)
  qed
qed

lemma float_limit_pos [simp]: "0 < float_limit"
  by (simp add: float_limit_def)

lemma round_double_mono: "q \<le> r \<Longrightarrow> round_double q \<le> round_double r"
  using round_value_mono [of q r] by (auto simp: round_double_def Let_def)

section \<open>The values Python floats have\<close>

text \<open>
  \<open>is_float x\<close>: a float that is not NaN.  \<open>Fin q\<close> is one when rounding keeps it.
\<close>

fun is_float :: "pyfloat \<Rightarrow> bool" where
  "is_float (Fin q) = (round_double q = Fin q)"
| "is_float NaN = False"
| "is_float _ = True"

lemma is_float_not_NaN [dest, simp]: "is_float x \<Longrightarrow> x \<noteq> NaN"
  by auto

lemma round_value_grid:
  assumes m: "\<bar>m\<bar> \<le> 2 ^ 53" and k: "k \<ge> - 1074"
  shows "round_value (of_int m * 2 powi k) = of_int m * 2 powi k"
proof -
  define v :: rat where "v = of_int m * 2 powi k"
  have up: "\<bar>v\<bar> \<le> 2 powi (53 + k)"
  proof -
    have "\<bar>of_int m :: rat\<bar> \<le> 2 ^ 53" using m by (metis of_int_abs of_int_le_iff of_int_numeral of_int_power)
    then have "\<bar>of_int m\<bar> * 2 powi k \<le> 2 ^ 53 * (2 powi k :: rat)"
      by (intro mult_right_mono) (simp_all add: less_imp_le)
    then show ?thesis by (simp add: v_def abs_mult powi_two_split)
  qed
  have "round_value v = v"
  proof (cases "\<bar>v\<bar> = 2 powi (53 + k)")
    case True
    then have ul: "ulp_exp v \<le> 53 + k"
      using k ilog2_unique [of "53 + k" "\<bar>v\<bar>"] by (simp add: ulp_exp_def power_int_add)
    from True consider "v = of_int 1 * 2 powi (53 + k)" | "v = of_int (- 1) * 2 powi (53 + k)"
      by (cases "v \<ge> 0") auto
    then show ?thesis
      by cases (metis ul order_refl round_value_le_grid round_value_ge_grid antisym)+
  next
    case False
    with up have lt: "\<bar>v\<bar> < 2 powi (53 + k)" by simp
    have "ulp_exp v \<le> k"
    proof (cases "v = 0")
      case True
      then show ?thesis using k by (simp add: ulp_exp_def)
    next
      case False
      then have "2 powi ilog2 \<bar>v\<bar> < (2 powi (53 + k) :: rat)"
        using ilog2_bounds(1) [of "\<bar>v\<bar>"] lt by simp
      then have "ilog2 \<bar>v\<bar> < 53 + k"
        using powi_two_le by (metis not_le)
      with k show ?thesis by (auto simp: ulp_exp_def)
    qed
    then show ?thesis
      unfolding v_def by (intro antisym round_value_le_grid round_value_ge_grid) simp_all
  qed
  then show ?thesis by (simp add: v_def)
qed

lemma round_half_even_range:
  assumes "\<bar>x\<bar> \<le> of_int n"
  shows "\<bar>round_half_even x\<bar> \<le> n"
proof -
  have "x \<le> of_int n" "of_int (- n) \<le> x" using assms by auto
  then have "round_half_even x \<le> round_half_even (of_int n)" "round_half_even (of_int (- n)) \<le> round_half_even x"
    by (blast intro: round_half_even_mono)+
  then show ?thesis by (simp only: round_half_even_of_int abs_le_iff minus_le_iff)
qed

lemma round_value_idem [simp]: "round_value (round_value q) = round_value q"
proof -
  define u where "u = ulp_exp q"
  have le: "\<bar>q\<bar> \<le> 2 powi (53 + u)"
  proof (cases "q = 0")
    case False
    then have "\<bar>q\<bar> \<le> 2 powi (ilog2 \<bar>q\<bar> + 1)" using ilog2_bounds(2) [of "\<bar>q\<bar>"] by simp
    also have "\<dots> \<le> 2 powi (53 + u)"
      by (rule powi_two_le) (use False in \<open>auto simp: u_def ulp_exp_def\<close>)
    finally show ?thesis .
  qed simp
  have "\<bar>q / 2 powi u\<bar> = \<bar>q\<bar> / 2 powi u" by (simp add: abs_divide)
  also have "\<dots> \<le> of_int (2 ^ 53)"
    using le by (simp add: pos_divide_le_eq powi_two_split mult.commute)
  finally have "\<bar>round_half_even (q / 2 powi u)\<bar> \<le> 2 ^ 53" by (rule round_half_even_range)
  then show ?thesis
    using round_value_grid [of _ u] ulp_exp_ge [of q] by (simp add: round_value_def [of q] Let_def u_def)
qed

lemma is_float_round_double [simp]: "is_float (round_double q)"
  by (auto simp: round_double_def Let_def)

lemma round_double_le_PInf [simp]: "round_double q \<le> PInf" "round_double q \<noteq> NaN"
  by (auto simp: round_double_def Let_def)

lemma is_float_fadd: "is_float x \<Longrightarrow> is_float y \<Longrightarrow> fadd x y = NaN \<or> is_float (fadd x y)"
  by (cases x; cases y) (auto simp del: is_float.simps(1))

lemma is_float_fsub: "is_float x \<Longrightarrow> is_float y \<Longrightarrow> fsub x y = NaN \<or> is_float (fsub x y)"
proof (cases "y")
  case (Fin q)
  assume "is_float x" "is_float y"
  with Fin have "is_float (fneg y)"
    by (auto simp: round_double_def round_value_minus Let_def split: if_splits)
  with \<open>is_float x\<close> show ?thesis by (simp add: fsub_def is_float_fadd)
qed (cases x; simp add: fsub_def)+

lemma is_float_of_grid:
  assumes "\<bar>m\<bar> \<le> 2 ^ 53" "- 1074 \<le> k" "k \<le> 970"
  shows "is_float (Fin (of_int m * 2 powi k))"
proof -
  let ?v = "of_int m * 2 powi k :: rat"
  have "\<bar>of_int m :: rat\<bar> \<le> 2 ^ 53" using assms(1) by (metis of_int_abs of_int_le_iff of_int_numeral of_int_power)
  then have "\<bar>of_int m\<bar> * 2 powi k \<le> (2 ^ 53 * 2 powi 970 :: rat)"
    by (rule mult_mono) (use powi_two_le [OF assms(3)] in \<open>simp_all add: less_imp_le\<close>)
  then have "\<bar>?v\<bar> \<le> 2 ^ 53 * 2 powi 970" by (simp add: abs_mult)
  then have "\<bar>?v\<bar> < 2 ^ 1024" by simp
  then have "\<not> ?v \<ge> 2 ^ 1024" "\<not> ?v \<le> - (2 ^ 1024)" by linarith+
  then show ?thesis
    using round_value_grid [OF assms(1,2)] by (simp add: round_double_def float_limit_def)
qed

text \<open>Integers up to \<open>2 ^ 53\<close>, and dyadic fractions of them, are floats.\<close>

lemma round_double_int: "\<bar>m\<bar> \<le> 2 ^ 53 \<Longrightarrow> round_double (of_int m) = Fin (of_int m)"
  using is_float_of_grid [of m 0] by simp

lemma round_double_dyadic:
  assumes "\<bar>m\<bar> \<le> 2 ^ 53" "n \<le> 1074"
  shows "round_double (of_int m / 2 ^ n) = Fin (of_int m / 2 ^ n)"
  using is_float_of_grid [of m "- int n"] assms
  by (simp add: power_int_minus divide_inverse)

lemma round_double_numeral:
  "numeral m \<le> (2 :: int) ^ 53 \<Longrightarrow> round_double (numeral m) = Fin (numeral m)"
  "numeral m \<le> (2 :: int) ^ 53 \<Longrightarrow> round_double (- numeral m) = Fin (- numeral m)"
  using round_double_int [of "numeral m"] round_double_int [of "- numeral m"] by simp_all

text \<open>
  Evaluation: short dyadic numbers are floats already, so the kernel need not form \<open>2 ^ 1024\<close>.
\<close>

lemma dvd_power_of_two: "(d :: nat) dvd 2 ^ n \<Longrightarrow> \<exists>m \<le> n. d = 2 ^ m"
proof (induction n arbitrary: d)
  case (Suc n)
  show ?case
  proof (cases "even d")
    case True
    then obtain e where "d = 2 * e" by (rule evenE)
    with Suc.prems have "e dvd 2 ^ n" by simp
    then obtain m where "m \<le> n" "e = 2 ^ m" using Suc.IH by blast
    with \<open>d = 2 * e\<close> show ?thesis by (intro exI [of _ "Suc m"]) simp
  next
    case False
    then have "coprime d (2 ^ Suc n)" by simp
    then have "is_unit d" using coprime_common_divisor [of d "2 ^ Suc n" d] Suc.prems by simp
    then have "d = 1" by simp
    then show ?thesis by (intro exI [of _ 0]) simp
  qed
qed simp

definition round_long :: "rat \<Rightarrow> pyfloat" where
  "round_long = round_double"

lemma round_long_code [code]:
  "round_long q = (let v = round_value q in
     if v \<ge> float_limit then PInf else if v \<le> - float_limit then MInf else Fin v)"
  unfolding round_long_def by (rule round_double_def)

lemma round_double_code [code]:
  "round_double q = (case quotient_of q of (a, b) \<Rightarrow>
     if \<bar>a\<bar> \<le> 2 ^ 53 \<and> b dvd 2 ^ 53 then Fin q else round_long q)"
proof (cases "quotient_of q")
  case (Pair a b)
  have "round_double q = Fin q" if a: "\<bar>a\<bar> \<le> 2 ^ 53" and b: "b dvd 2 ^ 53"
  proof -
    have pos: "b > 0" using quotient_of_denom_pos [OF Pair] .
    have "nat b dvd 2 ^ 53" using b pos by (simp add: nat_dvd_iff)
    then obtain n where n: "n \<le> 53" "nat b = 2 ^ n"
      using dvd_power_of_two by blast
    then have "b = 2 ^ n" using pos by (metis int_nat_eq less_imp_le of_nat_numeral of_nat_power)
    then have "q = of_int a / 2 ^ n" using quotient_of_div [OF Pair] by simp
    then show ?thesis using round_double_dyadic [OF a] n by simp
  qed
  with Pair show ?thesis by (simp add: round_long_def)
qed

lemma round_double_0 [simp]: "round_double 0 = Fin 0" "round_double 1 = Fin 1"
  using round_double_int [of 0] round_double_int [of 1] by simp_all

lemma fadd_0_right [simp]: "is_float x \<Longrightarrow> fadd x (Fin 0) = x"
  by (cases x) auto

lemma fadd_mono:
  assumes "y \<le> z" "fadd x z \<noteq> NaN" "z \<noteq> NaN"
  shows "fadd x y = NaN \<or> fadd x y \<le> fadd x z"
  using assms by (cases x; cases y; cases z) (auto intro: round_double_mono)

lemma fadd_ge_left:
  assumes "is_float x" "Fin 0 \<le> y" "fadd x y \<noteq> NaN"
  shows "x \<le> fadd x y"
proof (cases "y = NaN")
  case False
  with assms fadd_mono [of "Fin 0" y x] show ?thesis by simp
qed (use assms in \<open>cases x; simp\<close>)

text \<open>Subtracting keeps the order: the difference of a larger and a smaller float is not negative.\<close>

lemma fsub_nonneg: "y \<le> x \<Longrightarrow> fsub x y \<noteq> NaN \<Longrightarrow> Fin 0 \<le> fsub x y"
  using round_double_mono [of 0] by (cases x; cases y) (auto simp: fsub_def)

lemma is_float_fabs: "is_float x \<Longrightarrow> is_float (fabs x)"
  by (cases x) (auto simp: abs_if round_double_def round_value_minus Let_def split: if_splits)

lemma fabs_ge_0 [simp]: "Fin 0 \<le> fabs x"
  by (cases x) auto

lemma is_float_pymax [simp]: "is_float x \<Longrightarrow> is_float y \<Longrightarrow> is_float (pymax x y)"
  by (simp add: pymax_def)

lemma is_float_pymin [simp]: "is_float x \<Longrightarrow> is_float y \<Longrightarrow> is_float (pymin x y)"
  by (simp add: pymin_def)

text \<open>
  Gradual underflow: floats that differ have a difference that does not round to zero.  So with
  both tolerances zero \<open>math.isclose\<close> is equality.
\<close>

lemma is_float_multiple:
  assumes "is_float (Fin q)" "e = - 1074"
  obtains m where "q = of_int m * 2 powi e"
proof -
  from assms have v: "round_value q = q"
    by (auto simp: round_double_def Let_def split: if_splits)
  define k n where "k = ulp_exp q" and "n = round_half_even (q / 2 powi k)"
  have k: "e \<le> k" using ulp_exp_ge [of q] assms(2) by (simp add: k_def)
  have "q = of_int n * 2 powi k"
    using v by (simp add: round_value_def Let_def n_def k_def)
  moreover have "2 powi k = (of_int (2 ^ nat (k - e)) * 2 powi e :: rat)"
    using grid_divide [of e k 1] k by (simp add: divide_eq_eq)
  ultimately have "q = of_int (n * 2 ^ nat (k - e)) * 2 powi e" by simp
  then show thesis by (rule that)
qed

lemma fsub_pos:
  assumes "is_float x" "is_float y" "isfinite x" "isfinite y" "y < x"
  shows "Fin 0 < fsub x y"
proof -
  from assms obtain p q where xy: "x = Fin p" "y = Fin q" and lt: "q < p"
    by (cases x; cases y) auto
  define e :: int where "e = - 1074"
  obtain m where m: "p = of_int m * 2 powi e" using assms(1) xy e_def is_float_multiple by blast
  obtain n where n: "q = of_int n * 2 powi e" using assms(2) xy e_def is_float_multiple by blast
  from lt have "of_int n < (of_int m :: rat)" unfolding m n by simp
  then have "1 \<le> m - n" by simp
  then have "1 \<le> (of_int (m - n) :: rat)" by linarith
  then have "1 * 2 powi e \<le> (of_int (m - n) * 2 powi e :: rat)"
    by (rule mult_right_mono) (simp add: less_imp_le)
  then have le: "2 powi e \<le> p - q" unfolding m n by (simp add: left_diff_distrib)
  have "is_float (Fin (of_int 1 * 2 powi e))"
    by (rule is_float_of_grid) (simp_all add: e_def)
  then have "Fin (2 powi e) \<le> round_double (p - q)"
    using round_double_mono [OF le] by simp
  moreover have "Fin 0 < Fin (2 powi e)" by simp
  ultimately have "Fin 0 < round_double (p - q)" by (rule less_le_trans [rotated])
  then show ?thesis by (simp add: xy fsub_def)
qed

lemma isclose_refl: "a \<noteq> NaN \<Longrightarrow> isclose rtol atol a a"
  by (simp add: isclose_def feq_iff)
end
