(* ===== verification/Heapq.thy ===== *)
theory Heapq imports Main "HOL-Library.Multiset" begin

text \<open>
  Python's \<open>heapq\<close> on a list, step by step as the standard library does it: \<open>heappush\<close>
  appends and sifts towards the root, \<open>heappop\<close> moves the last element to the root, sifts the
  hole down to a leaf along the smaller children and sifts back up.  The comparison \<open>lt\<close> is the
  elements' \<open>__lt__\<close>, an argument: the clock uses two different ones.

  The locale \<open>prio_queue\<close> is the contract the clock relies on (what a push adds, that a pop
  takes a least element); \<open>heap_order\<close> says when a comparison is the order of a key, and inside
  it the array code is proved to keep the heap property and to meet the contract.
\<close>

section \<open>The array operations\<close>

definition parent :: "nat \<Rightarrow> nat" where
  "parent i = (i - 1) div 2"

lemma parent_less [simp]: "0 < i \<Longrightarrow> parent i < i"
  by (simp add: parent_def)

lemma parent_eq_self [simp]: "parent i = i \<longleftrightarrow> i = 0" "i = parent i \<longleftrightarrow> i = 0"
  unfolding parent_def by presburger+

text \<open>\<open>heapq._siftdown(heap, 0, pos)\<close> with the new item taken out of the array.\<close>

function siftdown :: "('a \<Rightarrow> 'a \<Rightarrow> bool) \<Rightarrow> 'a list \<Rightarrow> nat \<Rightarrow> 'a \<Rightarrow> 'a list" where
  "siftdown lt heap pos newitem =
     (if 0 < pos \<and> lt newitem (heap ! parent pos)
      then siftdown lt (heap[pos := heap ! parent pos]) (parent pos) newitem
      else heap[pos := newitem])"
  by pat_completeness auto
termination
  by (relation "measure (\<lambda>(lt, heap, pos, newitem). pos)") auto

declare siftdown.simps [simp del]

lemma siftdown_move:
  "0 < pos \<Longrightarrow> lt x (heap ! parent pos) \<Longrightarrow>
   siftdown lt heap pos x = siftdown lt (heap[pos := heap ! parent pos]) (parent pos) x"
  by (subst siftdown.simps) simp

lemma siftdown_stop:
  "\<not> (0 < pos \<and> lt x (heap ! parent pos)) \<Longrightarrow> siftdown lt heap pos x = heap[pos := x]"
  by (subst siftdown.simps) (simp only: if_False)

text \<open>The child \<open>heapq._siftup\<close> moves into the hole at \<open>pos\<close>, whose left child is \<open>c\<close>.\<close>

definition smaller_child :: "('a \<Rightarrow> 'a \<Rightarrow> bool) \<Rightarrow> 'a list \<Rightarrow> nat \<Rightarrow> nat" where
  "smaller_child lt heap c =
     (if c + 1 < length heap \<and> \<not> lt (heap ! c) (heap ! (c + 1)) then c + 1 else c)"

lemma smaller_child_cases: "smaller_child lt heap c = c \<or> smaller_child lt heap c = c + 1"
  by (simp add: smaller_child_def)

lemma smaller_child_less: "c < length heap \<Longrightarrow> smaller_child lt heap c < length heap"
  by (simp add: smaller_child_def)

text \<open>The loop of \<open>heapq._siftup\<close>: the hole goes down to a leaf, whose position is returned.\<close>

function sift_hole :: "('a \<Rightarrow> 'a \<Rightarrow> bool) \<Rightarrow> 'a list \<Rightarrow> nat \<Rightarrow> 'a list \<times> nat" where
  "sift_hole lt heap pos =
     (let c = 2 * pos + 1 in
      if c < length heap
      then let c' = smaller_child lt heap c in sift_hole lt (heap[pos := heap ! c']) c'
      else (heap, pos))"
  by pat_completeness auto
termination
  by (relation "measure (\<lambda>(lt, heap, pos). length heap - pos)") (auto simp: smaller_child_def)

declare sift_hole.simps [simp del]

lemma sift_hole_move:
  "2 * pos + 1 < length heap \<Longrightarrow> c' = smaller_child lt heap (2 * pos + 1) \<Longrightarrow>
   sift_hole lt heap pos = sift_hole lt (heap[pos := heap ! c']) c'"
  by (subst sift_hole.simps) (simp add: Let_def)

lemma sift_hole_leaf: "\<not> 2 * pos + 1 < length heap \<Longrightarrow> sift_hole lt heap pos = (heap, pos)"
  by (subst sift_hole.simps) (simp add: Let_def)

definition siftup :: "('a \<Rightarrow> 'a \<Rightarrow> bool) \<Rightarrow> 'a list \<Rightarrow> 'a list" where
  "siftup lt heap = (case sift_hole lt heap 0 of (heap', pos) \<Rightarrow> siftdown lt heap' pos (heap ! 0))"

definition heappush :: "('a \<Rightarrow> 'a \<Rightarrow> bool) \<Rightarrow> 'a \<Rightarrow> 'a list \<Rightarrow> 'a list" where
  "heappush lt item heap = siftdown lt (heap @ [item]) (length heap) item"

text \<open>\<open>None\<close> is the IndexError of popping an empty heap.\<close>

definition heappop :: "('a \<Rightarrow> 'a \<Rightarrow> bool) \<Rightarrow> 'a list \<Rightarrow> ('a \<times> 'a list) option" where
  "heappop lt heap =
     (if heap = [] then None
      else let lastelt = last heap; rest = butlast heap in
        if rest = [] then Some (lastelt, [])
        else Some (rest ! 0, siftup lt (rest[0 := lastelt])))"

definition heappeek :: "'a list \<Rightarrow> 'a option" where
  "heappeek heap = (case heap of [] \<Rightarrow> None | x # _ \<Rightarrow> Some x)"

section \<open>Lengths and contents\<close>

lemma length_siftdown [simp]: "length (siftdown lt heap pos x) = length heap"
  by (induction lt heap pos x rule: siftdown.induct) (subst siftdown.simps, simp)

lemma length_sift_hole: "sift_hole lt heap pos = (heap', pos') \<Longrightarrow> length heap' = length heap"
proof (induction lt heap pos arbitrary: heap' pos' rule: sift_hole.induct)
  case (1 lt heap pos)
  show ?case
  proof (cases "2 * pos + 1 < length heap")
    case True
    with "1.IH" [OF refl True refl] "1.prems" show ?thesis by (simp add: sift_hole_move)
  next
    case False
    with "1.prems" show ?thesis by (simp add: sift_hole_leaf)
  qed
qed

lemma mset_swap_hole:
  assumes "i < length xs" "j < length xs" "i \<noteq> j"
  shows "mset (xs[i := xs ! j, j := x]) = mset (xs[i := x])"
proof -
  let ?ys = "xs[i := x]"
  have "mset (?ys[i := ?ys ! j, j := ?ys ! i]) = mset ?ys"
    using assms by (intro mset_swap) simp_all
  with assms show ?thesis by simp
qed

lemma mset_siftdown: "pos < length heap \<Longrightarrow> mset (siftdown lt heap pos x) = mset (heap[pos := x])"
proof (induction lt heap pos x rule: siftdown.induct)
  case (1 lt heap pos x)
  show ?case
  proof (cases "0 < pos \<and> lt x (heap ! parent pos)")
    case True
    then have "parent pos < pos" by simp
    with True 1 show ?thesis by (simp add: siftdown_move mset_swap_hole)
  qed (simp add: siftdown_stop)
qed

lemma mset_sift_hole:
  "sift_hole lt heap pos = (heap', pos') \<Longrightarrow> pos < length heap \<Longrightarrow>
   pos' < length heap \<and> mset (heap'[pos' := x]) = mset (heap[pos := x])"
proof (induction lt heap pos arbitrary: heap' pos' rule: sift_hole.induct)
  case (1 lt heap pos)
  let ?c = "2 * pos + 1"
  let ?d = "smaller_child lt heap ?c"
  show ?case
  proof (cases "?c < length heap")
    case True
    then have d: "?d < length heap" "pos \<noteq> ?d"
      using smaller_child_less [OF True] smaller_child_cases [of lt heap ?c] by auto
    from "1.prems" True have "sift_hole lt (heap[pos := heap ! ?d]) ?d = (heap', pos')"
      by (simp add: sift_hole_move)
    from "1.IH" [OF refl True refl this] d "1.prems"(2) show ?thesis
      by (simp add: mset_swap_hole)
  next
    case False
    with "1.prems" show ?thesis by (simp add: sift_hole_leaf)
  qed
qed

lemma mset_siftup: "heap \<noteq> [] \<Longrightarrow> mset (siftup lt heap) = mset heap"
proof (cases "sift_hole lt heap 0")
  case (Pair heap' pos)
  assume "heap \<noteq> []"
  with mset_sift_hole [OF Pair, of "heap ! 0"] length_sift_hole [OF Pair]
  show ?thesis by (simp add: siftup_def Pair mset_siftdown)
qed

lemma mset_heappush [simp]: "mset (heappush lt x heap) = add_mset x (mset heap)"
  by (simp add: heappush_def mset_siftdown)

lemma length_heappush [simp]: "length (heappush lt x heap) = Suc (length heap)"
  by (simp add: heappush_def)

lemma set_heappush [simp]: "set (heappush lt x heap) = insert x (set heap)"
  by (metis mset_heappush set_mset_add_mset_insert set_mset_mset)

lemma heappop_None [simp]: "heappop lt heap = None \<longleftrightarrow> heap = []"
  by (simp add: heappop_def Let_def)

lemma heappop_Nil [simp]: "heappop lt [] = None"
  by simp

lemma heappop_mset:
  assumes "heappop lt heap = Some (x, rest)"
  shows "mset heap = add_mset x (mset rest) \<and> heappeek heap = Some x"
proof -
  from assms have ne: "heap \<noteq> []" by auto
  then have split: "heap = butlast heap @ [last heap]" by simp
  show ?thesis
  proof (cases "butlast heap")
    case Nil
    with ne assms split show ?thesis
      by (cases heap) (auto simp: heappop_def heappeek_def Let_def)
  next
    case (Cons y ys)
    with assms ne have "x = y" "rest = siftup lt (last heap # ys)"
      by (auto simp: heappop_def Let_def)
    moreover have "mset heap = mset (y # ys) + {#last heap#}"
      using split Cons by (metis mset_append mset_single_iff_right)
    ultimately show ?thesis using Cons ne by (cases heap) (auto simp: mset_siftup heappeek_def split: if_splits)
  qed
qed

section \<open>The heap property\<close>

definition heap_inv :: "('a \<Rightarrow> 'k :: linorder) \<Rightarrow> 'a list \<Rightarrow> bool" where
  "heap_inv key heap \<longleftrightarrow> (\<forall>i. 0 < i \<and> i < length heap \<longrightarrow> key (heap ! parent i) \<le> key (heap ! i))"

text \<open>
  A heap but for position \<open>pos\<close>, which may be smaller than its parent; its children are not
  smaller than the parent either, so moving the parent down repairs nothing else.
\<close>

definition heap_but :: "('a \<Rightarrow> 'k :: linorder) \<Rightarrow> 'a list \<Rightarrow> nat \<Rightarrow> bool" where
  "heap_but key heap pos \<longleftrightarrow>
     (\<forall>i. 0 < i \<and> i < length heap \<and> i \<noteq> pos \<longrightarrow> key (heap ! parent i) \<le> key (heap ! i)) \<and>
     (\<forall>i. 0 < i \<and> i < length heap \<and> parent i = pos \<and> 0 < pos \<longrightarrow> key (heap ! parent pos) \<le> key (heap ! i))"

text \<open>The same with a hole at \<open>pos\<close>: nothing is said of its content.\<close>

definition heap_hole :: "('a \<Rightarrow> 'k :: linorder) \<Rightarrow> 'a list \<Rightarrow> nat \<Rightarrow> bool" where
  "heap_hole key heap pos \<longleftrightarrow>
     (\<forall>i. 0 < i \<and> i < length heap \<and> i \<noteq> pos \<and> parent i \<noteq> pos \<longrightarrow> key (heap ! parent i) \<le> key (heap ! i)) \<and>
     (\<forall>i. 0 < i \<and> i < length heap \<and> parent i = pos \<and> 0 < pos \<longrightarrow> key (heap ! parent pos) \<le> key (heap ! i))"

definition heap_ok :: "('a \<Rightarrow> 'k :: linorder) \<Rightarrow> ('a \<Rightarrow> bool) \<Rightarrow> 'a list \<Rightarrow> bool" where
  "heap_ok key valid heap \<longleftrightarrow> heap_inv key heap \<and> (\<forall>x \<in> set heap. valid x)"

lemma heap_inv_top:
  assumes "heap_inv key heap" "i < length heap"
  shows "key (heap ! 0) \<le> key (heap ! i)"
  using assms(2)
proof (induction i rule: less_induct)
  case (less i)
  show ?case
  proof (cases "i = 0")
    case False
    then have "parent i < i" by simp
    with less have "key (heap ! 0) \<le> key (heap ! parent i)" by simp
    also have "\<dots> \<le> key (heap ! i)" using assms(1) less.prems False by (simp add: heap_inv_def)
    finally show ?thesis .
  qed simp
qed

lemma heap_inv_peek:
  assumes "heap_inv key heap" "heappeek heap = Some x" "y \<in> set heap"
  shows "key x \<le> key y"
proof -
  from assms(2) have "x = heap ! 0" by (cases heap) (auto simp: heappeek_def)
  moreover obtain i where "i < length heap" "y = heap ! i" using assms(3) by (auto simp: in_set_conv_nth)
  ultimately show ?thesis using heap_inv_top [OF assms(1)] by simp
qed

lemma heap_inv_Nil [simp]: "heap_inv key []" "heap_inv key [x]"
  by (simp_all add: heap_inv_def)

lemma parent_child [simp]: "parent (2 * i + 1) = i" "parent (Suc (2 * i)) = i" "parent (Suc (Suc (2 * i))) = i"
  by (simp_all add: parent_def)

lemma parent_cases: "0 < i \<Longrightarrow> parent i = p \<longleftrightarrow> i = 2 * p + 1 \<or> i = 2 * p + 2"
  unfolding parent_def by presburger

lemma heap_butD:
  assumes "heap_but key heap pos" "0 < i" "i < length heap"
  shows "i \<noteq> pos \<Longrightarrow> key (heap ! parent i) \<le> key (heap ! i)"
    and "parent i = pos \<Longrightarrow> 0 < pos \<Longrightarrow> key (heap ! parent pos) \<le> key (heap ! i)"
  using assms by (auto simp: heap_but_def)

text \<open>Moving the parent into the position of a smaller item keeps \<open>heap_but\<close>, one level up.\<close>

lemma heap_but_move:
  assumes but: "heap_but key (heap[pos := x]) pos"
    and pos: "0 < pos" "pos < length heap" and less: "key x \<le> key (heap ! parent pos)"
  shows "heap_but key (heap[pos := heap ! parent pos, parent pos := x]) (parent pos)"
proof -
  define q where "q = parent pos"
  have q: "q < pos" using pos by (simp add: q_def)
  note D = heap_butD [OF but, simplified]
  let ?h = "heap[pos := heap ! q, q := x]"
  have other: "key (heap ! q) \<le> key (heap ! i)" if "0 < i" "i < length heap" "parent i = q \<or> parent i = pos" "i \<noteq> pos" for i
    using that D [of i] q pos by (auto simp: nth_list_update q_def split: if_splits)
  have "key (?h ! parent i) \<le> key (?h ! i)" if i: "0 < i" "i < length heap" "i \<noteq> q" for i
  proof -
    consider "i = pos" | "i \<noteq> pos" "parent i = pos" | "i \<noteq> pos" "parent i = q" | "i \<noteq> pos" "parent i \<noteq> pos" "parent i \<noteq> q"
      by blast
    then show ?thesis
    proof cases
      case 1
      then show ?thesis using less q pos by (simp add: q_def [symmetric])
    next
      case 2
      then show ?thesis using other [of i] i q pos by simp
    next
      case 3
      then have "key x \<le> key (heap ! i)" using less other [of i] i by (simp add: q_def)
      with 3 i q pos show ?thesis by simp
    next
      case 4
      then show ?thesis using D(1) [of i] i q pos by simp
    qed
  qed
  moreover have "key (?h ! parent q) \<le> key (?h ! i)" if i: "0 < i" "i < length heap" "parent i = q" "0 < q" for i
  proof -
    have pq: "parent q < q" using that(4) by simp
    have up: "key (heap ! parent q) \<le> key (heap ! q)"
      using D(1) [of q] that q pos pq by simp
    have "i \<noteq> q" using i(1,3) parent_less [of i] by auto
    then show ?thesis using up other [of i] i q pos pq by (cases "i = pos") auto
  qed
  ultimately show ?thesis by (simp add: heap_but_def q_def)
qed

lemma heap_but_done:
  assumes "heap_but key (heap[pos := x]) pos" "pos < length heap"
    and "pos = 0 \<or> key (heap ! parent pos) \<le> key x"
  shows "heap_inv key (heap[pos := x])"
proof (unfold heap_inv_def, intro allI impI)
  fix i
  assume i: "0 < i \<and> i < length (heap[pos := x])"
  show "key (heap[pos := x] ! parent i) \<le> key (heap[pos := x] ! i)"
  proof (cases "i = pos")
    case True
    then have "parent pos \<noteq> pos" "0 < pos" using i parent_less [of pos] by auto
    with True assms(2,3) show ?thesis by simp
  next
    case False
    with heap_butD(1) [OF assms(1)] i show ?thesis by simp
  qed
qed

text \<open>The hole moves to the smaller child.\<close>

lemma heap_hole_move:
  assumes hole: "heap_hole key heap pos"
    and c: "c = 2 * pos + 1" "c < length heap" and d: "d = c \<or> d = c + 1" "d < length heap"
    and least: "\<And>i. i < length heap \<Longrightarrow> 0 < i \<Longrightarrow> parent i = pos \<Longrightarrow> key (heap ! d) \<le> key (heap ! i)"
  shows "heap_hole key (heap[pos := heap ! d]) d"
proof -
  have pd: "parent d = pos" "0 < d" "pos < d" using c d by auto
  have H1: "key (heap ! parent i) \<le> key (heap ! i)"
    if "0 < i" "i < length heap" "i \<noteq> pos" "parent i \<noteq> pos" for i
    using hole that by (auto simp: heap_hole_def)
  have H2: "key (heap ! parent pos) \<le> key (heap ! i)"
    if "0 < i" "i < length heap" "parent i = pos" "0 < pos" for i
    using hole that by (auto simp: heap_hole_def)
  let ?h = "heap[pos := heap ! d]"
  have "key (?h ! parent i) \<le> key (?h ! i)" if i: "0 < i" "i < length heap" "i \<noteq> d" "parent i \<noteq> d" for i
  proof -
    have pos: "pos < length heap" using pd d by simp
    have ne: "parent i \<noteq> i" using i(1) parent_less [of i] by auto
    show ?thesis
    proof (cases "i = pos")
      case True
      with H2 [of d] pd d i ne pos show ?thesis by simp
    next
      case False
      then show ?thesis using H1 [of i] least [of i] i pos by (cases "parent i = pos") auto
    qed
  qed
  moreover have "key (?h ! parent d) \<le> key (?h ! i)" if i: "0 < i" "i < length heap" "parent i = d" for i
  proof -
    have "i \<noteq> pos" using i pd parent_less [of i] by auto
    then show ?thesis using H1 [of i] i pd d by simp
  qed
  ultimately show ?thesis by (simp add: heap_hole_def)
qed

lemma heap_hole_leaf:
  assumes "heap_hole key heap pos" "\<not> 2 * pos + 1 < length heap"
  shows "heap_but key (heap[pos := x]) pos"
proof -
  have leaf: "parent i \<noteq> pos" if "0 < i" "i < length heap" for i
  proof
    assume "parent i = pos"
    with that(1) have "i = 2 * pos + 1 \<or> i = 2 * pos + 2" by (simp only: parent_cases)
    with that(2) assms(2) show False by auto
  qed
  have "key (heap[pos := x] ! parent i) \<le> key (heap[pos := x] ! i)"
    if "0 < i" "i < length heap" "i \<noteq> pos" for i
    using assms(1) leaf [OF that(1,2)] that by (simp add: heap_hole_def)
  with leaf show ?thesis unfolding heap_but_def length_list_update by blast
qed

section \<open>The contract\<close>

text \<open>
  A priority queue: \<open>elems q\<close> is what it holds, \<open>key\<close> is what a pop minimises, \<open>valid\<close> are the
  items it may hold (for the clock: those whose deadline is not NaN).
\<close>

locale prio_queue =
  fixes push :: "'a \<Rightarrow> 'q \<Rightarrow> 'q" and pop :: "'q \<Rightarrow> ('a \<times> 'q) option" and peek :: "'q \<Rightarrow> 'a option"
    and invar :: "'q \<Rightarrow> bool" and elems :: "'q \<Rightarrow> 'a multiset"
    and key :: "'a \<Rightarrow> 'k :: linorder" and valid :: "'a \<Rightarrow> bool"
  assumes push_ok: "invar q \<Longrightarrow> valid x \<Longrightarrow> invar (push x q)"
    and elems_push: "elems (push x q) = add_mset x (elems q)"
    and pop_empty: "pop q = None \<longleftrightarrow> elems q = {#}"
    and pop_peek: "pop q = Some (x, q') \<Longrightarrow> peek q = Some x"
    and elems_pop: "pop q = Some (x, q') \<Longrightarrow> elems q = add_mset x (elems q')"
    and pop_ok: "invar q \<Longrightarrow> pop q = Some (x, q') \<Longrightarrow> invar q'"
    and peek_least: "invar q \<Longrightarrow> peek q = Some x \<Longrightarrow> y \<in># elems q \<Longrightarrow> key x \<le> key y"
    and invar_valid: "invar q \<Longrightarrow> y \<in># elems q \<Longrightarrow> valid y"
begin

lemma pop_least: "invar q \<Longrightarrow> pop q = Some (x, q') \<Longrightarrow> y \<in># elems q' \<Longrightarrow> key x \<le> key y"
  using peek_least [of q x y] pop_peek [of q x q'] elems_pop [of q x q'] by simp

lemma pop_then_pop:
  assumes "invar q" "pop q = Some (x, q')" "pop q' = Some (y, q'')"
  shows "key x \<le> key y"
  using pop_least [OF assms(1,2)] elems_pop [OF assms(3)] by simp

lemma push_then_pop:
  assumes "invar q" "valid x" "pop (push x q) = Some (y, q')"
  shows "key y \<le> key x" and "y \<noteq> x \<Longrightarrow> y \<in># elems q" and "invar q'"
proof -
  have inv: "invar (push x q)" using assms(1,2) by (rule push_ok)
  note peek = pop_peek [OF assms(3)] and el = elems_pop [OF assms(3)]
  show "key y \<le> key x" using peek_least [OF inv peek, of x] by (simp add: elems_push)
  have "y \<in># elems (push x q)" by (simp add: el)
  then show "y \<noteq> x \<Longrightarrow> y \<in># elems q" by (simp add: elems_push)
  show "invar q'" using inv assms(3) by (rule pop_ok)
qed

end

text \<open>A comparison that is the order of a key on the valid items.\<close>

locale heap_order =
  fixes lt :: "'a \<Rightarrow> 'a \<Rightarrow> bool" and key :: "'a \<Rightarrow> 'k :: linorder" and valid :: "'a \<Rightarrow> bool"
  assumes lt_key: "valid x \<Longrightarrow> valid y \<Longrightarrow> lt x y \<longleftrightarrow> key x < key y"
begin

lemma siftdown_inv:
  assumes "heap_but key (heap[pos := x]) pos" "pos < length heap"
    and x: "valid x" and "\<And>y. y \<in> set heap \<Longrightarrow> valid y"
  shows "heap_inv key (siftdown lt heap pos x)"
  using assms(1,2,4)
proof (induction pos arbitrary: heap rule: less_induct)
  case (less pos)
  show ?case
  proof (cases "0 < pos \<and> lt x (heap ! parent pos)")
    case True
    then have up: "parent pos < pos" by simp
    with less.prems(2) have "parent pos < length heap" by simp
    then have pv: "valid (heap ! parent pos)" by (intro less.prems(3)) simp
    let ?h = "heap[pos := heap ! parent pos]"
    have "heap_inv key (siftdown lt ?h (parent pos) x)"
    proof (rule less.IH [OF up])
      show "heap_but key (?h[parent pos := x]) (parent pos)"
        using True less.prems lt_key [OF x pv] by (intro heap_but_move) (simp_all add: less_imp_le)
      show "parent pos < length ?h" using \<open>parent pos < length heap\<close> by simp
      show "valid y" if "y \<in> set ?h" for y
        using that set_update_subset_insert [of heap pos] pv less.prems(3) by blast
    qed
    with True show ?thesis by (simp add: siftdown_move)
  next
    case stop: False
    have "pos = 0 \<or> key (heap ! parent pos) \<le> key x"
    proof (cases "pos = 0")
      case False
      with stop have "\<not> lt x (heap ! parent pos)" by simp
      moreover have "parent pos < length heap"
        using False less.prems(2) parent_less [of pos] by linarith
      then have "valid (heap ! parent pos)" by (intro less.prems(3)) simp
      ultimately show ?thesis using lt_key [OF x] by (simp add: not_less)
    qed simp
    with stop less.prems show ?thesis by (simp add: siftdown_stop heap_but_done)
  qed
qed

lemma smaller_child_least:
  assumes v: "\<And>y. y \<in> set heap \<Longrightarrow> valid y" and c: "c = 2 * pos + 1" "c < length heap"
    and i: "i < length heap" "0 < i" "parent i = pos"
  shows "key (heap ! smaller_child lt heap c) \<le> key (heap ! i)"
proof -
  from i c(1) consider "i = c" | "i = c + 1" by (auto simp: parent_cases)
  moreover have "lt (heap ! c) (heap ! (c + 1)) \<longleftrightarrow> key (heap ! c) < key (heap ! (c + 1))"
    if "c + 1 < length heap"
    using that by (intro lt_key v) simp_all
  ultimately show ?thesis using i(1) by cases (auto simp: smaller_child_def)
qed

lemma sift_hole_inv:
  assumes "heap_hole key heap pos" and "\<And>y. y \<in> set heap \<Longrightarrow> valid y"
    and "sift_hole lt heap pos = (heap', pos')"
  shows "heap_but key (heap'[pos' := x]) pos' \<and> (\<forall>y \<in> set heap'. valid y)"
  using assms
proof (induction "length heap - pos" arbitrary: heap pos rule: less_induct)
  case less
  let ?c = "2 * pos + 1"
  let ?d = "smaller_child lt heap ?c"
  show ?case
  proof (cases "?c < length heap")
    case True
    have d: "?d = ?c \<or> ?d = ?c + 1" "?d < length heap"
      using smaller_child_cases smaller_child_less [OF True] by blast+
    let ?h = "heap[pos := heap ! ?d]"
    have hole: "heap_hole key ?h ?d"
      by (rule heap_hole_move [OF less.prems(1) refl True d])
        (rule smaller_child_least [OF less.prems(2) refl True])
    have valid: "valid y" if "y \<in> set ?h" for y
      using that set_update_subset_insert [of heap pos] d(2) less.prems(2) by fastforce
    have "length ?h - ?d < length heap - pos" using d True by auto
    with less.hyps [OF _ hole valid] less.prems(3) True show ?thesis
      by (simp add: sift_hole_move)
  next
    case False
    with less.prems show ?thesis by (auto simp: sift_hole_leaf heap_hole_leaf)
  qed
qed

lemma siftup_inv:
  assumes "heap_hole key heap 0" "heap \<noteq> []" and v: "\<And>y. y \<in> set heap \<Longrightarrow> valid y"
  shows "heap_inv key (siftup lt heap)"
proof (cases "sift_hole lt heap 0")
  case (Pair heap' pos)
  have "pos < length heap'"
    using mset_sift_hole [OF Pair] length_sift_hole [OF Pair] assms(2) by simp
  then show ?thesis
    using sift_hole_inv [OF assms(1) v Pair] v assms(2) Pair
    by (simp add: siftup_def siftdown_inv)
qed

lemma heappush_ok:
  assumes "heap_ok key valid heap" "valid x"
  shows "heap_ok key valid (heappush lt x heap)"
proof -
  have "heap_but key (heap @ [x]) (length heap)"
    using assms(1) unfolding heap_but_def heap_ok_def heap_inv_def
    by (auto simp: nth_append less_Suc_eq dest: parent_less)
  then have "heap_inv key (heappush lt x heap)"
    using assms unfolding heappush_def heap_ok_def by (intro siftdown_inv) auto
  then show ?thesis using assms by (auto simp: heap_ok_def)
qed

lemma heappop_ok:
  assumes "heap_ok key valid heap" "heappop lt heap = Some (x, rest)"
  shows "heap_ok key valid rest"
proof -
  have valid: "\<forall>y \<in> set rest. valid y"
    using assms heappop_mset [OF assms(2)] mset_eq_setD [of heap "x # rest"] by (auto simp: heap_ok_def)
  show ?thesis
  proof (cases "butlast heap = []")
    case True
    with assms(2) have "rest = []" by (auto simp: heappop_def Let_def split: if_splits)
    then show ?thesis by (simp add: heap_ok_def)
  next
    case False
    then have ne: "heap \<noteq> []" by auto
    let ?h = "(butlast heap)[0 := last heap]"
    from False ne assms(2) have "rest = siftup lt ?h"
      by (auto simp: heappop_def Let_def split: if_splits)
    moreover have "heap_hole key ?h 0"
      using assms(1) by (auto simp: heap_hole_def heap_ok_def heap_inv_def nth_butlast nth_list_update
          dest: parent_less)
    moreover have "valid y" if "y \<in> set ?h" for y
    proof -
      have "y = last heap \<or> y \<in> set (butlast heap)"
        using that set_update_subset_insert [of "butlast heap" 0 "last heap"] by auto
      then show ?thesis using assms(1) ne by (auto simp: heap_ok_def dest: in_set_butlastD)
    qed
    ultimately have "heap_inv key rest" using False by (simp add: siftup_inv)
    with valid show ?thesis by (simp add: heap_ok_def)
  qed
qed

sublocale prio_queue "heappush lt" "heappop lt" heappeek "heap_ok key valid" mset key valid
proof
  show "heap_ok key valid q \<Longrightarrow> valid x \<Longrightarrow> heap_ok key valid (heappush lt x q)" for q x by (rule heappush_ok)
  show "heappop lt q = None \<longleftrightarrow> mset q = {#}" for q by simp
  show "heappop lt q = Some (x, q') \<Longrightarrow> heappeek q = Some x" for q x q' by (simp add: heappop_mset)
  show "heappop lt q = Some (x, q') \<Longrightarrow> mset q = add_mset x (mset q')" for q x q' by (simp add: heappop_mset)
  show "heap_ok key valid q \<Longrightarrow> heappop lt q = Some (x, q') \<Longrightarrow> heap_ok key valid q'" for q x q' by (rule heappop_ok)
  show "heap_ok key valid q \<Longrightarrow> heappeek q = Some x \<Longrightarrow> y \<in># mset q \<Longrightarrow> key x \<le> key y" for q x y
    by (auto simp: heap_ok_def dest: heap_inv_peek)
  show "heap_ok key valid q \<Longrightarrow> y \<in># mset q \<Longrightarrow> valid y" for q y by (simp add: heap_ok_def)
qed simp

end

end
