(* ===== verification/SimClock.thy ===== *)
theory SimClock imports Prelude PyFloat Heapq "HOL-Library.Product_Lexorder" begin

text \<open>
  \<open>SimClock\<close> of \<open>src/chrono_daemon/clock.py\<close>: the virtual clock, its waiters and the
  advance that serves them.

  A \<open>_Waiter\<close> object is identified by its \<open>seq\<close>, which the clock hands out once.  Its fields never
  change but for \<open>cancelled\<close>, and its event is set at most once; since the object is shared by
  the heap and the sleeping task, those two live in the clock's state: \<open>sc_cancelled\<close> holds the
  \<open>seq\<close> of the waiters cancelled so far, \<open>sc_woken\<close> lists the entries the clock has served (event
  set or callback called) with \<open>now()\<close> at that moment, oldest first.

  Coroutines are split at their \<open>await\<close>s.  \<open>wait_until\<close> is \<open>wait_until_enter\<close> (after its first
  checkpoint, up to \<open>event.wait()\<close>) and \<open>wait_until_exit\<close> (its \<open>finally\<close>).  In an advance, what the
  other tasks do while the driver awaits a checkpoint, what \<open>settle\<close> does and what a callback
  does are arguments (\<open>host\<close>): functions that may change the clock and a world \<open>'w\<close> of their
  own, and may raise.
\<close>

section \<open>State\<close>

text \<open>\<open>w_callback\<close> names the callback of a \<open>call_at\<close> entry; \<open>None\<close> is a sleeper, with an event.\<close>

record waiter =
  w_deadline :: pyfloat
  w_priority :: int
  w_seq :: nat
  w_callback :: "nat option"
  w_registered_at :: pyfloat

type_synonym instant_entry = "int \<times> nat \<times> waiter"

record sim_clock =
  sc_t :: pyfloat
  sc_settle_rounds :: nat
  sc_waiters :: "waiter list"
  sc_seq :: nat
  sc_advancing :: bool
  sc_deferred :: "waiter list"
  sc_anchor :: "pyfloat option"
  sc_instant_end :: pyfloat
  sc_instant_seq :: nat
  sc_instant :: "instant_entry list"
  sc_cancelled :: "nat set"
  sc_woken :: "(waiter \<times> pyfloat) list"

text \<open>
  \<open>_Waiter.__lt__\<close>: Python's comparison of the tuples (deadline, priority, seq).  Python takes one and the
  same object for equal to itself before it compares values, which only shows when two entries share
  one NaN object as their deadline: they are then ordered by priority and seq, here not at all.
\<close>

definition waiter_lt :: "waiter \<Rightarrow> waiter \<Rightarrow> bool" where
  "waiter_lt a b =
     (if feq (w_deadline a) (w_deadline b) then
        if w_priority a = w_priority b then w_seq a < w_seq b else w_priority a < w_priority b
      else flt (w_deadline a) (w_deadline b))"

text \<open>The comparison of the tuples (priority, seq, waiter) in the instant's heap.\<close>

fun instant_lt :: "instant_entry \<Rightarrow> instant_entry \<Rightarrow> bool" where
  "instant_lt (p, s, w) (p', s', w') =
     (if p = p' then if s = s' then waiter_lt w w' else s < s' else p < p')"

definition push_waiter :: "waiter \<Rightarrow> waiter list \<Rightarrow> waiter list" where
  "push_waiter = heappush waiter_lt"

definition push_instant :: "waiter \<Rightarrow> instant_entry list \<Rightarrow> instant_entry list" where
  "push_instant w = heappush instant_lt (w_priority w, w_seq w, w)"

text \<open>\<open>heapq.heappop\<close> where only what remains matters; the code pops non-empty heaps only.\<close>

definition pop_rest :: "('a \<Rightarrow> 'a \<Rightarrow> bool) \<Rightarrow> 'a list \<Rightarrow> 'a list" where
  "pop_rest lt heap = (case heappop lt heap of None \<Rightarrow> [] | Some (_, rest) \<Rightarrow> rest)"

lemma pop_rest_mset: "mset (pop_rest lt (x # xs)) = mset xs"
proof -
  obtain y rest where pop: "heappop lt (x # xs) = Some (y, rest)"
    by (cases "heappop lt (x # xs)") (simp, fastforce)
  then have "y = x" using heappop_mset [OF pop] by (simp add: heappeek_def)
  with heappop_mset [OF pop] pop show ?thesis by (simp add: pop_rest_def)
qed

lemma length_pop_rest [simp]: "length (pop_rest lt (x # xs)) = length xs"
  by (metis pop_rest_mset size_mset)

definition is_cancelled :: "sim_clock \<Rightarrow> waiter \<Rightarrow> bool" where
  "is_cancelled c w \<longleftrightarrow> w_seq w \<in> sc_cancelled c"

definition event_is_set :: "sim_clock \<Rightarrow> waiter \<Rightarrow> bool" where
  "event_is_set c w \<longleftrightarrow> (\<exists>e \<in> set (sc_woken c). w_seq (fst e) = w_seq w)"

section \<open>The operations tasks call\<close>

definition new_sim_clock :: "pyfloat \<Rightarrow> int \<Rightarrow> exn + sim_clock" where
  "new_sim_clock t0 settle_rounds =
     (if settle_rounds < 1 then Inl ValueError
      else Inr \<lparr>sc_t = t0, sc_settle_rounds = nat settle_rounds, sc_waiters = [], sc_seq = 0,
                sc_advancing = False, sc_deferred = [], sc_anchor = None, sc_instant_end = MInf,
                sc_instant_seq = 0, sc_instant = [], sc_cancelled = {}, sc_woken = []\<rparr>)"

text \<open>\<open>sleep\<close> after its checkpoint: the deadline it waits for, \<open>None\<close> when it returns at once.\<close>

definition sleep_deadline :: "pyfloat \<Rightarrow> sim_clock \<Rightarrow> pyfloat option" where
  "sleep_deadline seconds c = (if fle seconds (Fin 0) then None else Some (fadd (sc_t c) seconds))"

definition wait_until_enter :: "pyfloat \<Rightarrow> int \<Rightarrow> sim_clock \<Rightarrow> waiter option \<times> sim_clock" where
  "wait_until_enter dl prio c =
     (if fle dl (sc_t c) then (None, c)
      else let w = \<lparr>w_deadline = dl, w_priority = prio, w_seq = sc_seq c, w_callback = None,
                    w_registered_at = sc_t c\<rparr>
        in (Some w, c\<lparr>sc_seq := Suc (sc_seq c), sc_waiters := push_waiter w (sc_waiters c)\<rparr>))"

text \<open>\<open>while self._waiters and self._waiters[0].cancelled: heappop(self._waiters)\<close>\<close>

function drop_cancelled_tops :: "nat set \<Rightarrow> waiter list \<Rightarrow> waiter list" where
  "drop_cancelled_tops cancelled heap =
     (case heap of [] \<Rightarrow> []
      | w # _ \<Rightarrow> if w_seq w \<in> cancelled then drop_cancelled_tops cancelled (pop_rest waiter_lt heap)
                else heap)"
  by pat_completeness auto
termination
  by (relation "measure (\<lambda>(cancelled, heap). length heap)") auto

declare drop_cancelled_tops.simps [simp del]

definition wait_until_exit :: "waiter \<Rightarrow> sim_clock \<Rightarrow> sim_clock" where
  "wait_until_exit w c =
     (if event_is_set c w then c
      else let cancelled = insert (w_seq w) (sc_cancelled c) in
        c\<lparr>sc_cancelled := cancelled, sc_waiters := drop_cancelled_tops cancelled (sc_waiters c)\<rparr>)"

text \<open>\<open>call_at\<close> returns the waiter's \<open>cancel\<close>; the model returns the waiter.\<close>

definition call_at :: "pyfloat \<Rightarrow> nat \<Rightarrow> int \<Rightarrow> sim_clock \<Rightarrow> waiter \<times> sim_clock" where
  "call_at dl callback prio c =
     (let w = \<lparr>w_deadline = dl, w_priority = prio, w_seq = sc_seq c, w_callback = Some callback,
               w_registered_at = sc_t c\<rparr>;
          c' = c\<lparr>sc_seq := Suc (sc_seq c)\<rparr>
      in (w, if sc_anchor c \<noteq> None \<and> fle dl (sc_t c)
             then c'\<lparr>sc_instant := push_instant w (sc_instant c)\<rparr>
             else c'\<lparr>sc_waiters := push_waiter w (sc_waiters c)\<rparr>))"

definition cancel_waiter :: "waiter \<Rightarrow> sim_clock \<Rightarrow> sim_clock" where
  "cancel_waiter w c = c\<lparr>sc_cancelled := insert (w_seq w) (sc_cancelled c)\<rparr>"


section \<open>Finding what is due\<close>

text \<open>
  \<open>_heap_due\<close>: \<open>close_to T rtol atol w\<close> is its local \<open>close\<close>.  Cancelled entries at the top are
  dropped, a re-sleep registered at the target and due only by its tolerance is set aside.
\<close>

definition close_to :: "pyfloat \<Rightarrow> pyfloat \<Rightarrow> pyfloat \<Rightarrow> waiter \<Rightarrow> bool" where
  "close_to T rtol atol w \<longleftrightarrow>
     isfinite (w_deadline w) \<and>
     fle (w_deadline w)
       (fadd T (pymax (fmul rtol (pymax (fabs (w_deadline w)) (fabs T))) atol))"

definition resleep_at :: "pyfloat \<Rightarrow> pyfloat \<Rightarrow> pyfloat \<Rightarrow> waiter \<Rightarrow> bool" where
  "resleep_at T rtol atol w \<longleftrightarrow>
     close_to T rtol atol w \<and> flt T (w_deadline w) \<and> fle T (w_registered_at w)"

definition drop_top :: "waiter \<Rightarrow> sim_clock \<Rightarrow> sim_clock" where
  "drop_top w c =
     (let c' = c\<lparr>sc_waiters := pop_rest waiter_lt (sc_waiters c)\<rparr>
      in if is_cancelled c w then c' else c'\<lparr>sc_deferred := sc_deferred c @ [w]\<rparr>)"

lemma drop_top_simps [simp]:
  "sc_waiters (drop_top w c) = pop_rest waiter_lt (sc_waiters c)"
  "sc_cancelled (drop_top w c) = sc_cancelled c"
  "sc_deferred (drop_top w c) = (if is_cancelled c w then sc_deferred c else sc_deferred c @ [w])"
  by (simp_all add: drop_top_def Let_def)

function heap_due :: "pyfloat \<Rightarrow> pyfloat \<Rightarrow> pyfloat \<Rightarrow> sim_clock \<Rightarrow> waiter option \<times> sim_clock" where
  "heap_due T rtol atol c =
     (case sc_waiters c of
        [] \<Rightarrow> (None, c)
      | w # _ \<Rightarrow>
          if is_cancelled c w \<or> resleep_at T rtol atol w
          then heap_due T rtol atol (drop_top w c)
          else if fle (w_deadline w) T \<or> close_to T rtol atol w then (Some w, c)
          else (None, c))"
  by pat_completeness auto
termination
  by (relation "measure (\<lambda>(T, rtol, atol, c). length (sc_waiters c))") auto

declare heap_due.simps [simp del]

lemma heap_due_Nil: "sc_waiters c = [] \<Longrightarrow> heap_due T rtol atol c = (None, c)"
  by (subst heap_due.simps) simp

lemma heap_due_drop:
  "sc_waiters c = w # ws \<Longrightarrow> is_cancelled c w \<or> resleep_at T rtol atol w \<Longrightarrow>
   heap_due T rtol atol c = heap_due T rtol atol (drop_top w c)"
  by (subst heap_due.simps) simp

lemma heap_due_keep:
  "sc_waiters c = w # ws \<Longrightarrow> \<not> (is_cancelled c w \<or> resleep_at T rtol atol w) \<Longrightarrow>
   heap_due T rtol atol c =
     (if fle (w_deadline w) T \<or> close_to T rtol atol w then (Some w, c) else (None, c))"
  by (subst heap_due.simps) (simp del: fle_def)

text \<open>One induction for every fact about \<open>heap_due\<close>: the loop ends or drops the top.\<close>

lemma heap_due_cases [consumes 1, case_names empty due early drop]:
  assumes "heap_due T rtol atol c = (r, c')"
  obtains "sc_waiters c = []" "r = None" "c' = c"
  | w ws where "sc_waiters c = w # ws" "\<not> is_cancelled c w" "\<not> resleep_at T rtol atol w"
      "fle (w_deadline w) T \<or> close_to T rtol atol w" "r = Some w" "c' = c"
  | w ws where "sc_waiters c = w # ws" "\<not> is_cancelled c w" "\<not> fle (w_deadline w) T"
      "\<not> close_to T rtol atol w" "r = None" "c' = c"
  | w ws where "sc_waiters c = w # ws" "is_cancelled c w \<or> resleep_at T rtol atol w"
      "heap_due T rtol atol (drop_top w c) = (r, c')"
proof (cases "sc_waiters c")
  case Nil
  note stop = assms [unfolded heap_due_Nil [OF Nil] prod.inject]
  show ?thesis by (rule that(1) [OF Nil]) (simp_all only: stop)
next
  case (Cons w ws)
  show ?thesis
  proof (cases "is_cancelled c w \<or> resleep_at T rtol atol w")
    case True
    show ?thesis by (rule that(4) [OF Cons True]) (rule assms [unfolded heap_due_drop [OF Cons True]])
  next
    case False
    note keep = assms [unfolded heap_due_keep [OF Cons False]]
    show ?thesis
    proof (cases "fle (w_deadline w) T \<or> close_to T rtol atol w")
      case True
      with keep have "r = Some w" "c' = c" by simp_all
      with that(2) [OF Cons] False True show ?thesis by simp
    next
      case early: False
      with keep have "r = None" "c' = c" by simp_all
      with that(3) [OF Cons] False early show ?thesis by simp
    qed
  qed
qed

lemma heap_due_induct [consumes 1, case_names empty due early drop]:
  assumes "heap_due T rtol atol c = (r, c')"
    and "\<And>c. sc_waiters c = [] \<Longrightarrow> P c None c"
    and "\<And>c w ws. sc_waiters c = w # ws \<Longrightarrow> \<not> is_cancelled c w \<Longrightarrow> \<not> resleep_at T rtol atol w \<Longrightarrow>
      fle (w_deadline w) T \<or> close_to T rtol atol w \<Longrightarrow> P c (Some w) c"
    and "\<And>c w ws. sc_waiters c = w # ws \<Longrightarrow> \<not> is_cancelled c w \<Longrightarrow> \<not> fle (w_deadline w) T \<Longrightarrow>
      \<not> close_to T rtol atol w \<Longrightarrow> P c None c"
    and "\<And>c w ws r c'. sc_waiters c = w # ws \<Longrightarrow> is_cancelled c w \<or> resleep_at T rtol atol w \<Longrightarrow>
      P (drop_top w c) r c' \<Longrightarrow> P c r c'"
  shows "P c r c'"
  using assms(1)
proof (induction "length (sc_waiters c)" arbitrary: c rule: less_induct)
  case less
  from less.prems show ?case
  proof (cases rule: heap_due_cases)
    case (drop w ws)
    then have "P (drop_top w c) r c'" by (intro less.hyps) simp_all
    with drop(1,2) show ?thesis by (rule assms(5))
  next
    case empty
    then show ?thesis by (simp only: assms(2))
  next
    case (due w ws)
    then show ?thesis by (simp only: assms(3) [OF due(1-4)])
  next
    case (early w ws)
    then show ?thesis by (simp only: assms(4) [OF early(1-4)])
  qed
qed

lemma heap_due_length: "heap_due T rtol atol c = (r, c') \<Longrightarrow> length (sc_waiters c') \<le> length (sc_waiters c)"
  by (induction rule: heap_due_induct) simp_all

lemma heap_due_top: "heap_due T rtol atol c = (Some w, c') \<Longrightarrow> \<exists>ws. sc_waiters c' = w # ws"
  by (induction c "Some w" c' rule: heap_due_induct) simp_all

text \<open>
  The second loop of \<open>_pop_due\<close>: entries due and close to the anchor \<open>a\<close> leave the heap for the
  instant, or for \<open>later\<close> when they were registered during it.
\<close>

function fill_instant ::
  "pyfloat \<Rightarrow> pyfloat \<Rightarrow> pyfloat \<Rightarrow> pyfloat \<Rightarrow> waiter list \<Rightarrow> sim_clock \<Rightarrow> waiter list \<times> sim_clock" where
  "fill_instant T rtol atol a later c =
     (case heap_due T rtol atol c of
        (None, c1) \<Rightarrow> (later, c1)
      | (Some w, c1) \<Rightarrow>
          if isclose rtol atol (w_deadline w) a then
            let c2 = c1\<lparr>sc_waiters := pop_rest waiter_lt (sc_waiters c1)\<rparr> in
            if w_seq w < sc_instant_seq c2 then
              fill_instant T rtol atol a later
                (c2\<lparr>sc_instant := push_instant w (sc_instant c2),
                    sc_instant_end := pymax (sc_instant_end c2) (w_deadline w)\<rparr>)
            else fill_instant T rtol atol a (later @ [w]) c2
          else (later, c1))"
  by pat_completeness auto
termination
  by (relation "measure (\<lambda>(T, rtol, atol, a, later, c). length (sc_waiters c))")
    (use heap_due_top [OF sym] heap_due_length [OF sym] in \<open>fastforce+\<close>)

declare fill_instant.simps [simp del]

text \<open>
  The opening of an instant: its anchor is the earliest due deadline; the counter is drawn once,
  so entries registered from here on carry a \<open>seq\<close> of at least \<open>sc_instant_seq\<close>.  The outcome is
  the anchor, \<open>None\<close> when nothing is due.
\<close>

definition open_instant ::
  "pyfloat \<Rightarrow> pyfloat \<Rightarrow> pyfloat \<Rightarrow> sim_clock \<Rightarrow> pyfloat option \<times> sim_clock" where
  "open_instant T rtol atol c =
     (case sc_anchor c of
        Some a \<Rightarrow> (Some a, c)
      | None \<Rightarrow>
          (case heap_due T rtol atol c of
             (None, c1) \<Rightarrow> (None, c1)
           | (Some first, c1) \<Rightarrow>
               (Some (w_deadline first),
                c1\<lparr>sc_anchor := Some (w_deadline first), sc_instant_end := MInf,
                   sc_instant_seq := sc_seq c1, sc_seq := Suc (sc_seq c1)\<rparr>)))"

text \<open>\<open>while self._instant and self._instant[0][2].cancelled: heappop(self._instant)\<close>\<close>

function drop_cancelled_instant :: "nat set \<Rightarrow> instant_entry list \<Rightarrow> instant_entry list" where
  "drop_cancelled_instant cancelled heap =
     (case heap of [] \<Rightarrow> []
      | e # _ \<Rightarrow> if w_seq (snd (snd e)) \<in> cancelled
                then drop_cancelled_instant cancelled (pop_rest instant_lt heap)
                else heap)"
  by pat_completeness auto
termination
  by (relation "measure (\<lambda>(cancelled, heap). length heap)") auto

declare drop_cancelled_instant.simps [simp del]

text \<open>Lines 265 to 278 of \<open>_pop_due\<close>, with the anchor \<open>a\<close> set.\<close>

definition gather_instant :: "pyfloat \<Rightarrow> pyfloat \<Rightarrow> pyfloat \<Rightarrow> pyfloat \<Rightarrow> sim_clock \<Rightarrow> sim_clock" where
  "gather_instant T rtol atol a c =
     (case fill_instant T rtol atol a [] c of (later, c1) \<Rightarrow>
        c1\<lparr>sc_waiters := fold push_waiter later (sc_waiters c1),
           sc_instant := drop_cancelled_instant (sc_cancelled c1) (sc_instant c1)\<rparr>)"

text \<open>
  \<open>_pop_due\<close>.  Its outer loop has no bound in the code, so a run that does not return is
  \<open>None\<close>; that it returns on every clock the operations can reach is proved below.
\<close>

partial_function (option) pop_due ::
  "pyfloat \<Rightarrow> pyfloat \<Rightarrow> pyfloat \<Rightarrow> bool \<Rightarrow> sim_clock \<Rightarrow> (waiter option \<times> sim_clock) option" where
  "pop_due T rtol atol peek c =
     (case open_instant T rtol atol c of
        (None, c1) \<Rightarrow> Some (None, c1)
      | (Some a, c1) \<Rightarrow>
          let c2 = gather_instant T rtol atol a c1 in
          (case sc_instant c2 of
             e # _ \<Rightarrow>
               let c3 = c2\<lparr>sc_t := pymax (sc_t c2) (pymin T (sc_instant_end c2))\<rparr> in
               Some (Some (snd (snd e)),
                     if peek then c3 else c3\<lparr>sc_instant := pop_rest instant_lt (sc_instant c3)\<rparr>)
           | [] \<Rightarrow> pop_due T rtol atol peek (c2\<lparr>sc_anchor := None\<rparr>)))"

declare pop_due.simps [code]

section \<open>The advance\<close>

text \<open>
  What runs while the driver awaits: \<open>h_checkpoint\<close> is what the other tasks do during one
  \<open>anyio.lowlevel.checkpoint()\<close>, \<open>h_callback k\<close> the \<open>call_at\<close> callback named \<open>k\<close>.  \<open>settle\<close> is the
  keyword argument of \<open>advance_to\<close>.
\<close>

type_synonym 'w st = "'w \<times> sim_clock"

record 'w host =
  h_checkpoint :: "('w st, unit) py"
  h_callback :: "nat \<Rightarrow> ('w st, unit) py"

type_synonym 'w settle = "('w st, bool) py option"

fun checkpoints :: "'w host \<Rightarrow> nat \<Rightarrow> ('w st, unit) py" where
  "checkpoints h 0 = ret ()"
| "checkpoints h (Suc n) = andThen (h_checkpoint h) (\<lambda>_. checkpoints h n)"

text \<open>\<open>_settle\<close> with \<open>max_settles\<close> turns left.\<close>

fun settle_turns :: "'w host \<Rightarrow> 'w settle \<Rightarrow> nat \<Rightarrow> ('w st, unit) py" where
  "settle_turns h settle 0 = raise RuntimeError"
| "settle_turns h settle (Suc n) =
     andThen (\<lambda>s. checkpoints h (sc_settle_rounds (snd s)) s)
       (\<lambda>_. case settle of
              None \<Rightarrow> ret ()
            | Some f \<Rightarrow> andThen f (\<lambda>more. if more then settle_turns h settle n else ret ()))"

text \<open>Serving an entry: its callback runs, or its event is set.\<close>

definition log_wake :: "waiter \<Rightarrow> sim_clock \<Rightarrow> sim_clock" where
  "log_wake w c = c\<lparr>sc_woken := sc_woken c @ [(w, sc_t c)]\<rparr>"

definition wake :: "'w host \<Rightarrow> waiter \<Rightarrow> ('w st, unit) py" where
  "wake h w s =
     (let s' = (fst s, log_wake w (snd s)) in
      case w_callback w of Some k \<Rightarrow> h_callback h k s' | None \<Rightarrow> (Inr (), s'))"

text \<open>The loop of \<open>_advance_to\<close>; the tasks may keep it busy for ever, so again \<open>None\<close> is a run
  that does not return.\<close>

partial_function (option) advance_loop ::
  "'w host \<Rightarrow> 'w settle \<Rightarrow> nat \<Rightarrow> pyfloat \<Rightarrow> pyfloat \<Rightarrow> pyfloat \<Rightarrow> 'w st \<Rightarrow> ((exn + unit) \<times> 'w st) option" where
  "advance_loop h settle ms T rtol atol s =
     Option.bind (pop_due T rtol atol False (snd s)) (\<lambda>(r, c).
       case r of
         None \<Rightarrow>
           (case settle_turns h settle ms (fst s, c) of
              (Inl e, s1) \<Rightarrow> Some (Inl e, s1)
            | (Inr _, s1) \<Rightarrow>
                Option.bind (pop_due T rtol atol True (snd s1)) (\<lambda>(r', c').
                  if r' = None then Some (Inr (), (fst s1, c'))
                  else advance_loop h settle ms T rtol atol (fst s1, c')))
       | Some w \<Rightarrow>
           (case andThen (wake h w) (\<lambda>_. settle_turns h settle ms) (fst s, c) of
              (Inl e, s1) \<Rightarrow> Some (Inl e, s1)
            | (Inr _, s1) \<Rightarrow> advance_loop h settle ms T rtol atol s1))"

declare advance_loop.simps [code]

definition advance_body ::
  "'w host \<Rightarrow> 'w settle \<Rightarrow> nat \<Rightarrow> pyfloat \<Rightarrow> pyfloat \<Rightarrow> pyfloat \<Rightarrow> 'w st \<Rightarrow> ((exn + unit) \<times> 'w st) option" where
  "advance_body h settle ms T rtol atol s =
     (case (if settle = None then ret () s else settle_turns h settle ms s) of
        (Inl e, s1) \<Rightarrow> Some (Inl e, s1)
      | (Inr _, s1) \<Rightarrow> advance_loop h settle ms T rtol atol s1)"

text \<open>The \<open>finally\<close> of \<open>advance_to\<close>.\<close>

definition end_advance :: "sim_clock \<Rightarrow> sim_clock" where
  "end_advance c =
     c\<lparr>sc_advancing := False,
       sc_waiters := fold push_waiter (sc_deferred c @ map (snd \<circ> snd) (sc_instant c)) (sc_waiters c),
       sc_deferred := [], sc_instant := [], sc_anchor := None\<rparr>"

definition advance_to ::
  "'w host \<Rightarrow> 'w settle \<Rightarrow> int \<Rightarrow> pyfloat \<Rightarrow> pyfloat \<Rightarrow> pyfloat \<Rightarrow> 'w st \<Rightarrow> ((exn + unit) \<times> 'w st) option" where
  "advance_to h settle max_settles T rtol atol s =
     (if max_settles < 1 then Some (Inl ValueError, s)
      else if flt rtol (Fin 0) \<or> flt atol (Fin 0) then Some (Inl ValueError, s)
      else if sc_advancing (snd s) then Some (Inl RuntimeError, s)
      else if flt T (sc_t (snd s)) then Some (Inr (), s)
      else map_option (\<lambda>(r, s').
             let c = end_advance (snd s') in
             case r of Inl e \<Rightarrow> (Inl e, (fst s', c)) | Inr _ \<Rightarrow> (Inr (), (fst s', c\<lparr>sc_t := T\<rparr>)))
           (advance_body h settle (nat max_settles) T rtol atol
              (fst s, (snd s)\<lparr>sc_advancing := True\<rparr>)))"

definition advance ::
  "'w host \<Rightarrow> 'w settle \<Rightarrow> int \<Rightarrow> pyfloat \<Rightarrow> pyfloat \<Rightarrow> pyfloat \<Rightarrow> 'w st \<Rightarrow> ((exn + unit) \<times> 'w st) option" where
  "advance h settle max_settles dt rtol atol s =
     (if flt dt (Fin 0) then Some (Inl ValueError, s)
      else advance_to h settle max_settles (fadd (sc_t (snd s)) dt) rtol atol s)"

end
