(* ===== verification/SimClockInv.thy ===== *)
theory SimClockInv imports SimClock begin

text \<open>
  The invariant of \<open>SimClock\<close> and what its internal operations do.  Both heaps of the clock are
  priority queues (interpretations \<open>wq\<close> and \<open>iq\<close> of the contract in \<open>Heapq\<close>): the waiters by
  (deadline, priority, seq), the instant by (priority, seq).  Every operation a task can call
  keeps the invariant, and so do the parts of \<open>_pop_due\<close>; each part's effect is given as an
  equation between the entries before and after.
\<close>

section \<open>The two orders\<close>

definition wkey :: "waiter \<Rightarrow> pyfloat \<times> int \<times> nat" where
  "wkey w = (w_deadline w, w_priority w, w_seq w)"

definition wvalid :: "waiter \<Rightarrow> bool" where
  "wvalid w \<longleftrightarrow> w_deadline w \<noteq> NaN"

fun ikey :: "instant_entry \<Rightarrow> int \<times> nat \<times> pyfloat \<times> int \<times> nat" where
  "ikey (p, s, w) = (p, s, wkey w)"

fun ivalid :: "instant_entry \<Rightarrow> bool" where
  "ivalid (p, s, w) = wvalid w"

definition entry :: "waiter \<Rightarrow> instant_entry" where
  "entry w = (w_priority w, w_seq w, w)"

lemma waiter_lt_key:
  assumes "wvalid x" "wvalid y"
  shows "waiter_lt x y \<longleftrightarrow> wkey x < wkey y"
  using assms
  by (auto simp: waiter_lt_def wkey_def wvalid_def feq_iff flt_iff less_prod_def less_le_not_le)

lemma instant_lt_key:
  assumes "ivalid x" "ivalid y"
  shows "instant_lt x y \<longleftrightarrow> ikey x < ikey y"
  using assms
  by (cases x; cases y) (auto simp: waiter_lt_key less_prod_def less_le_not_le)

interpretation wq: heap_order waiter_lt wkey wvalid
  by unfold_locales (rule waiter_lt_key)

interpretation iq: heap_order instant_lt ikey ivalid
  by unfold_locales (rule instant_lt_key)

abbreviation waiters_ok :: "waiter list \<Rightarrow> bool" where
  "waiters_ok \<equiv> heap_ok wkey wvalid"

abbreviation instant_ok :: "instant_entry list \<Rightarrow> bool" where
  "instant_ok \<equiv> heap_ok ikey ivalid"

lemma heap_ok_Nil [simp]: "heap_ok key valid []"
  by (simp add: heap_ok_def)

lemma mset_push_waiter [simp]: "mset (push_waiter w ws) = add_mset w (mset ws)"
  by (simp add: push_waiter_def)

lemma set_push_waiter [simp]: "set (push_waiter w ws) = insert w (set ws)"
  by (simp add: push_waiter_def)

lemma mset_push_instant [simp]: "mset (push_instant w es) = add_mset (entry w) (mset es)"
  by (simp add: push_instant_def entry_def)

lemma set_push_instant [simp]: "set (push_instant w es) = insert (entry w) (set es)"
  by (simp add: push_instant_def entry_def)

lemma push_waiter_ok: "waiters_ok ws \<Longrightarrow> wvalid w \<Longrightarrow> waiters_ok (push_waiter w ws)"
  unfolding push_waiter_def by (rule wq.push_ok)

lemma push_instant_ok: "instant_ok es \<Longrightarrow> wvalid w \<Longrightarrow> instant_ok (push_instant w es)"
  unfolding push_instant_def by (rule iq.push_ok) simp_all

lemma pop_rest_Some: "heappop lt (x # xs) = Some (x, pop_rest lt (x # xs))"
proof -
  obtain y rest where pop: "heappop lt (x # xs) = Some (y, rest)"
    by (cases "heappop lt (x # xs)") (simp, fastforce)
  with heappop_mset [OF pop] show ?thesis by (simp add: pop_rest_def heappeek_def)
qed

lemma pop_waiter_ok: "waiters_ok (w # ws) \<Longrightarrow> waiters_ok (pop_rest waiter_lt (w # ws))"
  using pop_rest_Some by (rule wq.pop_ok [rotated])

lemma pop_instant_ok: "instant_ok (e # es) \<Longrightarrow> instant_ok (pop_rest instant_lt (e # es))"
  using pop_rest_Some by (rule iq.pop_ok [rotated])

lemma waiters_least: "waiters_ok (w # ws) \<Longrightarrow> v \<in> set (w # ws) \<Longrightarrow> wkey w \<le> wkey v"
  by (rule wq.peek_least [of "w # ws"]) (simp_all add: heappeek_def)

lemma instant_least: "instant_ok (e # es) \<Longrightarrow> d \<in> set (e # es) \<Longrightarrow> ikey e \<le> ikey d"
  by (rule iq.peek_least [of "e # es"]) (simp_all add: heappeek_def)

lemma set_pop_rest [simp]: "set (pop_rest lt (x # xs)) = set xs"
  by (metis pop_rest_mset set_mset_mset)

lemma wkey_le_deadline: "wkey w \<le> wkey v \<Longrightarrow> w_deadline w \<le> w_deadline v"
  by (auto simp: wkey_def less_eq_prod_def)

section \<open>The invariant\<close>

text \<open>Entries waiting to be served, and all the clock has ever taken and not cancelled.\<close>

definition pending :: "sim_clock \<Rightarrow> waiter list" where
  "pending c = sc_waiters c @ map (snd \<circ> snd) (sc_instant c) @ sc_deferred c"

definition known :: "sim_clock \<Rightarrow> waiter list" where
  "known c = pending c @ map fst (sc_woken c)"

definition clock_inv :: "sim_clock \<Rightarrow> bool" where
  "clock_inv c \<longleftrightarrow>
     waiters_ok (sc_waiters c) \<and> instant_ok (sc_instant c) \<and>
     (\<forall>e \<in> set (sc_instant c). e = entry (snd (snd e))) \<and>
     distinct (map w_seq (known c)) \<and>
     (\<forall>w \<in> set (known c). w_seq w < sc_seq c \<and> is_float (w_deadline w)) \<and>
     is_float (sc_t c) \<and> is_float (sc_instant_end c) \<and>
     (sc_anchor c = None \<longrightarrow> sc_instant c = []) \<and>
     (\<forall>s \<in> sc_cancelled c. s < sc_seq c)"

lemma clock_invD:
  assumes "clock_inv c"
  shows "waiters_ok (sc_waiters c)" "instant_ok (sc_instant c)"
    and "e \<in> set (sc_instant c) \<Longrightarrow> e = entry (snd (snd e))"
    and "distinct (map w_seq (known c))"
    and "w \<in> set (known c) \<Longrightarrow> w_seq w < sc_seq c"
    and "w \<in> set (known c) \<Longrightarrow> is_float (w_deadline w)"
    and "is_float (sc_t c)" "is_float (sc_instant_end c)"
    and "sc_anchor c = None \<Longrightarrow> sc_instant c = []"
    and "s \<in> sc_cancelled c \<Longrightarrow> s < sc_seq c"
  using assms by (auto simp: clock_inv_def)

lemma set_known: "set (known c) = set (sc_waiters c) \<union> (snd \<circ> snd) ` set (sc_instant c) \<union>
    set (sc_deferred c) \<union> fst ` set (sc_woken c)"
  by (auto simp: known_def pending_def)

lemma distinct_map_subset_mset:
  assumes "mset xs \<subseteq># mset ys" "distinct (map f ys)"
  shows "distinct (map f xs)"
proof -
  obtain C where C: "mset ys = mset xs + C" using assms(1) by (auto simp: mset_subset_eq_exists_conv)
  obtain zs where "mset zs = C" using ex_mset by blast
  with C have "mset (xs @ zs) = mset ys" by simp
  then have "distinct (map f (xs @ zs))" using distinct_map_mset_eq assms(2) by metis
  then show ?thesis by simp
qed

text \<open>The one rule behind every step that only moves or drops entries.\<close>

lemma clock_inv_move:
  assumes inv: "clock_inv c"
    and "waiters_ok (sc_waiters c')" "instant_ok (sc_instant c')"
    and "\<And>e. e \<in> set (sc_instant c') \<Longrightarrow> e = entry (snd (snd e))"
    and sub: "mset (known c') \<subseteq># mset (known c)"
    and seq: "sc_seq c \<le> sc_seq c'" and "is_float (sc_t c')" "is_float (sc_instant_end c')"
    and "sc_anchor c' = None \<Longrightarrow> sc_instant c' = []"
    and canc: "\<And>s. s \<in> sc_cancelled c' \<Longrightarrow> s < sc_seq c'"
  shows "clock_inv c'"
proof -
  have "set (known c') \<subseteq> set (known c)" using sub by (metis set_mset_mono set_mset_mset)
  then have "\<forall>w \<in> set (known c'). w_seq w < sc_seq c' \<and> is_float (w_deadline w)"
    using clock_invD(5,6) [OF inv] seq by (meson in_mono order.strict_trans2)
  moreover have "distinct (map w_seq (known c'))"
    using sub clock_invD(4) [OF inv] by (rule distinct_map_subset_mset)
  ultimately show ?thesis using assms by (simp add: clock_inv_def)
qed


section \<open>What tasks do to the clock\<close>

text \<open>
  A step of a task on the clock: one of the calls it can make.  Deadlines are floats other than
  NaN here; what a NaN deadline does is stated separately.  A nested \<open>advance_to\<close> only raises, so
  it is no step.
\<close>

inductive api_step :: "sim_clock \<Rightarrow> sim_clock \<Rightarrow> bool" where
  sleep: "is_float dl \<Longrightarrow> api_step c (snd (wait_until_enter dl prio c))"
| leave: "w_seq w < sc_seq c \<Longrightarrow> api_step c (wait_until_exit w c)"
| schedule: "is_float dl \<Longrightarrow> api_step c (snd (call_at dl k prio c))"
| cancel: "w_seq w < sc_seq c \<Longrightarrow> api_step c (cancel_waiter w c)"

inductive_simps api_step_iff: "api_step c c'"

lemma drop_cancelled_tops_spec:
  assumes "waiters_ok heap"
  shows "waiters_ok (drop_cancelled_tops K heap) \<and>
    (\<exists>D. mset heap = mset (drop_cancelled_tops K heap) + D \<and> (\<forall>w \<in># D. w_seq w \<in> K))"
  using assms
proof (induction K heap rule: drop_cancelled_tops.induct)
  case (1 K heap)
  show ?case
  proof (cases heap)
    case Nil
    then show ?thesis by (subst (1 2) drop_cancelled_tops.simps) simp
  next
    case (Cons w ws)
    show ?thesis
    proof (cases "w_seq w \<in> K")
      case False
      with Cons "1.prems" show ?thesis by (subst (1 2) drop_cancelled_tops.simps) auto
    next
      case True
      let ?r = "pop_rest waiter_lt heap"
      have eq: "drop_cancelled_tops K heap = drop_cancelled_tops K ?r"
        using Cons True by (subst drop_cancelled_tops.simps) simp
      have "waiters_ok ?r" using "1.prems" Cons by (simp add: pop_waiter_ok)
      then obtain D where "waiters_ok (drop_cancelled_tops K ?r)"
        "mset ?r = mset (drop_cancelled_tops K ?r) + D" "\<forall>w \<in># D. w_seq w \<in> K"
        using "1.IH" [OF Cons True] by blast
      with True Cons eq show ?thesis
        by (intro conjI exI [of _ "add_mset w D"]) (simp_all add: pop_rest_mset)
    qed
  qed
qed

lemma drop_cancelled_instant_spec:
  assumes "instant_ok heap"
  shows "instant_ok (drop_cancelled_instant K heap) \<and>
    (\<exists>D. mset heap = mset (drop_cancelled_instant K heap) + D \<and> (\<forall>e \<in># D. w_seq (snd (snd e)) \<in> K)) \<and>
    (\<forall>e es. drop_cancelled_instant K heap = e # es \<longrightarrow> w_seq (snd (snd e)) \<notin> K)"
  using assms
proof (induction K heap rule: drop_cancelled_instant.induct)
  case (1 K heap)
  show ?case
  proof (cases heap)
    case Nil
    then have "drop_cancelled_instant K heap = []" by (subst drop_cancelled_instant.simps) simp
    with Nil show ?thesis by simp
  next
    case (Cons e es)
    show ?thesis
    proof (cases "w_seq (snd (snd e)) \<in> K")
      case False
      then have "drop_cancelled_instant K heap = heap"
        using Cons by (subst drop_cancelled_instant.simps) simp
      with Cons "1.prems" False show ?thesis by auto
    next
      case True
      let ?r = "pop_rest instant_lt heap"
      have eq: "drop_cancelled_instant K heap = drop_cancelled_instant K ?r"
        using Cons True by (subst drop_cancelled_instant.simps) simp
      have "instant_ok ?r" using "1.prems" Cons by (simp add: pop_instant_ok)
      then obtain D where D: "mset ?r = mset (drop_cancelled_instant K ?r) + D"
          "\<forall>e \<in># D. w_seq (snd (snd e)) \<in> K"
        and rest: "instant_ok (drop_cancelled_instant K ?r)"
          "\<forall>e es. drop_cancelled_instant K ?r = e # es \<longrightarrow> w_seq (snd (snd e)) \<notin> K"
        using "1.IH" [OF Cons True] by blast
      have "mset heap = mset (drop_cancelled_instant K heap) + add_mset e D"
        using D(1) Cons eq by (simp add: pop_rest_mset)
      moreover have "\<forall>e \<in># add_mset e D. w_seq (snd (snd e)) \<in> K" using D(2) True by simp
      ultimately show ?thesis using rest unfolding eq by blast
    qed
  qed
qed

lemma clock_inv_enter:
  assumes inv: "clock_inv c" and dl: "is_float dl"
  shows "clock_inv (snd (wait_until_enter dl prio c))"
proof (cases "fle dl (sc_t c)")
  case True
  with inv show ?thesis by (simp add: wait_until_enter_def)
next
  case False
  have new: "w_seq w \<noteq> sc_seq c" if "w \<in> set (known c)" for w
    using clock_invD(5) [OF inv that] by simp
  let ?c = "snd (wait_until_enter dl prio c)"
  have wv: "wvalid \<lparr>w_deadline = dl, w_priority = prio, w_seq = sc_seq c, w_callback = None,
      w_registered_at = sc_t c\<rparr>"
    using dl by (simp add: wvalid_def)
  from False have k: "mset (known ?c) = add_mset \<lparr>w_deadline = dl, w_priority = prio, w_seq = sc_seq c,
      w_callback = None, w_registered_at = sc_t c\<rparr> (mset (known c))"
    by (simp add: wait_until_enter_def Let_def known_def pending_def)
  have "distinct (map w_seq (known ?c))"
    using distinct_map_mset_eq [of "known ?c" "_ # known c" w_seq, OF k [folded mset.simps(2)]]
      clock_invD(4) [OF inv] new by auto
  moreover have "\<forall>w \<in> set (known ?c). w_seq w < sc_seq ?c \<and> is_float (w_deadline w)"
    using False dl clock_invD(5,6) [OF inv]
    by (auto simp: wait_until_enter_def Let_def set_known less_Suc_eq)
  ultimately show ?thesis using False inv wv
    by (auto simp: clock_inv_def wait_until_enter_def Let_def push_waiter_ok less_Suc_eq)
qed

lemma clock_inv_call_at:
  assumes inv: "clock_inv c" and dl: "is_float dl"
  shows "clock_inv (snd (call_at dl k prio c))"
proof -
  define w where "w = \<lparr>w_deadline = dl, w_priority = prio, w_seq = sc_seq c, w_callback = Some k,
    w_registered_at = sc_t c\<rparr>"
  have new: "w_seq v \<noteq> sc_seq c" if "v \<in> set (known c)" for v
    using clock_invD(5) [OF inv that] by simp
  let ?c = "snd (call_at dl k prio c)"
  have wv: "wvalid w" using dl by (simp add: wvalid_def w_def)
  have k: "mset (known ?c) = add_mset w (mset (known c))"
    by (simp add: call_at_def Let_def known_def pending_def w_def entry_def)
  have "distinct (map w_seq (known ?c))"
    using distinct_map_mset_eq [of "known ?c" "_ # known c" w_seq, OF k [folded mset.simps(2)]]
      clock_invD(4) [OF inv] new by (auto simp: w_def)
  moreover have "\<forall>w \<in> set (known ?c). w_seq w < sc_seq ?c \<and> is_float (w_deadline w)"
  proof -
    have "set (known ?c) = insert w (set (known c))" using k by (metis set_mset_add_mset_insert set_mset_mset)
    then show ?thesis using dl clock_invD(5,6) [OF inv]
      by (auto simp: call_at_def Let_def w_def less_Suc_eq)
  qed
  ultimately show ?thesis using inv wv
    by (auto simp: clock_inv_def call_at_def Let_def push_waiter_ok push_instant_ok less_Suc_eq
        w_def [symmetric] entry_def)
qed

lemma clock_inv_exit:
  assumes inv: "clock_inv c" and w: "w_seq w < sc_seq c"
  shows "clock_inv (wait_until_exit w c)"
proof (cases "event_is_set c w")
  case False
  let ?K = "insert (w_seq w) (sc_cancelled c)"
  obtain D where D: "waiters_ok (drop_cancelled_tops ?K (sc_waiters c))"
    "mset (sc_waiters c) = mset (drop_cancelled_tops ?K (sc_waiters c)) + D"
    using drop_cancelled_tops_spec clock_invD(1) [OF inv] by blast
  show ?thesis
    by (rule clock_inv_move [OF inv])
      (use False D inv w in \<open>auto simp: wait_until_exit_def Let_def known_def pending_def clock_inv_def\<close>)
qed (simp add: wait_until_exit_def inv)

lemma clock_inv_cancel: "clock_inv c \<Longrightarrow> w_seq w < sc_seq c \<Longrightarrow> clock_inv (cancel_waiter w c)"
  by (auto simp: clock_inv_def cancel_waiter_def known_def pending_def)

lemma api_step_inv: "api_step c c' \<Longrightarrow> clock_inv c \<Longrightarrow> clock_inv c'"
  by (induction rule: api_step.induct)
    (simp_all add: clock_inv_enter clock_inv_call_at clock_inv_exit clock_inv_cancel)


text \<open>The shapes of the clock after a task's step.\<close>

lemma api_step_cases [consumes 1, case_names same push join leave cancel]:
  assumes "api_step c c'"
  obtains "c' = c"
  | w where "c' = c\<lparr>sc_seq := Suc (sc_seq c), sc_waiters := push_waiter w (sc_waiters c)\<rparr>"
      "w_seq w = sc_seq c" "is_float (w_deadline w)" "w_registered_at w = sc_t c"
      "sc_anchor c = None \<or> \<not> fle (w_deadline w) (sc_t c)"
  | w where "c' = c\<lparr>sc_seq := Suc (sc_seq c), sc_instant := push_instant w (sc_instant c)\<rparr>"
      "w_seq w = sc_seq c" "is_float (w_deadline w)" "w_registered_at w = sc_t c"
      "sc_anchor c \<noteq> None" "fle (w_deadline w) (sc_t c)"
  | s where "c' = c\<lparr>sc_cancelled := insert s (sc_cancelled c),
        sc_waiters := drop_cancelled_tops (insert s (sc_cancelled c)) (sc_waiters c)\<rparr>" "s < sc_seq c"
  | s where "c' = c\<lparr>sc_cancelled := insert s (sc_cancelled c)\<rparr>" "s < sc_seq c"
  using assms
proof cases
  case (sleep dl prio)
  then show ?thesis using that(1,2) by (simp add: wait_until_enter_def Let_def split: if_splits)
next
  case (leave w)
  then show ?thesis using that(1,4) by (simp add: wait_until_exit_def Let_def split: if_splits)
next
  case (schedule dl k prio)
  then show ?thesis using that(2,3) by (simp add: call_at_def Let_def split: if_splits)
next
  case (cancel w)
  then show ?thesis using that(5) by (simp add: cancel_waiter_def)
qed

text \<open>What no task can change, and what it can only add to.\<close>

lemma api_step_frame:
  assumes "api_step c c'"
  shows "sc_t c' = sc_t c" "sc_woken c' = sc_woken c" "sc_anchor c' = sc_anchor c"
    "sc_instant_end c' = sc_instant_end c" "sc_instant_seq c' = sc_instant_seq c"
    "sc_deferred c' = sc_deferred c" "sc_advancing c' = sc_advancing c"
    "sc_settle_rounds c' = sc_settle_rounds c" "sc_seq c \<le> sc_seq c'" "sc_cancelled c \<subseteq> sc_cancelled c'"
  using assms by (cases rule: api_step_cases; auto)+

text \<open>No task can make another's live entry disappear.\<close>

lemma api_step_pending:
  assumes step: "api_step c c'" and inv: "clock_inv c"
    and w: "w \<in> set (pending c)" "\<not> is_cancelled c' w"
  shows "w \<in> set (pending c')"
  using step
proof (cases rule: api_step_cases)
  case (leave s)
  let ?K = "insert s (sc_cancelled c)"
  obtain D where "mset (sc_waiters c) = mset (drop_cancelled_tops ?K (sc_waiters c)) + D"
    "\<forall>w \<in># D. w_seq w \<in> ?K"
    using drop_cancelled_tops_spec clock_invD(1) [OF inv] by blast
  then have "w \<in> set (sc_waiters c) \<Longrightarrow> w \<in> set (drop_cancelled_tops ?K (sc_waiters c)) \<or> w_seq w \<in> ?K"
    by (metis set_mset_mset union_iff)
  with w leave show ?thesis by (auto simp: pending_def is_cancelled_def)
qed (use w in \<open>auto simp: pending_def\<close>)

text \<open>What a task adds is registered at the present \<open>now()\<close> and, during an instant, joins it only
  when it is due already.\<close>

lemma api_step_instant:
  assumes "api_step c c'"
  shows "\<forall>e \<in> set (sc_instant c'). e \<in> set (sc_instant c) \<or>
    (e = entry (snd (snd e)) \<and> w_seq (snd (snd e)) = sc_seq c \<and> fle (w_deadline (snd (snd e))) (sc_t c))"
  using assms by (cases rule: api_step_cases) (auto simp: entry_def)

section \<open>What \<open>_heap_due\<close> does\<close>

text \<open>The top is dropped while it is cancelled (\<open>K\<close>) or a re-sleep (\<open>D\<close>).\<close>

lemma heap_due_split_stay:
  assumes "waiters_ok (sc_waiters c)"
  shows "\<exists>W D K. c = c\<lparr>sc_waiters := W, sc_deferred := sc_deferred c @ D\<rparr> \<and> waiters_ok W \<and>
    mset (sc_waiters c) = mset W + mset D + K \<and>
    (\<forall>w \<in> set D. \<not> is_cancelled c w \<and> resleep_at T rtol atol w) \<and>
    (\<forall>w \<in># K. is_cancelled c w)"
  using assms by (intro exI [of _ "sc_waiters c"] exI [of _ "[]"] exI [of _ "{#}"]) simp

lemma heap_due_split:
  assumes "heap_due T rtol atol c = (r, c')" "waiters_ok (sc_waiters c)"
  shows "\<exists>W D K. c' = c\<lparr>sc_waiters := W, sc_deferred := sc_deferred c @ D\<rparr> \<and> waiters_ok W \<and>
    mset (sc_waiters c) = mset W + mset D + K \<and>
    (\<forall>w \<in> set D. \<not> is_cancelled c w \<and> resleep_at T rtol atol w) \<and>
    (\<forall>w \<in># K. is_cancelled c w)"
  using assms
proof (induction rule: heap_due_induct)
  case (drop c w ws r c')
  have "waiters_ok (sc_waiters (drop_top w c))"
    using drop.prems drop.hyps(1) by (simp add: pop_waiter_ok)
  from drop.IH [OF this] obtain W D K where
    WDK: "c' = (drop_top w c)\<lparr>sc_waiters := W, sc_deferred := sc_deferred (drop_top w c) @ D\<rparr>"
      "waiters_ok W" "mset (sc_waiters (drop_top w c)) = mset W + mset D + K"
      "\<forall>w \<in> set D. \<not> is_cancelled c w \<and> resleep_at T rtol atol w" "\<forall>w \<in># K. is_cancelled c w"
    by (auto simp: is_cancelled_def)
  have m: "mset (sc_waiters c) = add_mset w (mset (sc_waiters (drop_top w c)))"
    using drop.hyps(1) by (simp add: pop_rest_mset)
  show ?case
  proof (cases "is_cancelled c w")
    case True
    with WDK m show ?thesis
      by (intro exI [of _ W] exI [of _ D] exI [of _ "add_mset w K"]) (simp add: drop_top_def)
  next
    case False
    with WDK m drop.hyps(2) show ?thesis
      by (intro exI [of _ W] exI [of _ "w # D"] exI [of _ K]) (simp add: drop_top_def Let_def)
  qed
qed (erule heap_due_split_stay)+

lemma heap_due_Some:
  assumes "heap_due T rtol atol c = (Some w, c')"
  shows "\<exists>ws. sc_waiters c' = w # ws \<and> \<not> is_cancelled c w \<and> \<not> resleep_at T rtol atol w \<and>
    (fle (w_deadline w) T \<or> close_to T rtol atol w)"
  using assms
  by (induction c "Some w" c' rule: heap_due_induct) (auto simp: is_cancelled_def)

text \<open>When nothing is due, nothing left in the heap has reached its deadline.\<close>

lemma heap_due_None:
  assumes "heap_due T rtol atol c = (None, c')" "waiters_ok (sc_waiters c)" "T \<noteq> NaN"
    and "w \<in> set (sc_waiters c')"
  shows "\<not> fle (w_deadline w) T"
  using assms
proof (induction c "None :: waiter option" c' rule: heap_due_induct)
  case (early c v vs)
  have "wkey v \<le> wkey w" using waiters_least early.hyps(1) early.prems by metis
  then have "w_deadline v \<le> w_deadline w" by (rule wkey_le_deadline)
  then show ?case using early.hyps(3) early.prems(2) by (auto simp: fle_def_order)
next
  case (drop c v vs c')
  then show ?case by (simp add: pop_waiter_ok)
qed simp_all

end
