(* ===== verification/SimClockPop.thy ===== *)
theory SimClockPop imports SimClockInv begin

text \<open>
  \<open>_pop_due\<close> part by part: what leaves the heap for the instant, what is set aside, and that the
  loop always returns.  \<open>pop_due_wake\<close> and \<open>pop_due_peek\<close> are the summaries the theorems on the advance use.
\<close>

section \<open>Filling the instant\<close>

lemma fill_instant_induct [consumes 1, case_names none far take put]:
  assumes "fill_instant T rtol atol a later c = (later', c')"
    and "\<And>later c c1. heap_due T rtol atol c = (None, c1) \<Longrightarrow> P later c later c1"
    and "\<And>later c c1 w. heap_due T rtol atol c = (Some w, c1) \<Longrightarrow>
      \<not> isclose rtol atol (w_deadline w) a \<Longrightarrow> P later c later c1"
    and "\<And>later c c1 w later' c'. heap_due T rtol atol c = (Some w, c1) \<Longrightarrow>
      isclose rtol atol (w_deadline w) a \<Longrightarrow> w_seq w < sc_instant_seq c1 \<Longrightarrow>
      P later (c1\<lparr>sc_waiters := pop_rest waiter_lt (sc_waiters c1),
                  sc_instant := push_instant w (sc_instant c1),
                  sc_instant_end := pymax (sc_instant_end c1) (w_deadline w)\<rparr>) later' c' \<Longrightarrow>
      P later c later' c'"
    and "\<And>later c c1 w later' c'. heap_due T rtol atol c = (Some w, c1) \<Longrightarrow>
      isclose rtol atol (w_deadline w) a \<Longrightarrow> \<not> w_seq w < sc_instant_seq c1 \<Longrightarrow>
      P (later @ [w]) (c1\<lparr>sc_waiters := pop_rest waiter_lt (sc_waiters c1)\<rparr>) later' c' \<Longrightarrow>
      P later c later' c'"
  shows "P later c later' c'"
  using assms(1)
proof (induction "length (sc_waiters c)" arbitrary: later c rule: less_induct)
  case less
  obtain r c1 where hd: "heap_due T rtol atol c = (r, c1)" by (cases "heap_due T rtol atol c")
  show ?case
  proof (cases r)
    case None
    with hd less.prems have "later' = later" "c' = c1" by (simp_all add: fill_instant.simps)
    with assms(2) hd None show ?thesis by simp
  next
    case (Some w)
    note hd = hd [unfolded Some]
    obtain ws where top: "sc_waiters c1 = w # ws" using heap_due_top [OF hd] by blast
    have len: "length (pop_rest waiter_lt (sc_waiters c1)) < length (sc_waiters c)"
      using heap_due_length [OF hd] top by simp
    show ?thesis
    proof (cases "isclose rtol atol (w_deadline w) a")
      case False
      with hd less.prems have "later' = later" "c' = c1" by (simp_all add: fill_instant.simps)
      with assms(3) hd False show ?thesis by simp
    next
      case close: True
      show ?thesis
      proof (cases "w_seq w < sc_instant_seq c1")
        case True
        show ?thesis
          by (rule assms(4) [OF hd close True], rule less.hyps)
            (use len less.prems hd close True in \<open>simp_all add: fill_instant.simps [of _ _ _ _ _ c] Let_def\<close>)
      next
        case False
        show ?thesis
          by (rule assms(5) [OF hd close False], rule less.hyps)
            (use len less.prems hd close False in \<open>simp_all add: fill_instant.simps [of _ _ _ _ _ c] Let_def\<close>)
      qed
    qed
  qed
qed

definition due_by :: "pyfloat \<Rightarrow> pyfloat \<Rightarrow> pyfloat \<Rightarrow> waiter \<Rightarrow> bool" where
  "due_by T rtol atol w \<longleftrightarrow>
     (fle (w_deadline w) T \<or> close_to T rtol atol w) \<and> \<not> resleep_at T rtol atol w"

text \<open>
  What the loop does to the clock: it leaves \<open>W\<close> in the heap, moves \<open>N\<close> to the instant and \<open>L\<close> to a
  later one, sets \<open>D\<close> aside until the advance ends and drops \<open>K\<close>, which is cancelled.
\<close>

definition filled ::
  "pyfloat \<Rightarrow> pyfloat \<Rightarrow> pyfloat \<Rightarrow> pyfloat \<Rightarrow> sim_clock \<Rightarrow> waiter list \<Rightarrow> instant_entry list \<Rightarrow>
   waiter list \<Rightarrow> waiter list \<Rightarrow> waiter list \<Rightarrow> waiter multiset \<Rightarrow> bool" where
  "filled T rtol atol a c W I N L D K \<longleftrightarrow>
     waiters_ok W \<and> instant_ok I \<and>
     mset (sc_waiters c) = mset W + mset N + mset L + mset D + K \<and>
     mset I = mset (sc_instant c) + mset (map entry N) \<and>
     (\<forall>w \<in> set N. w_seq w < sc_instant_seq c) \<and> (\<forall>w \<in> set L. \<not> w_seq w < sc_instant_seq c) \<and>
     (\<forall>w \<in> set N \<union> set L. \<not> is_cancelled c w \<and> \<not> resleep_at T rtol atol w \<and>
        due_by T rtol atol w \<and> isclose rtol atol (w_deadline w) a) \<and>
     (\<forall>w \<in> set D. \<not> is_cancelled c w \<and> resleep_at T rtol atol w) \<and>
     (\<forall>w \<in># K. is_cancelled c w)"

definition latest :: "pyfloat \<Rightarrow> waiter list \<Rightarrow> pyfloat" where
  "latest e N = foldl (\<lambda>e w. pymax e (w_deadline w)) e N"

lemma latest_simps [simp]: "latest e [] = e" "latest e (w # N) = latest (pymax e (w_deadline w)) N"
  by (simp_all add: latest_def)

lemma fill_instant_split:
  assumes "fill_instant T rtol atol a later c = (later', c')"
    and "waiters_ok (sc_waiters c)" "instant_ok (sc_instant c)"
  shows "\<exists>W I N L D K. later' = later @ L \<and> filled T rtol atol a c W I N L D K \<and>
    c' = c\<lparr>sc_waiters := W, sc_deferred := sc_deferred c @ D, sc_instant := I,
           sc_instant_end := latest (sc_instant_end c) N\<rparr>"
  using assms
proof (induction rule: fill_instant_induct)
  case (none later c c1)
  from heap_due_split [OF none.hyps none.prems(1)] obtain W D K where
    "c1 = c\<lparr>sc_waiters := W, sc_deferred := sc_deferred c @ D\<rparr>" "waiters_ok W"
    "mset (sc_waiters c) = mset W + mset D + K"
    "\<forall>w \<in> set D. \<not> is_cancelled c w \<and> resleep_at T rtol atol w" "\<forall>w \<in># K. is_cancelled c w"
    by blast
  with none.prems(2) show ?case
    by (intro exI [of _ W] exI [of _ "sc_instant c"] exI [of _ "[]"] exI [of _ D] exI [of _ K])
      (simp add: filled_def)
next
  case (far later c c1 w)
  from heap_due_split [OF far.hyps(1) far.prems(1)] obtain W D K where
    "c1 = c\<lparr>sc_waiters := W, sc_deferred := sc_deferred c @ D\<rparr>" "waiters_ok W"
    "mset (sc_waiters c) = mset W + mset D + K"
    "\<forall>w \<in> set D. \<not> is_cancelled c w \<and> resleep_at T rtol atol w" "\<forall>w \<in># K. is_cancelled c w"
    by blast
  with far.prems(2) show ?case
    by (intro exI [of _ W] exI [of _ "sc_instant c"] exI [of _ "[]"] exI [of _ D] exI [of _ K])
      (simp add: filled_def)
next
  case (take later c c1 w later' c')
  from heap_due_split [OF take.hyps(1) take.prems(1)] obtain W D K where
    c1: "c1 = c\<lparr>sc_waiters := W, sc_deferred := sc_deferred c @ D\<rparr>" and W: "waiters_ok W"
    and m: "mset (sc_waiters c) = mset W + mset D + K"
    and D: "\<forall>w \<in> set D. \<not> is_cancelled c w \<and> resleep_at T rtol atol w" and K: "\<forall>w \<in># K. is_cancelled c w"
    by blast
  obtain ws where ws: "W = w # ws" and w: "\<not> is_cancelled c w" "\<not> resleep_at T rtol atol w" "due_by T rtol atol w"
    using heap_due_Some [OF take.hyps(1)] c1 by (auto simp: due_by_def)
  let ?c2 = "c1\<lparr>sc_waiters := pop_rest waiter_lt (sc_waiters c1),
    sc_instant := push_instant w (sc_instant c1), sc_instant_end := pymax (sc_instant_end c1) (w_deadline w)\<rparr>"
  have wv: "wvalid w" using W ws by (simp add: heap_ok_def)
  have ok: "waiters_ok (sc_waiters ?c2)" "instant_ok (sc_instant ?c2)"
    using W ws take.prems(2) wv c1 by (simp_all add: pop_waiter_ok push_instant_ok)
  from take.IH [OF ok] obtain W' I' N L D' K' where
    c': "later' = later @ L" "filled T rtol atol a ?c2 W' I' N L D' K'"
    "c' = ?c2\<lparr>sc_waiters := W', sc_deferred := sc_deferred ?c2 @ D', sc_instant := I',
           sc_instant_end := latest (sc_instant_end ?c2) N\<rparr>" by blast
  have "filled T rtol atol a c W' I' (w # N) L (D @ D') (K + K')"
    using c'(2) m D K w ws take.hyps(2,3) c1 by (auto simp: filled_def pop_rest_mset is_cancelled_def)
  moreover have "c' = c\<lparr>sc_waiters := W', sc_deferred := sc_deferred c @ D @ D', sc_instant := I',
      sc_instant_end := latest (sc_instant_end c) (w # N)\<rparr>"
    using c'(3) c1 by simp
  ultimately show ?case using c'(1) by blast
next
  case (put later c c1 w later' c')
  from heap_due_split [OF put.hyps(1) put.prems(1)] obtain W D K where
    c1: "c1 = c\<lparr>sc_waiters := W, sc_deferred := sc_deferred c @ D\<rparr>" and W: "waiters_ok W"
    and m: "mset (sc_waiters c) = mset W + mset D + K"
    and D: "\<forall>w \<in> set D. \<not> is_cancelled c w \<and> resleep_at T rtol atol w" and K: "\<forall>w \<in># K. is_cancelled c w"
    by blast
  obtain ws where ws: "W = w # ws" and w: "\<not> is_cancelled c w" "\<not> resleep_at T rtol atol w" "due_by T rtol atol w"
    using heap_due_Some [OF put.hyps(1)] c1 by (auto simp: due_by_def)
  let ?c2 = "c1\<lparr>sc_waiters := pop_rest waiter_lt (sc_waiters c1)\<rparr>"
  have ok: "waiters_ok (sc_waiters ?c2)" "instant_ok (sc_instant ?c2)"
    using W ws put.prems(2) c1 by (simp_all add: pop_waiter_ok)
  from put.IH [OF ok] obtain W' I' N L D' K' where
    c': "later' = (later @ [w]) @ L" "filled T rtol atol a ?c2 W' I' N L D' K'"
    "c' = ?c2\<lparr>sc_waiters := W', sc_deferred := sc_deferred ?c2 @ D', sc_instant := I',
           sc_instant_end := latest (sc_instant_end ?c2) N\<rparr>" by blast
  have "filled T rtol atol a c W' I' N (w # L) (D @ D') (K + K')"
    using c'(2) m D K w ws put.hyps(2,3) c1 by (auto simp: filled_def pop_rest_mset is_cancelled_def)
  moreover have "c' = c\<lparr>sc_waiters := W', sc_deferred := sc_deferred c @ D @ D', sc_instant := I',
      sc_instant_end := latest (sc_instant_end c) N\<rparr>"
    using c'(3) c1 by simp
  ultimately show ?case using c'(1) by simp blast
qed


text \<open>The loop stops when nothing has reached its deadline or the top is not close to the anchor.\<close>

lemma fill_instant_end:
  assumes "fill_instant T rtol atol a later c = (later', c')"
    and "waiters_ok (sc_waiters c)" "instant_ok (sc_instant c)" "T \<noteq> NaN"
  shows "(\<forall>w \<in> set (sc_waiters c'). \<not> fle (w_deadline w) T) \<or>
    (\<exists>w ws. sc_waiters c' = w # ws \<and> \<not> isclose rtol atol (w_deadline w) a \<and> \<not> is_cancelled c w)"
  using assms
proof (induction rule: fill_instant_induct)
  case (none later c c1)
  then show ?case using heap_due_None by blast
next
  case (far later c c1 w)
  then show ?case using heap_due_Some by blast
next
  case (take later c c1 w later' c')
  obtain W D K where c1: "c1 = c\<lparr>sc_waiters := W, sc_deferred := sc_deferred c @ D\<rparr>" "waiters_ok W"
    using heap_due_split [OF take.hyps(1) take.prems(1)] by blast
  obtain ws where ws: "W = w # ws" using heap_due_Some [OF take.hyps(1)] c1 by auto
  have "wvalid w" using c1 ws by (simp add: heap_ok_def)
  then show ?case
    using take.IH take.prems(2,3) c1 ws by (simp add: pop_waiter_ok push_instant_ok is_cancelled_def)
next
  case (put later c c1 w later' c')
  obtain W D K where c1: "c1 = c\<lparr>sc_waiters := W, sc_deferred := sc_deferred c @ D\<rparr>" "waiters_ok W"
    using heap_due_split [OF put.hyps(1) put.prems(1)] by blast
  obtain ws where ws: "W = w # ws" using heap_due_Some [OF put.hyps(1)] c1 by auto
  then show ?case
    using put.IH put.prems(2,3) c1 by (simp add: pop_waiter_ok is_cancelled_def)
qed

section \<open>Gathering an instant\<close>

lemma push_waiters_ok: "waiters_ok ws \<Longrightarrow> \<forall>w \<in> set L. wvalid w \<Longrightarrow> waiters_ok (fold push_waiter L ws)"
  by (rule fold_push_inv) (simp_all add: push_waiter_ok)

lemma mset_push_waiters [simp]: "mset (fold push_waiter L ws) = mset L + mset ws"
  by (rule mset_fold_push) simp

text \<open>
  The outcome of lines 265 to 278: \<open>N\<close> joined the instant, \<open>D\<close> was set aside, \<open>K\<close> and \<open>KI\<close> were
  cancelled entries dropped from the heap and from the top of the instant.
\<close>

definition gathered ::
  "pyfloat \<Rightarrow> pyfloat \<Rightarrow> pyfloat \<Rightarrow> pyfloat \<Rightarrow> sim_clock \<Rightarrow> waiter list \<Rightarrow> instant_entry list \<Rightarrow>
   waiter list \<Rightarrow> waiter list \<Rightarrow> waiter multiset \<Rightarrow> instant_entry multiset \<Rightarrow> bool" where
  "gathered T rtol atol a c W I N D K KI \<longleftrightarrow>
     waiters_ok W \<and> instant_ok I \<and>
     mset (sc_waiters c) = mset W + mset N + mset D + K \<and>
     mset (sc_instant c) + mset (map entry N) = mset I + KI \<and>
     (\<forall>w \<in> set N. w_seq w < sc_instant_seq c \<and> \<not> is_cancelled c w \<and> due_by T rtol atol w \<and>
        isclose rtol atol (w_deadline w) a) \<and>
     (\<forall>w \<in> set D. \<not> is_cancelled c w \<and> resleep_at T rtol atol w) \<and>
     (\<forall>w \<in># K. is_cancelled c w) \<and> (\<forall>e \<in># KI. is_cancelled c (snd (snd e))) \<and>
     (\<forall>e es. I = e # es \<longrightarrow> \<not> is_cancelled c (snd (snd e)))"

lemma gather_instant_split:
  assumes "waiters_ok (sc_waiters c)" "instant_ok (sc_instant c)"
  shows "\<exists>W I N D K KI. gathered T rtol atol a c W I N D K KI \<and>
    gather_instant T rtol atol a c =
      c\<lparr>sc_waiters := W, sc_deferred := sc_deferred c @ D, sc_instant := I,
        sc_instant_end := latest (sc_instant_end c) N\<rparr>"
proof -
  obtain later c' where run: "fill_instant T rtol atol a [] c = (later, c')"
    by (cases "fill_instant T rtol atol a [] c")
  from fill_instant_split [OF run assms] obtain W I N D K where
    F: "filled T rtol atol a c W I N later D K"
    and c': "c' = c\<lparr>sc_waiters := W, sc_deferred := sc_deferred c @ D, sc_instant := I,
           sc_instant_end := latest (sc_instant_end c) N\<rparr>" by auto
  let ?W = "fold push_waiter later W"
  let ?I = "drop_cancelled_instant (sc_cancelled c) I"
  have "wvalid w" if "w \<in> set later" for w
  proof -
    have "w \<in># mset (sc_waiters c)" using that F by (simp add: filled_def)
    then show ?thesis using assms(1) by (simp add: heap_ok_def)
  qed
  then have W: "waiters_ok ?W" using F by (simp add: push_waiters_ok filled_def)
  from F have "instant_ok I" by (simp add: filled_def)
  from drop_cancelled_instant_spec [OF this, of "sc_cancelled c"] obtain KI where
    KI: "instant_ok ?I" "mset I = mset ?I + KI" "\<forall>e \<in># KI. w_seq (snd (snd e)) \<in> sc_cancelled c"
      "\<forall>e es. ?I = e # es \<longrightarrow> w_seq (snd (snd e)) \<notin> sc_cancelled c" by blast
  have "gathered T rtol atol a c ?W ?I N D K KI"
    using F W KI by (simp add: gathered_def filled_def is_cancelled_def ac_simps)
  moreover have "gather_instant T rtol atol a c = c\<lparr>sc_waiters := ?W, sc_deferred := sc_deferred c @ D,
      sc_instant := ?I, sc_instant_end := latest (sc_instant_end c) N\<rparr>"
    by (simp add: gather_instant_def run c')
  ultimately show ?thesis by blast
qed

lemma latest_ge: "is_float e \<Longrightarrow> \<forall>w \<in> set N. is_float (w_deadline w) \<Longrightarrow>
    is_float (latest e N) \<and> e \<le> latest e N \<and> (\<forall>w \<in> set N. w_deadline w \<le> latest e N)"
proof (induction N arbitrary: e)
  case (Cons w N)
  then have "is_float (pymax e (w_deadline w))" by simp
  with Cons.IH [OF this] Cons.prems have
    IH: "is_float (latest (pymax e (w_deadline w)) N)" "pymax e (w_deadline w) \<le> latest (pymax e (w_deadline w)) N"
      "\<forall>v \<in> set N. w_deadline v \<le> latest (pymax e (w_deadline w)) N" by auto
  moreover have "e \<le> pymax e (w_deadline w)" "w_deadline w \<le> pymax e (w_deadline w)"
    using Cons.prems by (simp_all add: pymax_max)
  ultimately show ?case by (auto intro: order_trans)
qed simp


section \<open>The invariant of a running advance\<close>

text \<open>
  During an advance to \<open>T\<close>: time has not passed \<open>T\<close>, every entry of the instant is due now or is
  due by \<open>T\<close> and not after the instant's end, and what was set aside lies beyond \<open>T\<close>.
\<close>

definition adv_inv :: "pyfloat \<Rightarrow> pyfloat \<Rightarrow> pyfloat \<Rightarrow> sim_clock \<Rightarrow> bool" where
  "adv_inv T rtol atol c \<longleftrightarrow>
     clock_inv c \<and> is_float T \<and> sc_t c \<le> T \<and>
     (\<forall>e \<in> set (sc_instant c).
        w_deadline (snd (snd e)) \<le> sc_t c \<or>
        (w_deadline (snd (snd e)) \<le> sc_instant_end c \<and> due_by T rtol atol (snd (snd e)))) \<and>
     (\<forall>w \<in> set (sc_deferred c). T < w_deadline w)"

text \<open>What \<open>_pop_due\<close> leaves alone: it drops cancelled entries and loses no live one.\<close>

definition pop_frame :: "sim_clock \<Rightarrow> sim_clock \<Rightarrow> bool" where
  "pop_frame c c' \<longleftrightarrow>
     sc_woken c' = sc_woken c \<and> sc_cancelled c' = sc_cancelled c \<and>
     sc_settle_rounds c' = sc_settle_rounds c \<and> sc_advancing c' = sc_advancing c \<and>
     sc_seq c \<le> sc_seq c' \<and> mset (pending c') \<subseteq># mset (pending c) \<and>
     (\<forall>w \<in> set (pending c). \<not> is_cancelled c w \<longrightarrow> w \<in> set (pending c'))"

lemma pop_frame_refl [simp]: "pop_frame c c"
  by (simp add: pop_frame_def)

lemma pop_frame_trans: "pop_frame c c' \<Longrightarrow> pop_frame c' c'' \<Longrightarrow> pop_frame c c''"
  unfolding pop_frame_def by (auto simp: is_cancelled_def intro: subset_mset.order_trans)

text \<open>An entry may be served at \<open>n\<close> when it has reached its deadline, or at the target inside its
  tolerance if it was registered before time reached the target.\<close>

definition served_ok :: "pyfloat \<Rightarrow> pyfloat \<Rightarrow> pyfloat \<Rightarrow> waiter \<Rightarrow> pyfloat \<Rightarrow> bool" where
  "served_ok T rtol atol w n \<longleftrightarrow> w_deadline w \<le> n \<or>
     (n = T \<and> close_to T rtol atol w \<and> \<not> fle T (w_registered_at w))"

lemma open_instant_inv:
  assumes inv: "adv_inv T rtol atol c" and run: "open_instant T rtol atol c = (r, c')"
  shows "adv_inv T rtol atol c' \<and> pop_frame c c' \<and> sc_t c' = sc_t c \<and> sc_anchor c' = r \<and>
    sc_instant c' = sc_instant c \<and>
    (r = None \<longrightarrow> (\<forall>w \<in> set (sc_waiters c'). \<not> fle (w_deadline w) T))"
proof (cases "sc_anchor c")
  case (Some a)
  with run inv show ?thesis by (auto simp: open_instant_def)
next
  case None
  have ci: "clock_inv c" and T: "is_float T" using inv by (simp_all add: adv_inv_def)
  obtain x c1 where hd: "heap_due T rtol atol c = (x, c1)" by (cases "heap_due T rtol atol c")
  from heap_due_split [OF hd clock_invD(1) [OF ci]] obtain W D K where
    c1: "c1 = c\<lparr>sc_waiters := W, sc_deferred := sc_deferred c @ D\<rparr>" and W: "waiters_ok W"
    and m: "mset (sc_waiters c) = mset W + mset D + K"
    and D: "\<forall>w \<in> set D. \<not> is_cancelled c w \<and> resleep_at T rtol atol w"
    and K: "\<forall>w \<in># K. is_cancelled c w" by blast
  have c': "c' = c1 \<and> r = None \<and> x = None \<or>
    (\<exists>w. x = Some w \<and> r = Some (w_deadline w) \<and> c' = c1\<lparr>sc_anchor := r, sc_instant_end := MInf,
       sc_instant_seq := sc_seq c1, sc_seq := Suc (sc_seq c1)\<rparr>)"
    using run None hd by (auto simp: open_instant_def split: option.splits)
  have sub: "mset (pending c') \<subseteq># mset (pending c)" "mset (known c') \<subseteq># mset (known c)"
    using c' c1 m by (auto simp: pending_def known_def)
  have "clock_inv c'"
    by (rule clock_inv_move [OF ci])
      (use sub c' c1 W ci None in \<open>auto simp: clock_inv_def less_Suc_eq\<close>)
  moreover have "\<forall>w \<in> set (sc_deferred c'). T < w_deadline w"
    using inv c' c1 D by (auto simp: adv_inv_def resleep_at_def flt_def_order)
  moreover have "sc_instant c' = sc_instant c" "sc_t c' = sc_t c" "sc_anchor c' = r"
    using c' c1 None by auto
  moreover have "sc_instant c = []" using ci None by (simp add: clock_inv_def)
  moreover have "pop_frame c c'"
  proof -
    have keep: "w \<in> set W \<or> w \<in> set D" if "w \<in> set (sc_waiters c)" "\<not> is_cancelled c w" for w
      using that m K by (metis set_mset_mset union_iff)
    have "w \<in> set (pending c')" if "w \<in> set (pending c)" "\<not> is_cancelled c w" for w
      using that keep [of w] c' c1 by (auto simp: pending_def)
    then show ?thesis using sub c' c1 by (auto simp: pop_frame_def)
  qed
  moreover have "\<forall>w \<in> set (sc_waiters c'). \<not> fle (w_deadline w) T" if "r = None"
  proof -
    from that c' have "x = None" "c' = c1" by auto
    with hd heap_due_None [OF _ clock_invD(1) [OF ci]] T show ?thesis by fastforce
  qed
  ultimately show ?thesis using inv by (simp add: adv_inv_def)
qed

lemma gather_instant_inv:
  assumes inv: "adv_inv T rtol atol c" and a: "sc_anchor c = Some a"
  defines "c' \<equiv> gather_instant T rtol atol a c"
  shows "adv_inv T rtol atol c' \<and> pop_frame c c' \<and> sc_t c' = sc_t c \<and> sc_anchor c' = Some a \<and>
    (\<forall>e es. sc_instant c' = e # es \<longrightarrow> \<not> is_cancelled c' (snd (snd e)))"
proof -
  have ci: "clock_inv c" using inv by (simp add: adv_inv_def)
  from gather_instant_split [OF clock_invD(1,2) [OF ci]] obtain W I N D K KI where
    G: "gathered T rtol atol a c W I N D K KI"
    and c': "c' = c\<lparr>sc_waiters := W, sc_deferred := sc_deferred c @ D, sc_instant := I,
        sc_instant_end := latest (sc_instant_end c) N\<rparr>" unfolding c'_def by blast
  have m: "mset (sc_waiters c) = mset W + mset N + mset D + K"
    and mI: "mset (sc_instant c) + mset (map entry N) = mset I + KI"
    using G by (simp_all add: gathered_def)
  have N: "set N \<subseteq> set (known c)"
  proof -
    have "set N \<subseteq> set (sc_waiters c)" using m by (metis Un_iff set_mset_mset set_mset_union subsetI)
    then show ?thesis by (auto simp: set_known)
  qed
  have fl: "is_float (sc_instant_end c)" "\<forall>w \<in> set N. is_float (w_deadline w)"
    using clock_invD(8) [OF ci] clock_invD(6) [OF ci] N by auto
  note late = latest_ge [OF fl]
  have I: "set I \<subseteq> set (sc_instant c) \<union> entry ` set N"
  proof
    fix e assume "e \<in> set I"
    then have "e \<in># mset I + KI" by simp
    then show "e \<in> set (sc_instant c) \<union> entry ` set N" using mI by (metis mset_append set_append set_map set_mset_mset)
  qed
  have mI': "mset (map (snd \<circ> snd) (sc_instant c)) + mset N =
      mset (map (snd \<circ> snd) I) + image_mset (snd \<circ> snd) KI"
  proof -
    have "image_mset (snd \<circ> snd) (mset (sc_instant c) + mset (map entry N)) =
        image_mset (snd \<circ> snd) (mset I + KI)" by (simp only: mI)
    moreover have "(snd \<circ> snd) \<circ> entry = id" by (simp add: entry_def fun_eq_iff)
    ultimately show ?thesis by (simp add: multiset.map_comp)
  qed
  then have pend: "mset (pending c) = mset (pending c') + K + image_mset (snd \<circ> snd) KI"
    using m c' by (simp add: pending_def ac_simps)
  then have "mset (known c) = mset (known c') + K + image_mset (snd \<circ> snd) KI"
    using c' by (simp add: known_def)
  then have sub: "mset (known c') \<subseteq># mset (known c)" by simp
  have "clock_inv c'"
    by (rule clock_inv_move [OF ci])
      (use sub c' G I late a ci in \<open>auto simp: gathered_def clock_inv_def entry_def\<close>)
  moreover have "pop_frame c c'"
  proof -
    have "w \<in> set (pending c')" if "w \<in> set (pending c)" "\<not> is_cancelled c w" for w
    proof -
      have "w \<in># mset (pending c') + K + image_mset (snd \<circ> snd) KI" using that pend by (metis set_mset_mset)
      then show ?thesis using that G by (auto simp: gathered_def)
    qed
    then show ?thesis using c' pend by (simp add: pop_frame_def)
  qed
  moreover have "\<forall>e \<in> set I. w_deadline (snd (snd e)) \<le> sc_t c \<or>
      (w_deadline (snd (snd e)) \<le> latest (sc_instant_end c) N \<and> due_by T rtol atol (snd (snd e)))"
  proof
    fix e assume "e \<in> set I"
    with I consider "e \<in> set (sc_instant c)" | w where "w \<in> set N" "e = entry w" by blast
    then show "w_deadline (snd (snd e)) \<le> sc_t c \<or>
      (w_deadline (snd (snd e)) \<le> latest (sc_instant_end c) N \<and> due_by T rtol atol (snd (snd e)))"
    proof cases
      case 1
      then show ?thesis using inv late by (auto simp: adv_inv_def intro: order_trans)
    next
      case 2
      then show ?thesis using G late by (auto simp: gathered_def entry_def)
    qed
  qed
  moreover have "\<forall>w \<in> set (sc_deferred c'). T < w_deadline w"
    using inv c' G by (auto simp: adv_inv_def gathered_def resleep_at_def flt_def_order)
  ultimately show ?thesis using inv c' a G
    by (simp add: adv_inv_def gathered_def is_cancelled_def)
qed


section \<open>\<open>_pop_due\<close>\<close>

definition set_now :: "pyfloat \<Rightarrow> sim_clock \<Rightarrow> sim_clock" where
  "set_now T c = c\<lparr>sc_t := pymax (sc_t c) (pymin T (sc_instant_end c))\<rparr>"

definition serve_top :: "bool \<Rightarrow> sim_clock \<Rightarrow> sim_clock" where
  "serve_top peek c =
     (if peek then c else c\<lparr>sc_instant := pop_rest instant_lt (sc_instant c)\<rparr>)"

text \<open>One turn of the outer loop.\<close>

lemma pop_due_none:
  "open_instant T rtol atol c = (None, c1) \<Longrightarrow> pop_due T rtol atol peek c = Some (None, c1)"
  by (subst pop_due.simps) simp

lemma pop_due_serve:
  assumes "open_instant T rtol atol c = (Some a, c1)" "sc_instant (gather_instant T rtol atol a c1) = e # es"
  shows "pop_due T rtol atol peek c =
    Some (Some (snd (snd e)), serve_top peek (set_now T (gather_instant T rtol atol a c1)))"
  using assms by (subst pop_due.simps) (simp add: Let_def set_now_def serve_top_def)

lemma pop_due_again:
  assumes "open_instant T rtol atol c = (Some a, c1)" "sc_instant (gather_instant T rtol atol a c1) = []"
  shows "pop_due T rtol atol peek c =
    pop_due T rtol atol peek ((gather_instant T rtol atol a c1)\<lparr>sc_anchor := None\<rparr>)"
  using assms by (subst pop_due.simps) (simp add: Let_def)

text \<open>A freshly opened instant holds its anchor's entry, so the second turn serves.\<close>

lemma open_gather_nonempty:
  assumes ci: "clock_inv c" and none: "sc_anchor c = None"
    and run: "open_instant T rtol atol c = (Some a, c1)"
  shows "sc_instant (gather_instant T rtol atol a c1) \<noteq> []"
proof -
  from run none obtain w c0 where hd: "heap_due T rtol atol c = (Some w, c0)"
    and a: "a = w_deadline w" and c1: "c1 = c0\<lparr>sc_anchor := Some a, sc_instant_end := MInf,
                   sc_instant_seq := sc_seq c0, sc_seq := Suc (sc_seq c0)\<rparr>"
    by (auto simp: open_instant_def split: option.splits prod.splits)
  obtain W D K where c0: "c0 = c\<lparr>sc_waiters := W, sc_deferred := sc_deferred c @ D\<rparr>" "waiters_ok W"
    and m: "mset (sc_waiters c) = mset W + mset D + K"
    using heap_due_split [OF hd clock_invD(1) [OF ci]] by blast
  obtain ws where ws: "W = w # ws" and w: "\<not> is_cancelled c w" "\<not> resleep_at T rtol atol w"
    "fle (w_deadline w) T \<or> close_to T rtol atol w"
    using heap_due_Some [OF hd] c0 by auto
  have "w \<in># mset (sc_waiters c)" unfolding m ws by simp
  then have known: "w \<in> set (known c)" by (simp add: set_known)
  have seq: "w_seq w < sc_seq c" using clock_invD(5) [OF ci known] .
  have close: "isclose rtol atol (w_deadline w) a"
    using clock_invD(6) [OF ci known] unfolding a by (intro isclose_refl) auto
  have hd1: "heap_due T rtol atol c1 = (Some w, c1)"
    using w ws c0 c1 by (subst heap_due_keep [of _ w ws]) (auto simp: is_cancelled_def)
  let ?c2 = "c1\<lparr>sc_waiters := pop_rest waiter_lt (sc_waiters c1), sc_instant := push_instant w (sc_instant c1),
                    sc_instant_end := pymax (sc_instant_end c1) (w_deadline w)\<rparr>"
  obtain later c' where fill: "fill_instant T rtol atol a [] c1 = (later, c')"
    by (cases "fill_instant T rtol atol a [] c1")
  with hd1 close seq c0 c1 have fill2: "fill_instant T rtol atol a [] ?c2 = (later, c')"
    by (subst (asm) fill_instant.simps) (simp add: Let_def)
  have wv: "wvalid w" using c0 ws by (simp add: heap_ok_def)
  have ok: "waiters_ok (sc_waiters ?c2)" "instant_ok (sc_instant ?c2)"
    using c0 c1 ws wv clock_invD(2) [OF ci] by (simp_all add: pop_waiter_ok push_instant_ok)
  from fill_instant_split [OF fill2 ok] obtain W' I N D' K' where
    "filled T rtol atol a ?c2 W' I N later D' K'"
    and c': "sc_instant c' = I" "sc_cancelled c' = sc_cancelled c"
    using c0 c1 by auto
  then have I: "mset I = mset (push_instant w (sc_instant c1)) + mset (map entry N)" "instant_ok I"
    by (simp_all add: filled_def)
  then have "entry w \<in> set I" by (metis mset_push_instant set_mset_mset union_iff set_mset_add_mset_insert insertI1)
  moreover obtain KI where "mset I = mset (drop_cancelled_instant (sc_cancelled c) I) + KI"
    "\<forall>e \<in># KI. w_seq (snd (snd e)) \<in> sc_cancelled c"
    using drop_cancelled_instant_spec [OF I(2)] by blast
  moreover have "w_seq w \<notin> sc_cancelled c" using w(1) by (simp add: is_cancelled_def)
  ultimately have "entry w \<in> set (drop_cancelled_instant (sc_cancelled c) I)"
    by (metis entry_def set_mset_mset snd_conv union_iff)
  then show ?thesis using fill c' by (auto simp: gather_instant_def)
qed

lemma reset_anchor_inv:
  "adv_inv T rtol atol c \<Longrightarrow> sc_instant c = [] \<Longrightarrow> adv_inv T rtol atol (c\<lparr>sc_anchor := None\<rparr>)"
  by (auto simp: adv_inv_def clock_inv_def known_def pending_def)

lemma reset_anchor_frame: "pop_frame c (c\<lparr>sc_anchor := None\<rparr>)"
  by (simp add: pop_frame_def pending_def)

text \<open>
  A run of \<open>_pop_due\<close> under the invariant: it either ends with nothing due, or it serves the top
  of a gathered instant; in both cases it returns.
\<close>

fun pop_outcome ::
  "pyfloat \<Rightarrow> pyfloat \<Rightarrow> pyfloat \<Rightarrow> bool \<Rightarrow> sim_clock \<Rightarrow> waiter option \<Rightarrow> sim_clock \<Rightarrow> bool" where
  "pop_outcome T rtol atol peek c None c' \<longleftrightarrow>
     adv_inv T rtol atol c' \<and> pop_frame c c' \<and> sc_t c' = sc_t c \<and> sc_anchor c' = None \<and>
     (\<forall>w \<in> set (sc_waiters c'). \<not> fle (w_deadline w) T)"
| "pop_outcome T rtol atol peek c (Some w) c' \<longleftrightarrow>
     (\<exists>c2 es a. adv_inv T rtol atol c2 \<and> pop_frame c c2 \<and> sc_t c2 = sc_t c \<and>
        sc_anchor c2 = Some a \<and> sc_instant c2 = entry w # es \<and> \<not> is_cancelled c2 w \<and>
        c' = serve_top peek (set_now T c2))"

lemma pop_due_turn:
  assumes inv: "adv_inv T rtol atol c"
  shows "(\<exists>r c'. pop_due T rtol atol peek c = Some (r, c') \<and> pop_outcome T rtol atol peek c r c') \<or>
    (\<exists>a c1. open_instant T rtol atol c = (Some a, c1) \<and> sc_instant (gather_instant T rtol atol a c1) = [])"
proof -
  obtain r c1 where op: "open_instant T rtol atol c = (r, c1)" by (cases "open_instant T rtol atol c")
  note o = open_instant_inv [OF inv op]
  show ?thesis
  proof (cases r)
    case None
    then have "pop_outcome T rtol atol peek c None c1" using o by simp
    with pop_due_none op None show ?thesis by blast
  next
    case (Some a)
    let ?c2 = "gather_instant T rtol atol a c1"
    have a: "sc_anchor c1 = Some a" and inv1: "adv_inv T rtol atol c1" using o Some by simp_all
    note g = gather_instant_inv [OF inv1 a]
    show ?thesis
    proof (cases "sc_instant ?c2")
      case Nil
      with op Some show ?thesis by blast
    next
      case (Cons e es)
      have "clock_inv ?c2" using g by (simp add: adv_inv_def)
      then have e: "e = entry (snd (snd e))" using Cons by (simp add: clock_inv_def)
      have "pop_frame c ?c2" using o g pop_frame_trans by blast
      then have "pop_outcome T rtol atol peek c (Some (snd (snd e))) (serve_top peek (set_now T ?c2))"
        using g o Cons e by (auto intro!: exI [of _ ?c2])
      moreover have "pop_due T rtol atol peek c = Some (Some (snd (snd e)), serve_top peek (set_now T ?c2))"
        using pop_due_serve op Some Cons by simp
      ultimately show ?thesis by blast
    qed
  qed
qed

lemma pop_outcome_frame:
  assumes "pop_outcome T rtol atol peek d r c'" "pop_frame c d" "sc_t d = sc_t c"
  shows "pop_outcome T rtol atol peek c r c'"
  using assms by (cases r) (auto dest: pop_frame_trans)

lemma pop_due_run:
  assumes inv: "adv_inv T rtol atol c"
  shows "\<exists>r c'. pop_due T rtol atol peek c = Some (r, c') \<and> pop_outcome T rtol atol peek c r c'"
  using pop_due_turn [OF inv, of peek]
proof
  assume "\<exists>a c1. open_instant T rtol atol c = (Some a, c1) \<and> sc_instant (gather_instant T rtol atol a c1) = []"
  then obtain a c1 where op: "open_instant T rtol atol c = (Some a, c1)"
    and nil: "sc_instant (gather_instant T rtol atol a c1) = []" by blast
  note o = open_instant_inv [OF inv op]
  let ?c2 = "gather_instant T rtol atol a c1"
  let ?d = "?c2\<lparr>sc_anchor := None\<rparr>"
  have g: "adv_inv T rtol atol ?c2" "pop_frame c1 ?c2" "sc_t ?c2 = sc_t c1"
    using gather_instant_inv [of T rtol atol c1 a] o by simp_all
  have d: "adv_inv T rtol atol ?d" using g(1) nil by (rule reset_anchor_inv)
  then have "clock_inv ?d" by (simp add: adv_inv_def)
  then have "\<not> (\<exists>b c3. open_instant T rtol atol ?d = (Some b, c3) \<and>
      sc_instant (gather_instant T rtol atol b c3) = [])"
    using open_gather_nonempty by fastforce
  with pop_due_turn [OF d, of peek] obtain r c' where
    "pop_due T rtol atol peek ?d = Some (r, c')" "pop_outcome T rtol atol peek ?d r c'" by blast
  moreover have "pop_frame c ?d" using o g(2) reset_anchor_frame pop_frame_trans by blast
  moreover have "sc_t ?d = sc_t c" using o g(3) by simp
  ultimately show ?thesis using pop_due_again [OF op nil] pop_outcome_frame by metis
qed simp

lemma pop_due_outcome:
  assumes "adv_inv T rtol atol c" "pop_due T rtol atol peek c = Some (r, c')"
  shows "pop_outcome T rtol atol peek c r c'"
  using pop_due_run [OF assms(1), of peek] assms(2) by auto

text \<open>Serving: time moves to the instant, not back and not beyond \<open>T\<close>, and the entry is due there.\<close>

lemma set_now_inv:
  assumes inv: "adv_inv T rtol atol c" and top: "sc_instant c = entry w # es"
  defines "c' \<equiv> set_now T c"
  shows "adv_inv T rtol atol c' \<and> sc_t c \<le> sc_t c' \<and> sc_t c' \<le> T \<and> served_ok T rtol atol w (sc_t c')"
proof -
  have ci: "clock_inv c" and T: "is_float T" "sc_t c \<le> T" using inv by (simp_all add: adv_inv_def)
  have fl: "is_float (sc_t c)" "is_float (sc_instant_end c)" using clock_invD(7,8) [OF ci] .
  have "is_float (pymin T (sc_instant_end c))" using fl T by simp
  then have "sc_t c' = max (sc_t c) (pymin T (sc_instant_end c))"
    using fl by (simp add: c'_def set_now_def pymax_max)
  then have t': "sc_t c' = max (sc_t c) (min T (sc_instant_end c))"
    using fl T by (simp add: pymin_min)
  have le: "sc_t c \<le> sc_t c'" "sc_t c' \<le> T" using T by (simp_all add: t')
  have "is_float (sc_t c')" using fl T by (simp add: c'_def set_now_def)
  then have "clock_inv c'" using ci by (simp add: c'_def set_now_def clock_inv_def known_def pending_def)
  moreover have "\<forall>e \<in> set (sc_instant c'). w_deadline (snd (snd e)) \<le> sc_t c' \<or>
      (w_deadline (snd (snd e)) \<le> sc_instant_end c' \<and> due_by T rtol atol (snd (snd e)))"
    using inv le by (auto simp: adv_inv_def c'_def set_now_def intro: order_trans)
  moreover have "served_ok T rtol atol w (sc_t c')"
  proof -
    have "w_deadline w \<le> sc_t c \<or> w_deadline w \<le> sc_instant_end c \<and> due_by T rtol atol w"
      using inv top by (auto simp: adv_inv_def entry_def)
    then show ?thesis
    proof
      assume "w_deadline w \<le> sc_t c"
      with le show ?thesis by (auto simp: served_ok_def)
    next
      assume due: "w_deadline w \<le> sc_instant_end c \<and> due_by T rtol atol w"
      show ?thesis
      proof (cases "sc_instant_end c \<le> T")
        case True
        with due t' show ?thesis by (auto simp: served_ok_def min_def intro: order_trans)
      next
        case False
        then have "T \<le> sc_instant_end c" by simp
        then have "sc_t c' = T" using T t' by (simp add: min_def max_def)
        moreover have "w \<in> set (known c)" using top by (auto simp: set_known entry_def)
        then have "w_deadline w \<noteq> NaN" using clock_invD(6) [OF ci] by auto
        then have "\<not> w_deadline w \<le> T \<Longrightarrow> flt T (w_deadline w)" by (simp add: flt_def_order)
        moreover have "fle (w_deadline w) T \<Longrightarrow> w_deadline w \<le> T" by (simp add: fle_def_order)
        ultimately show ?thesis using due unfolding served_ok_def due_by_def resleep_at_def by blast
      qed
    qed
  qed
  ultimately show ?thesis using inv le by (simp add: adv_inv_def c'_def set_now_def)
qed

text \<open>
  The entry \<open>_pop_due\<close> takes: it leaves the pending ones, it is live, and it is the least of the
  instant by (priority, seq).  The wake is logged at once, so the sum of the pending and the
  served entries does not change.
\<close>

definition in_order :: "waiter \<Rightarrow> waiter \<Rightarrow> bool" where
  "in_order w v \<longleftrightarrow> (w_priority w, w_seq w) < (w_priority v, w_seq v)"

lemma take_top_pending:
  assumes "sc_instant c = e # es"
  shows "mset (pending c) = add_mset (snd (snd e)) (mset (pending (serve_top False c)))"
  using assms
  by (simp add: pending_def serve_top_def pop_rest_mset mset_map [symmetric] del: mset_map)
    (simp add: pop_rest_mset)

lemma take_top_inv:
  assumes inv: "adv_inv T rtol atol c" and top: "sc_instant c = entry w # es" and a: "sc_anchor c \<noteq> None"
  defines "c' \<equiv> log_wake w (serve_top False c)"
  shows "adv_inv T rtol atol c' \<and> (\<forall>e \<in> set (sc_instant c'). in_order w (snd (snd e)))"
proof -
  have ci: "clock_inv c" using inv by (simp add: adv_inv_def)
  have pend: "mset (pending c) = add_mset w (mset (pending c'))"
    using take_top_pending [OF top] by (simp add: c'_def entry_def log_wake_def pending_def)
  then have known: "mset (known c') = mset (known c)"
    by (simp add: known_def c'_def log_wake_def serve_top_def)
  have "clock_inv c'"
    by (rule clock_inv_move [OF ci])
      (use known ci top a in \<open>auto simp: c'_def log_wake_def serve_top_def pop_instant_ok clock_inv_def\<close>)
  moreover have "\<forall>e \<in> set (sc_instant c'). in_order w (snd (snd e))"
  proof
    fix e assume "e \<in> set (sc_instant c')"
    then have e: "e \<in> set es" using top by (simp add: c'_def log_wake_def serve_top_def)
    have eq: "e = entry (snd (snd e))" using clock_invD(3) [OF ci, of e] e top by simp
    have "ikey (entry w) \<le> ikey e"
      using instant_least [of "entry w" es e] clock_invD(2) [OF ci] top e by simp
    moreover have "w_seq w \<noteq> w_seq (snd (snd e))"
    proof -
      have "mset (map w_seq (known c)) = mset (map w_seq (w # map (snd \<circ> snd) es @
          sc_waiters c @ sc_deferred c @ map fst (sc_woken c)))"
        using top by (simp add: known_def pending_def entry_def)
      then have "distinct (map w_seq (w # map (snd \<circ> snd) es))"
        using clock_invD(4) [OF ci] by (metis append_Cons distinct_append map_append mset_eq_imp_distinct_iff)
      then show ?thesis using e by auto
    qed
    moreover have "ikey e = (w_priority (snd (snd e)), w_seq (snd (snd e)), wkey (snd (snd e)))"
      by (subst eq) (simp add: entry_def)
    ultimately show "in_order w (snd (snd e))"
      by (auto simp: in_order_def entry_def less_prod_def less_eq_prod_def)
  qed
  moreover have "sc_t c' = sc_t c" "set (sc_instant c') \<subseteq> set (sc_instant c)"
    "sc_instant_end c' = sc_instant_end c" "sc_deferred c' = sc_deferred c"
    using top by (auto simp: c'_def log_wake_def serve_top_def)
  ultimately show ?thesis using inv by (auto simp: adv_inv_def)
qed

text \<open>The two outcomes of \<open>_pop_due\<close> as the advance sees them.\<close>

definition woke :: "pyfloat \<Rightarrow> pyfloat \<Rightarrow> pyfloat \<Rightarrow> sim_clock \<Rightarrow> waiter \<Rightarrow> sim_clock \<Rightarrow> bool" where
  "woke T rtol atol c w c' \<longleftrightarrow>
     adv_inv T rtol atol c' \<and> sc_woken c' = sc_woken c @ [(w, sc_t c')] \<and>
     sc_t c \<le> sc_t c' \<and> served_ok T rtol atol w (sc_t c') \<and> \<not> is_cancelled c w \<and>
     add_mset w (mset (pending c')) \<subseteq># mset (pending c) \<and>
     (\<forall>v \<in> set (pending c). \<not> is_cancelled c v \<longrightarrow> v = w \<or> v \<in> set (pending c')) \<and>
     (\<forall>e \<in> set (sc_instant c'). in_order w (snd (snd e))) \<and>
     sc_cancelled c' = sc_cancelled c \<and> sc_settle_rounds c' = sc_settle_rounds c \<and>
     sc_advancing c' = sc_advancing c \<and> sc_seq c \<le> sc_seq c'"

lemma set_now_simps [simp]:
  "sc_waiters (set_now T c) = sc_waiters c" "sc_seq (set_now T c) = sc_seq c"
  "sc_instant (set_now T c) = sc_instant c" "sc_deferred (set_now T c) = sc_deferred c"
  "sc_woken (set_now T c) = sc_woken c" "sc_cancelled (set_now T c) = sc_cancelled c"
  "sc_anchor (set_now T c) = sc_anchor c" "sc_settle_rounds (set_now T c) = sc_settle_rounds c"
  "sc_advancing (set_now T c) = sc_advancing c" "sc_instant_end (set_now T c) = sc_instant_end c"
  "pending (set_now T c) = pending c"
  by (simp_all add: set_now_def pending_def)

lemma take_simps [simp]:
  "sc_waiters (log_wake w (serve_top p c)) = sc_waiters c"
  "sc_seq (log_wake w (serve_top p c)) = sc_seq c"
  "sc_t (log_wake w (serve_top p c)) = sc_t c"
  "sc_woken (log_wake w (serve_top p c)) = sc_woken c @ [(w, sc_t c)]"
  "sc_deferred (log_wake w (serve_top p c)) = sc_deferred c"
  "sc_cancelled (log_wake w (serve_top p c)) = sc_cancelled c"
  "sc_anchor (log_wake w (serve_top p c)) = sc_anchor c"
  "sc_settle_rounds (log_wake w (serve_top p c)) = sc_settle_rounds c"
  "sc_advancing (log_wake w (serve_top p c)) = sc_advancing c"
  "sc_instant_end (log_wake w (serve_top p c)) = sc_instant_end c"
  by (simp_all add: log_wake_def serve_top_def)

lemma pop_due_wake:
  assumes inv: "adv_inv T rtol atol c" and run: "pop_due T rtol atol False c = Some (Some w, c')"
  shows "woke T rtol atol c w (log_wake w c')"
proof -
  from pop_due_outcome [OF assms] obtain c2 es a where
    c2: "adv_inv T rtol atol c2" "pop_frame c c2" "sc_t c2 = sc_t c" "sc_anchor c2 = Some a"
      "sc_instant c2 = entry w # es" "\<not> is_cancelled c2 w" "c' = serve_top False (set_now T c2)"
    by auto
  let ?d = "set_now T c2"
  let ?c = "log_wake w (serve_top False ?d)"
  note now = set_now_inv [OF c2(1,5)]
  have top: "sc_instant ?d = entry w # es" using c2(5) by simp
  have take: "adv_inv T rtol atol ?c" "\<forall>e \<in> set (sc_instant ?c). in_order w (snd (snd e))"
    using take_top_inv [OF conjunct1 [OF now] top] c2(4) by simp_all
  have pend: "mset (pending c2) = add_mset w (mset (pending ?c))"
    using take_top_pending [OF top] by (simp add: entry_def log_wake_def pending_def)
  then have set: "set (pending c2) = insert w (set (pending ?c))"
    by (metis set_mset_add_mset_insert set_mset_mset)
  have sub: "add_mset w (mset (pending ?c)) \<subseteq># mset (pending c)"
    using c2(2) by (simp add: pop_frame_def pend [symmetric])
  have live: "\<forall>v \<in> set (pending c). \<not> is_cancelled c v \<longrightarrow> v = w \<or> v \<in> set (pending ?c)"
    using c2(2) set by (auto simp: pop_frame_def)
  show ?thesis unfolding woke_def c2(7)
    using take sub live now c2(2,3,6) by (simp add: pop_frame_def is_cancelled_def)
qed

text \<open>After a peek the entry it found stays at hand: the next \<open>_pop_due\<close> serves one.\<close>

definition ready :: "sim_clock \<Rightarrow> bool" where
  "ready c \<longleftrightarrow> sc_anchor c \<noteq> None \<and> (\<exists>e \<in> set (sc_instant c). \<not> is_cancelled c (snd (snd e)))"

lemma pop_due_peek:
  assumes inv: "adv_inv T rtol atol c" and run: "pop_due T rtol atol True c = Some (Some w, c')"
  shows "adv_inv T rtol atol c' \<and> pop_frame c c' \<and> sc_t c \<le> sc_t c' \<and> ready c'"
proof -
  from pop_due_outcome [OF assms] obtain c2 es a where
    c2: "adv_inv T rtol atol c2" "pop_frame c c2" "sc_t c2 = sc_t c" "sc_anchor c2 = Some a"
      "sc_instant c2 = entry w # es" "\<not> is_cancelled c2 w" "c' = set_now T c2"
    by (auto simp: serve_top_def)
  have "pop_frame c c'" using c2(2,7) by (simp add: pop_frame_def)
  then show ?thesis
    using set_now_inv [OF c2(1,5)] c2(3-7) by (auto simp: ready_def is_cancelled_def entry_def)
qed

lemma pop_due_ready:
  assumes inv: "adv_inv T rtol atol c" and ready: "ready c"
    and run: "pop_due T rtol atol peek c = Some (r, c')"
  shows "r \<noteq> None"
proof
  assume r: "r = None"
  obtain a where a: "sc_anchor c = Some a" using ready by (auto simp: ready_def)
  have ci: "clock_inv c" using inv by (simp add: adv_inv_def)
  have op: "open_instant T rtol atol c = (Some a, c)" using a by (simp add: open_instant_def)
  from gather_instant_split [OF clock_invD(1,2) [OF ci]] obtain W I N D K KI where
    G: "gathered T rtol atol a c W I N D K KI" and
    c': "gather_instant T rtol atol a c =
      c\<lparr>sc_waiters := W, sc_deferred := sc_deferred c @ D, sc_instant := I,
        sc_instant_end := latest (sc_instant_end c) N\<rparr>" by blast
  obtain e where e: "e \<in> set (sc_instant c)" "\<not> is_cancelled c (snd (snd e))"
    using ready by (auto simp: ready_def)
  have mI: "mset (sc_instant c) + mset (map entry N) = mset I + KI" using G by (simp add: gathered_def)
  have "e \<in># mset I + KI" using e(1) unfolding mI [symmetric] by simp
  moreover have "e \<notin># KI" using G e(2) by (auto simp: gathered_def)
  ultimately have "I \<noteq> []" by auto
  then obtain e' es where "sc_instant (gather_instant T rtol atol a c) = e' # es"
    using c' by (cases I) auto
  from pop_due_serve [OF op this] run r show False by simp
qed

end
