(* ===== verification/SimClockAdvance.thy ===== *)
theory SimClockAdvance imports SimClockPop begin

text \<open>
  The advance as a whole.  \<open>advance_rule\<close> is the proof rule for its loop: what is claimed of the
  clock whenever tasks run (\<open>Inv\<close>) and at the head of the loop (\<open>Head\<close>).  Every result on the
  advance is an interpretation of it.  The tasks enter through \<open>host_acts\<close>: whatever they do to
  the clock, they do by the steps given.
\<close>

section \<open>What tasks do during an advance\<close>

definition acts :: "(sim_clock \<Rightarrow> sim_clock \<Rightarrow> bool) \<Rightarrow> ('w st, 'a) py \<Rightarrow> bool" where
  "acts step m \<longleftrightarrow> (\<forall>s r s'. m s = (r, s') \<longrightarrow> step\<^sup>*\<^sup>* (snd s) (snd s'))"

definition host_acts :: "(sim_clock \<Rightarrow> sim_clock \<Rightarrow> bool) \<Rightarrow> 'w host \<Rightarrow> 'w settle \<Rightarrow> bool" where
  "host_acts step h settle \<longleftrightarrow>
     acts step (h_checkpoint h) \<and> (\<forall>k. acts step (h_callback h k)) \<and>
     (\<forall>f. settle = Some f \<longrightarrow> acts step f)"

lemma actsD: "acts step m \<Longrightarrow> m s = (r, s') \<Longrightarrow> step\<^sup>*\<^sup>* (snd s) (snd s')"
  unfolding acts_def by blast

lemma host_actsD:
  assumes "host_acts step h settle"
  shows "acts step (h_checkpoint h)" "acts step (h_callback h k)" "settle = Some f \<Longrightarrow> acts step f"
  using assms by (simp_all add: host_acts_def)

lemma acts_keeps:
  assumes "acts step m" "\<And>c c'. P c \<Longrightarrow> step c c' \<Longrightarrow> P c'"
  shows "keeps (\<lambda>s. P (snd s)) m"
proof (rule keepsI)
  fix s r s' assume s: "P (snd s)" and run: "m s = (r, s')"
  have "step\<^sup>*\<^sup>* (snd s) (snd s')" using assms(1) run by (rule actsD)
  then show "P (snd s')" using s by (induction rule: rtranclp_induct) (auto intro: assms(2))
qed

lemma checkpoints_keeps:
  assumes "keeps P (h_checkpoint h)"
  shows "keeps P (checkpoints h n)"
proof (induction n)
  case 0
  show ?case unfolding checkpoints.simps by (rule keeps_ret)
next
  case (Suc n)
  show ?case unfolding checkpoints.simps by (rule keeps_andThen [OF assms Suc])
qed

lemma settle_turns_keeps:
  assumes "keeps P (h_checkpoint h)" "\<And>f. settle = Some f \<Longrightarrow> keeps P f"
  shows "keeps P (settle_turns h settle n)"
proof (induction n)
  case 0
  show ?case unfolding settle_turns.simps by (rule keeps_raise)
next
  case (Suc n)
  have rounds: "keeps P (\<lambda>s. checkpoints h (sc_settle_rounds (snd s)) s)"
    using checkpoints_keeps [OF assms(1)] by (simp add: keeps_def)
  have "keeps P (case settle of None \<Rightarrow> ret ()
            | Some f \<Rightarrow> andThen f (\<lambda>more. if more then settle_turns h settle n else ret ()))"
    using assms(2) Suc by (auto split: option.split intro!: keeps_intros)
  with rounds show ?case unfolding settle_turns.simps by (rule keeps_andThen)
qed

lemma host_acts_settle:
  assumes "host_acts step h settle" "\<And>c c'. P c \<Longrightarrow> step c c' \<Longrightarrow> P c'"
  shows "keeps (\<lambda>s. P (snd s)) (settle_turns h settle n)"
proof (rule settle_turns_keeps)
  show "keeps (\<lambda>s. P (snd s)) (h_checkpoint h)"
    using host_actsD(1) [OF assms(1)] assms(2) by (rule acts_keeps)
  show "keeps (\<lambda>s. P (snd s)) f" if "settle = Some f" for f
    using host_actsD(3) [OF assms(1) that] assms(2) by (rule acts_keeps)
qed

lemma host_acts_wake:
  assumes "host_acts step h settle" "\<And>c c'. P c \<Longrightarrow> step c c' \<Longrightarrow> P c'"
    and "P (log_wake w (snd s))" "wake h w s = (r, s')"
  shows "P (snd s')"
proof (cases "w_callback w")
  case None
  with assms(3,4) show ?thesis by (auto simp: wake_def)
next
  case (Some k)
  have "keeps (\<lambda>s. P (snd s)) (h_callback h k)"
    using host_actsD(2) [OF assms(1)] assms(2) by (rule acts_keeps)
  moreover have "h_callback h k (fst s, log_wake w (snd s)) = (r, s')"
    using Some assms(4) by (simp add: wake_def Let_def)
  ultimately show ?thesis
    using keepsD [of "\<lambda>s. P (snd s)" "h_callback h k" "(fst s, log_wake w (snd s))"] assms(3) by simp
qed

section \<open>The rule for the loop\<close>

lemma advance_loop_induct [consumes 1, case_names served_fail served idle_fail last again]:
  assumes "advance_loop h settle ms T rtol atol s = Some (r, s')"
    and "\<And>s w c e s1. pop_due T rtol atol False (snd s) = Some (Some w, c) \<Longrightarrow>
      andThen (wake h w) (\<lambda>_. settle_turns h settle ms) (fst s, c) = (Inl e, s1) \<Longrightarrow> P s (Inl e) s1"
    and "\<And>s w c s1 r s'. pop_due T rtol atol False (snd s) = Some (Some w, c) \<Longrightarrow>
      andThen (wake h w) (\<lambda>_. settle_turns h settle ms) (fst s, c) = (Inr (), s1) \<Longrightarrow>
      P s1 r s' \<Longrightarrow> P s r s'"
    and "\<And>s c e s1. pop_due T rtol atol False (snd s) = Some (None, c) \<Longrightarrow>
      settle_turns h settle ms (fst s, c) = (Inl e, s1) \<Longrightarrow> P s (Inl e) s1"
    and "\<And>s c s1 c'. pop_due T rtol atol False (snd s) = Some (None, c) \<Longrightarrow>
      settle_turns h settle ms (fst s, c) = (Inr (), s1) \<Longrightarrow>
      pop_due T rtol atol True (snd s1) = Some (None, c') \<Longrightarrow> P s (Inr ()) (fst s1, c')"
    and "\<And>s c s1 w c' r s'. pop_due T rtol atol False (snd s) = Some (None, c) \<Longrightarrow>
      settle_turns h settle ms (fst s, c) = (Inr (), s1) \<Longrightarrow>
      pop_due T rtol atol True (snd s1) = Some (Some w, c') \<Longrightarrow>
      P (fst s1, c') r s' \<Longrightarrow> P s r s'"
  shows "P s r s'"
proof -
  let ?Q = "\<lambda>h' settle' ms' T' rtol' atol' s y. h' = h \<longrightarrow> settle' = settle \<longrightarrow> ms' = ms \<longrightarrow> T' = T \<longrightarrow>
    rtol' = rtol \<longrightarrow> atol' = atol \<longrightarrow> P s (fst y) (snd y)"
  have "?Q h settle ms T rtol atol s (r, s')"
  proof (rule advance_loop.raw_induct [where P = ?Q, OF _ assms(1)], intro impI)
    fix loop h' settle' ms' T' rtol' atol' s y
    assume IH: "\<And>h settle ms T rtol atol s y. loop h settle ms T rtol atol s = Some y \<Longrightarrow>
        ?Q h settle ms T rtol atol s y"
      and eq: "h' = h" "settle' = settle" "ms' = ms" "T' = T" "rtol' = rtol" "atol' = atol"
      and body: "Option.bind (pop_due T' rtol' atol' False (snd s)) (\<lambda>(r, c).
       case r of
         None \<Rightarrow>
           (case settle_turns h' settle' ms' (fst s, c) of
              (Inl e, s1) \<Rightarrow> Some (Inl e, s1)
            | (Inr _, s1) \<Rightarrow>
                Option.bind (pop_due T' rtol' atol' True (snd s1)) (\<lambda>(r', c').
                  if r' = None then Some (Inr (), (fst s1, c'))
                  else loop h' settle' ms' T' rtol' atol' (fst s1, c')))
       | Some w \<Rightarrow>
           (case andThen (wake h' w) (\<lambda>_. settle_turns h' settle' ms') (fst s, c) of
              (Inl e, s1) \<Rightarrow> Some (Inl e, s1)
            | (Inr _, s1) \<Rightarrow> loop h' settle' ms' T' rtol' atol' s1)) = Some y"
    have IH: "P s (fst y) (snd y)" if "loop h settle ms T rtol atol s = Some y" for s y
      using IH [OF that] by simp
    obtain r c where pop: "pop_due T rtol atol False (snd s) = Some (r, c)"
      using body unfolding eq by (cases "pop_due T rtol atol False (snd s)") auto
    note body = body [unfolded eq pop]
    show "P s (fst y) (snd y)"
    proof (cases r)
      case (Some w)
      obtain x s1 where st: "andThen (wake h w) (\<lambda>_. settle_turns h settle ms) (fst s, c) = (x, s1)"
        by (cases "andThen (wake h w) (\<lambda>_. settle_turns h settle ms) (fst s, c)")
      show ?thesis
      proof (cases x)
        case (Inl e)
        with body Some st have "y = (Inl e, s1)" by simp
        with assms(2) pop Some st Inl show ?thesis by simp
      next
        case (Inr u)
        with body Some st have "loop h settle ms T rtol atol s1 = Some y" by simp
        with assms(3) pop Some st Inr IH show ?thesis by simp
      qed
    next
      case None
      obtain x s1 where st: "settle_turns h settle ms (fst s, c) = (x, s1)"
        by (cases "settle_turns h settle ms (fst s, c)")
      show ?thesis
      proof (cases x)
        case (Inl e)
        with body None st have "y = (Inl e, s1)" by simp
        with assms(4) pop None st Inl show ?thesis by simp
      next
        case (Inr u)
        with body None st obtain r' c' where pop': "pop_due T rtol atol True (snd s1) = Some (r', c')"
          by (cases "pop_due T rtol atol True (snd s1)") auto
        show ?thesis
        proof (cases r')
          case None': None
          with body None st Inr pop' have "y = (Inr (), (fst s1, c'))" by simp
          with assms(5) pop None st Inr pop' None' show ?thesis by simp
        next
          case (Some w)
          with body None st Inr pop' have "loop h settle ms T rtol atol (fst s1, c') = Some y" by simp
          with assms(6) pop None st Inr pop' Some IH show ?thesis by simp
        qed
      qed
    qed
  qed
  then show ?thesis by simp
qed

locale advance_rule =
  fixes step :: "sim_clock \<Rightarrow> sim_clock \<Rightarrow> bool"
    and Inv Head :: "sim_clock \<Rightarrow> bool"
    and T rtol atol :: pyfloat
  assumes task: "Inv c \<Longrightarrow> step c c' \<Longrightarrow> Inv c'"
    and enter: "Inv c \<Longrightarrow> Head c"
    and serve: "Head c \<Longrightarrow> pop_due T rtol atol False c = Some (Some w, c') \<Longrightarrow> Inv (log_wake w c')"
    and idle: "Head c \<Longrightarrow> pop_due T rtol atol False c = Some (None, c') \<Longrightarrow> Inv c'"
    and peek: "Inv c \<Longrightarrow> pop_due T rtol atol True c = Some (Some w, c') \<Longrightarrow> Head c'"
    and finish: "Inv c \<Longrightarrow> pop_due T rtol atol True c = Some (None, c') \<Longrightarrow> Inv c'"
begin

text \<open>A run that fails ends in \<open>Inv\<close>; one that returns ends in \<open>Inv\<close> with nothing due.\<close>

definition ends :: "exn + unit \<Rightarrow> sim_clock \<Rightarrow> bool" where
  "ends r c \<longleftrightarrow> Inv c \<and>
     (r = Inr () \<longrightarrow> (\<exists>c0. Inv c0 \<and> pop_due T rtol atol True c0 = Some (None, c)))"

lemma settled:
  assumes acts: "host_acts step h settle" and "Inv c" "settle_turns h settle ms (v, c) = (r, s')"
  shows "Inv (snd s')"
proof -
  have "keeps (\<lambda>s. Inv (snd s)) (settle_turns h settle ms)"
    using acts task by (rule host_acts_settle)
  from keepsD [OF this _ assms(3)] assms(2) show ?thesis by simp
qed

lemma served_then_settled:
  assumes acts: "host_acts step h settle" and inv: "Inv (log_wake w c)"
    and run: "andThen (wake h w) (\<lambda>_. settle_turns h settle ms) (v, c) = (r, s')"
  shows "Inv (snd s')"
proof -
  obtain r1 s1 where w: "wake h w (v, c) = (r1, s1)" by (cases "wake h w (v, c)")
  have s1: "Inv (snd s1)" by (rule host_acts_wake [OF acts task _ w]) (use inv in simp_all)
  show ?thesis
  proof (cases r1)
    case (Inl e)
    with run w s1 show ?thesis by simp
  next
    case (Inr u)
    then have "settle_turns h settle ms s1 = (r, s')" using run w by simp
    moreover have "keeps (\<lambda>s. Inv (snd s)) (settle_turns h settle ms)"
      using acts task by (rule host_acts_settle)
    ultimately show ?thesis using s1 by (rule keepsD [rotated 2])
  qed
qed

lemma loop_ends:
  assumes run: "advance_loop h settle ms T rtol atol s = Some (r, s')"
    and acts: "host_acts step h settle" and head: "Head (snd s)"
  shows "ends r (snd s')"
  using run head
proof (induction rule: advance_loop_induct)
  case (served_fail s w c e s1)
  then show ?case using served_then_settled [OF acts serve] by (auto simp: ends_def)
next
  case (served s w c s1 r s')
  then show ?case using served_then_settled [OF acts serve] enter by blast
next
  case (idle_fail s c e s1)
  then show ?case using settled [OF acts] idle by (fastforce simp: ends_def)
next
  case (last s c s1 c')
  then have "Inv (snd s1)" using settled [OF acts] idle by fastforce
  with last show ?case using finish by (auto simp: ends_def)
next
  case (again s c s1 w c' r s')
  then have "Inv (snd s1)" using settled [OF acts] idle by fastforce
  with again show ?case using peek by simp
qed

lemma body_ends:
  assumes run: "advance_body h settle ms T rtol atol s = Some (r, s')"
    and acts: "host_acts step h settle" and inv: "Inv (snd s)"
  shows "ends r (snd s')"
proof -
  obtain x s1 where first: "(if settle = None then ret () s else settle_turns h settle ms s) = (x, s1)"
    by (cases "if settle = None then ret () s else settle_turns h settle ms s")
  have s1: "Inv (snd s1)"
    using first inv settled [OF acts, of "snd s" ms "fst s" x s1] by (auto split: if_splits)
  show ?thesis
  proof (cases x)
    case (Inl e)
    with run first s1 show ?thesis by (auto simp: advance_body_def ends_def)
  next
    case (Inr u)
    with run first have "advance_loop h settle ms T rtol atol s1 = Some (r, s')"
      by (simp add: advance_body_def)
    then show ?thesis using acts enter [OF s1] by (rule loop_ends)
  qed
qed

end

section \<open>What an advance does to the clock, whatever the tasks do\<close>

text \<open>The entries served since \<open>c0\<close>, and \<open>now()\<close> at the last of them.\<close>

definition served_since :: "sim_clock \<Rightarrow> sim_clock \<Rightarrow> (waiter \<times> pyfloat) list" where
  "served_since c0 c = drop (length (sc_woken c0)) (sc_woken c)"

definition last_wake :: "sim_clock \<Rightarrow> sim_clock \<Rightarrow> pyfloat" where
  "last_wake c0 c = last (sc_t c0 # map snd (served_since c0 c))"

text \<open>
  Since \<open>c0\<close>: the log has grown by entries that were due when served, at times that never move
  back, none of them cancelled before; and no live entry of \<open>c0\<close> has got lost.
\<close>

definition log_ok :: "pyfloat \<Rightarrow> pyfloat \<Rightarrow> pyfloat \<Rightarrow> sim_clock \<Rightarrow> sim_clock \<Rightarrow> bool" where
  "log_ok T rtol atol c0 c \<longleftrightarrow>
     sc_woken c = sc_woken c0 @ served_since c0 c \<and>
     sorted (sc_t c0 # map snd (served_since c0 c)) \<and>
     (\<forall>(w, n) \<in> set (served_since c0 c). n \<le> sc_t c \<and> served_ok T rtol atol w n \<and> \<not> is_cancelled c0 w)"

definition kept :: "sim_clock \<Rightarrow> sim_clock \<Rightarrow> bool" where
  "kept c0 c \<longleftrightarrow>
     (\<forall>w \<in> set (pending c0). is_cancelled c w \<or> w \<in> set (pending c) \<or> w \<in> fst ` set (served_since c0 c))"

definition progress :: "pyfloat \<Rightarrow> pyfloat \<Rightarrow> pyfloat \<Rightarrow> sim_clock \<Rightarrow> sim_clock \<Rightarrow> bool" where
  "progress T rtol atol c0 c \<longleftrightarrow>
     adv_inv T rtol atol c \<and> log_ok T rtol atol c0 c \<and> kept c0 c \<and> sc_t c0 \<le> sc_t c \<and>
     sc_cancelled c0 \<subseteq> sc_cancelled c \<and> sc_settle_rounds c = sc_settle_rounds c0 \<and>
     sc_seq c0 \<le> sc_seq c"

definition at_rest :: "pyfloat \<Rightarrow> pyfloat \<Rightarrow> pyfloat \<Rightarrow> sim_clock \<Rightarrow> sim_clock \<Rightarrow> bool" where
  "at_rest T rtol atol c0 c \<longleftrightarrow> progress T rtol atol c0 c \<and> sc_t c = last_wake c0 c"

definition at_head :: "pyfloat \<Rightarrow> pyfloat \<Rightarrow> pyfloat \<Rightarrow> sim_clock \<Rightarrow> sim_clock \<Rightarrow> bool" where
  "at_head T rtol atol c0 c \<longleftrightarrow> progress T rtol atol c0 c \<and> (sc_t c = last_wake c0 c \<or> ready c)"

lemma served_since_same: "sc_woken c' = sc_woken c \<Longrightarrow> served_since c0 c' = served_since c0 c"
  by (simp add: served_since_def)

lemma log_ok_same:
  "log_ok T rtol atol c0 c \<Longrightarrow> sc_woken c' = sc_woken c \<Longrightarrow> sc_t c \<le> sc_t c' \<Longrightarrow> log_ok T rtol atol c0 c'"
  unfolding log_ok_def served_since_def by (auto intro: order_trans)

lemma api_step_adv_inv:
  assumes step: "api_step c c'" and inv: "adv_inv T rtol atol c"
  shows "adv_inv T rtol atol c'"
proof -
  have "clock_inv c'" using api_step_inv [OF step] inv by (simp add: adv_inv_def)
  moreover have "w_deadline (snd (snd e)) \<le> sc_t c \<or>
      (w_deadline (snd (snd e)) \<le> sc_instant_end c \<and> due_by T rtol atol (snd (snd e)))"
    if "e \<in> set (sc_instant c')" for e
    using api_step_instant [OF step] that inv by (auto simp: adv_inv_def fle_def_order)
  ultimately show ?thesis using inv api_step_frame [OF step] by (simp add: adv_inv_def)
qed

lemma api_step_kept:
  assumes step: "api_step c c'" and inv: "clock_inv c" and kept: "kept c0 c"
  shows "kept c0 c'"
proof -
  have "served_since c0 c' = served_since c0 c" using api_step_frame(2) [OF step] by (rule served_since_same)
  moreover have "is_cancelled c' w \<or> w \<in> set (pending c')" if "is_cancelled c w \<or> w \<in> set (pending c)" for w
    using that api_step_pending [OF step inv, of w] api_step_frame(10) [OF step]
    by (auto simp: is_cancelled_def)
  ultimately show ?thesis using kept unfolding kept_def by auto
qed

lemma progress_step:
  assumes "progress T rtol atol c0 c" "api_step c c'"
  shows "progress T rtol atol c0 c'"
proof -
  have "clock_inv c" using assms(1) by (simp add: progress_def adv_inv_def)
  then have "kept c0 c'" using api_step_kept [OF assms(2)] assms(1) by (simp add: progress_def)
  moreover have "log_ok T rtol atol c0 c'"
    using log_ok_same [of T rtol atol c0 c c'] assms(1) api_step_frame(1,2) [OF assms(2)]
    by (simp add: progress_def)
  moreover have "adv_inv T rtol atol c'"
    using api_step_adv_inv [OF assms(2)] assms(1) by (simp add: progress_def)
  ultimately show ?thesis using assms(1) api_step_frame(1,8-10) [OF assms(2)]
    by (simp add: progress_def) (blast intro: order_trans)
qed

lemma progress_frame:
  assumes "progress T rtol atol c0 c" "pop_frame c c'" "adv_inv T rtol atol c'" "sc_t c \<le> sc_t c'"
  shows "progress T rtol atol c0 c'"
proof -
  have "kept c0 c'"
    using assms(1,2) served_since_same [of c' c c0]
    unfolding progress_def kept_def pop_frame_def is_cancelled_def by auto
  moreover have "log_ok T rtol atol c0 c'"
    using log_ok_same [of T rtol atol c0 c c'] assms(1,2,4) by (simp add: progress_def pop_frame_def)
  ultimately show ?thesis using assms by (auto simp: progress_def pop_frame_def)
qed

lemma progress_woke:
  assumes prog: "progress T rtol atol c0 c" and woke: "woke T rtol atol c w c'"
  shows "at_rest T rtol atol c0 c'"
proof -
  have log: "log_ok T rtol atol c0 c" and canc: "sc_cancelled c0 \<subseteq> sc_cancelled c"
    using prog by (simp_all add: progress_def)
  have since: "served_since c0 c' = served_since c0 c @ [(w, sc_t c')]"
  proof -
    have "length (sc_woken c0) \<le> length (sc_woken c)"
      using log unfolding log_ok_def by (metis length_append le_add1)
    then show ?thesis using woke by (simp add: served_since_def woke_def)
  qed
  have t: "sc_t c \<le> sc_t c'" "sc_t c0 \<le> sc_t c" using prog woke by (simp_all add: progress_def woke_def)
  have "sorted (sc_t c0 # map snd (served_since c0 c'))"
    using log t unfolding since by (force simp: log_ok_def sorted_append intro: order_trans)
  moreover have "n \<le> sc_t c' \<and> served_ok T rtol atol v n \<and> \<not> is_cancelled c0 v"
    if "(v, n) \<in> set (served_since c0 c')" for v n
  proof (cases "(v, n) \<in> set (served_since c0 c)")
    case True
    with log t show ?thesis by (auto simp: log_ok_def intro: order_trans)
  next
    case False
    then have "v = w" "n = sc_t c'" using that since by auto
    then show ?thesis using woke canc by (auto simp: woke_def is_cancelled_def)
  qed
  ultimately have "log_ok T rtol atol c0 c'"
    using log woke since by (auto simp: log_ok_def woke_def)
  moreover have "kept c0 c'"
    using prog woke since unfolding progress_def kept_def woke_def is_cancelled_def by auto
  moreover have "last_wake c0 c' = sc_t c'" by (simp add: last_wake_def since)
  ultimately show ?thesis using prog woke t by (auto simp: at_rest_def progress_def woke_def)
qed

interpretation run: advance_rule api_step "at_rest T rtol atol c0" "at_head T rtol atol c0" T rtol atol
  for T rtol atol c0
proof unfold_locales
  fix c c' w
  show "at_rest T rtol atol c0 c'" if "at_rest T rtol atol c0 c" "api_step c c'"
    using progress_step [OF _ that(2)] that(1) api_step_frame(1,2) [OF that(2)]
    by (simp add: at_rest_def last_wake_def served_since_def)
  show "at_head T rtol atol c0 c" if "at_rest T rtol atol c0 c"
    using that by (simp add: at_rest_def at_head_def)
  show "at_rest T rtol atol c0 (log_wake w c')"
    if "at_head T rtol atol c0 c" "pop_due T rtol atol False c = Some (Some w, c')"
    using that pop_due_wake progress_woke unfolding at_head_def progress_def by blast
  show "at_head T rtol atol c0 c'"
    if "at_rest T rtol atol c0 c" "pop_due T rtol atol True c = Some (Some w, c')"
    using that pop_due_peek progress_frame unfolding at_rest_def at_head_def progress_def by blast
  have none: "at_rest T rtol atol c0 c'"
    if "progress T rtol atol c0 c" "sc_t c = last_wake c0 c" "pop_due T rtol atol p c = Some (None, c')" for p
  proof -
    have inv: "adv_inv T rtol atol c" using that(1) by (simp add: progress_def)
    have out: "pop_outcome T rtol atol p c None c'" using pop_due_outcome [OF inv that(3)] .
    then have "progress T rtol atol c0 c'" using progress_frame [OF that(1)] by simp
    moreover have "served_since c0 c' = served_since c0 c"
      using out by (intro served_since_same) (simp add: pop_frame_def)
    ultimately show ?thesis using that(2) out by (simp add: at_rest_def last_wake_def)
  qed
  show "at_rest T rtol atol c0 c'"
    if "at_head T rtol atol c0 c" "pop_due T rtol atol False c = Some (None, c')"
    using that none pop_due_ready [OF _ _ that(2)] unfolding at_head_def progress_def by blast
  show "at_rest T rtol atol c0 c'"
    if "at_rest T rtol atol c0 c" "pop_due T rtol atol True c = Some (None, c')"
    using that none unfolding at_rest_def by blast
qed

section \<open>A whole advance\<close>

text \<open>The clock between two advances: no instant open, nothing set aside.\<close>

definition idle_clock :: "sim_clock \<Rightarrow> bool" where
  "idle_clock c \<longleftrightarrow> clock_inv c \<and> \<not> sc_advancing c \<and> sc_anchor c = None \<and> sc_instant c = [] \<and> sc_deferred c = []"

definition valid_call :: "int \<Rightarrow> pyfloat \<Rightarrow> pyfloat \<Rightarrow> bool" where
  "valid_call max_settles rtol atol \<longleftrightarrow> 1 \<le> max_settles \<and> \<not> flt rtol (Fin 0) \<and> \<not> flt atol (Fin 0)"

lemma pending_idle: "idle_clock c \<Longrightarrow> pending c = sc_waiters c"
  by (simp add: pending_def idle_clock_def)

lemma end_advance_simps [simp]:
  "sc_woken (end_advance c) = sc_woken c" "sc_cancelled (end_advance c) = sc_cancelled c"
  "sc_t (end_advance c) = sc_t c" "sc_seq (end_advance c) = sc_seq c"
  "mset (pending (end_advance c)) = mset (pending c)"
  by (simp_all add: end_advance_def pending_def del: fold_append map_map)

lemma set_pending_end [simp]: "set (pending (end_advance c)) = set (pending c)"
  using end_advance_simps(5) by (metis set_mset_mset)

lemma end_advance_idle:
  assumes inv: "clock_inv c"
  shows "idle_clock (end_advance c)"
proof -
  have "\<forall>w \<in> set (sc_deferred c @ map (snd \<circ> snd) (sc_instant c)). wvalid w"
    using clock_invD(6) [OF inv] is_float_not_NaN by (fastforce simp: set_known wvalid_def)
  then have "waiters_ok (sc_waiters (end_advance c))"
    using clock_invD(1) [OF inv] push_waiters_ok unfolding end_advance_def by fastforce
  moreover have "mset (known (end_advance c)) = mset (known c)" by (simp add: known_def)
  then have "mset (known (end_advance c)) \<subseteq># mset (known c)" by simp
  ultimately have "clock_inv (end_advance c)"
    using inv by (intro clock_inv_move [OF inv]) (auto simp: end_advance_def clock_inv_def)
  then show ?thesis by (simp add: idle_clock_def end_advance_def)
qed

lemma pending_updates [simp]:
  "pending (c\<lparr>sc_t := T\<rparr>) = pending c" "pending (c\<lparr>sc_advancing := b\<rparr>) = pending c"
  "known (c\<lparr>sc_t := T\<rparr>) = known c" "known (c\<lparr>sc_advancing := b\<rparr>) = known c"
  by (simp_all add: pending_def known_def)

lemma set_t_idle: "idle_clock c \<Longrightarrow> is_float T \<Longrightarrow> idle_clock (c\<lparr>sc_t := T\<rparr>)"
  by (simp add: idle_clock_def clock_inv_def)

lemma begin_at_rest:
  assumes "idle_clock c" "is_float T" "sc_t c \<le> T"
  shows "at_rest T rtol atol c (c\<lparr>sc_advancing := True\<rparr>)"
  using assms
  by (simp add: at_rest_def progress_def adv_inv_def idle_clock_def clock_inv_def
      log_ok_def kept_def served_since_def last_wake_def)

lemma advance_to_body:
  assumes idle: "idle_clock (snd s)" and T: "is_float T" "sc_t (snd s) \<le> T"
    and call: "valid_call max_settles rtol atol"
    and run: "advance_to h settle max_settles T rtol atol s = Some (r, s')"
  shows "\<exists>x s1. advance_body h settle (nat max_settles) T rtol atol
      (fst s, (snd s)\<lparr>sc_advancing := True\<rparr>) = Some (x, s1) \<and> fst s' = fst s1 \<and>
    (\<forall>e. r = Inl e \<longrightarrow> x = Inl e \<and> snd s' = end_advance (snd s1)) \<and>
    (r = Inr () \<longrightarrow> x = Inr () \<and> snd s' = (end_advance (snd s1))\<lparr>sc_t := T\<rparr>)"
proof -
  have "\<not> flt T (sc_t (snd s))" using T by (auto simp: flt_def_order)
  with run idle call obtain x s1 where
    "advance_body h settle (nat max_settles) T rtol atol (fst s, (snd s)\<lparr>sc_advancing := True\<rparr>) = Some (x, s1)"
    "(r, s') = (let c = end_advance (snd s1) in
             case x of Inl e \<Rightarrow> (Inl e, (fst s1, c)) | Inr _ \<Rightarrow> (Inr (), (fst s1, c\<lparr>sc_t := T\<rparr>)))"
    by (auto simp: advance_to_def valid_call_def idle_clock_def)
  then show ?thesis by (intro exI [of _ x] exI [of _ s1]) (cases x; simp add: Let_def)
qed

text \<open>
  The summary of an advance to a \<open>T\<close> not in the past: \<open>c\<close> is the clock as \<open>_advance_to\<close> leaves it.
\<close>

lemma advance_to_run:
  assumes idle: "idle_clock (snd s)" and T: "is_float T" "sc_t (snd s) \<le> T"
    and call: "valid_call max_settles rtol atol" and acts: "host_acts api_step h settle"
    and run: "advance_to h settle max_settles T rtol atol s = Some (r, s')"
  shows "\<exists>c. at_rest T rtol atol (snd s) c \<and>
    (\<forall>e. r = Inl e \<longrightarrow> snd s' = end_advance c) \<and>
    (r = Inr () \<longrightarrow> snd s' = (end_advance c)\<lparr>sc_t := T\<rparr> \<and> (\<forall>w \<in> set (pending c). T < w_deadline w))"
proof -
  from advance_to_body [OF idle T call run] obtain x s1 where
    body: "advance_body h settle (nat max_settles) T rtol atol (fst s, (snd s)\<lparr>sc_advancing := True\<rparr>) = Some (x, s1)"
    and s': "r = Inl e \<Longrightarrow> x = Inl e \<and> snd s' = end_advance (snd s1)"
      "r = Inr () \<Longrightarrow> x = Inr () \<and> snd s' = (end_advance (snd s1))\<lparr>sc_t := T\<rparr>" for e by blast
  have "run.ends T rtol atol (snd s) x (snd s1)"
    using run.body_ends [OF body acts] begin_at_rest [OF idle T] by simp
  then have rest: "at_rest T rtol atol (snd s) (snd s1)"
    and last: "x = Inr () \<Longrightarrow> \<exists>c0. at_rest T rtol atol (snd s) c0 \<and>
      pop_due T rtol atol True c0 = Some (None, snd s1)"
    by (auto simp: run.ends_def)
  have "\<forall>w \<in> set (pending (snd s1)). T < w_deadline w" if x: "x = Inr ()"
  proof -
    obtain c0 where c0: "at_rest T rtol atol (snd s) c0" and pop: "pop_due T rtol atol True c0 = Some (None, snd s1)"
      using last [OF x] by blast
    have "adv_inv T rtol atol c0" using c0 by (simp add: at_rest_def progress_def)
    from pop_due_outcome [OF this pop]
    have out: "adv_inv T rtol atol (snd s1)" "sc_anchor (snd s1) = None"
      "\<forall>w \<in> set (sc_waiters (snd s1)). \<not> fle (w_deadline w) T" by simp_all
    then have "sc_instant (snd s1) = []" by (simp add: adv_inv_def clock_inv_def)
    with out show ?thesis by (auto simp: pending_def adv_inv_def fle_def_order)
  qed
  with rest s' show ?thesis by (intro exI [of _ "snd s1"]) simp
qed

end
