(* ===== verification/SimClockReturns.thy ===== *)
theory SimClockReturns imports SimClockAdvance begin

text \<open>
  That an advance returns.  The tasks may keep it busy for ever by sleeping again and again before
  its target; \<open>budget m\<close> says they do not: \<open>m\<close> bounds, in every state of their world, the entries
  they will still register.  Each turn of the loop then either serves an entry or finds one that
  the next turn serves.
\<close>

definition op_budget :: "('w \<Rightarrow> nat) \<Rightarrow> ('w st, 'a) py \<Rightarrow> bool" where
  "op_budget m f \<longleftrightarrow>
     (\<forall>s r s'. f s = (r, s') \<longrightarrow> m (fst s') + sc_seq (snd s') \<le> m (fst s) + sc_seq (snd s))"

definition budget :: "('w \<Rightarrow> nat) \<Rightarrow> 'w host \<Rightarrow> 'w settle \<Rightarrow> bool" where
  "budget m h settle \<longleftrightarrow>
     op_budget m (h_checkpoint h) \<and> (\<forall>k. op_budget m (h_callback h k)) \<and>
     (\<forall>f. settle = Some f \<longrightarrow> op_budget m f)"

text \<open>What is still to be served: the pending entries and those the tasks may add.\<close>

definition load :: "('w \<Rightarrow> nat) \<Rightarrow> 'w st \<Rightarrow> nat" where
  "load m s = length (pending (snd s)) + m (fst s)"

lemma api_step_length: "api_step c c' \<Longrightarrow> length (pending c') + sc_seq c \<le> length (pending c) + sc_seq c'"
proof (cases rule: api_step_cases, assumption)
  fix s assume "c' = c\<lparr>sc_cancelled := insert s (sc_cancelled c),
        sc_waiters := drop_cancelled_tops (insert s (sc_cancelled c)) (sc_waiters c)\<rparr>"
  moreover have "length (drop_cancelled_tops K ws) \<le> length ws" for K ws
  proof (induction K ws rule: drop_cancelled_tops.induct)
    case (1 K heap)
    then show ?case by (subst drop_cancelled_tops.simps) (fastforce split: list.split)
  qed
  ultimately show ?thesis by (simp add: pending_def)
qed (simp_all add: pending_def size_mset [symmetric] del: size_mset)

lemma api_steps_length:
  "api_step\<^sup>*\<^sup>* c c' \<Longrightarrow> length (pending c') + sc_seq c \<le> length (pending c) + sc_seq c'"
  by (induction rule: rtranclp_induct) (use api_step_length in force)+

lemma op_load:
  assumes "acts api_step f" "op_budget m f"
  shows "keeps (\<lambda>s. adv_inv T rtol atol (snd s) \<and> load m s \<le> n) f"
proof (rule keepsI)
  fix s r s' assume s: "adv_inv T rtol atol (snd s) \<and> load m s \<le> n" and run: "f s = (r, s')"
  have "keeps (\<lambda>s. adv_inv T rtol atol (snd s)) f"
    using assms(1) api_step_adv_inv by (rule acts_keeps)
  then have "adv_inv T rtol atol (snd s')" using s run by (auto dest: keepsD)
  moreover have "length (pending (snd s')) + sc_seq (snd s) \<le> length (pending (snd s)) + sc_seq (snd s')"
    using actsD [OF assms(1) run] by (rule api_steps_length)
  moreover have "m (fst s') + sc_seq (snd s') \<le> m (fst s) + sc_seq (snd s)"
    using assms(2) run by (simp add: op_budget_def)
  ultimately show "adv_inv T rtol atol (snd s') \<and> load m s' \<le> n" using s by (simp add: load_def)
qed

text \<open>What the tasks do between two turns of the loop keeps the load.\<close>

lemma settle_load:
  assumes "host_acts api_step h settle" "budget m h settle"
    and run: "settle_turns h settle k s = (r, s')" and inv: "adv_inv T rtol atol (snd s)"
  shows "adv_inv T rtol atol (snd s') \<and> load m s' \<le> load m s"
proof -
  have "keeps (\<lambda>t. adv_inv T rtol atol (snd t) \<and> load m t \<le> load m s) (settle_turns h settle k)"
    using assms(1,2) by (intro settle_turns_keeps op_load) (simp_all add: host_acts_def budget_def)
  from keepsD [OF this _ run] inv show ?thesis by simp
qed

lemma wake_load:
  assumes "host_acts api_step h settle" "budget m h settle"
    and run: "andThen (wake h w) (\<lambda>_. settle_turns h settle k) (v, c) = (r, s')"
    and inv: "adv_inv T rtol atol (log_wake w c)"
  shows "adv_inv T rtol atol (snd s') \<and> load m s' \<le> load m (v, log_wake w c)"
proof -
  obtain x s1 where w: "wake h w (v, c) = (x, s1)" by (cases "wake h w (v, c)")
  have s1: "adv_inv T rtol atol (snd s1) \<and> load m s1 \<le> load m (v, log_wake w c)"
  proof (cases "w_callback w")
    case None
    with w inv show ?thesis by (auto simp: wake_def)
  next
    case (Some j)
    then have cb: "h_callback h j (v, log_wake w c) = (x, s1)" using w by (simp add: wake_def Let_def)
    have "keeps (\<lambda>t. adv_inv T rtol atol (snd t) \<and> load m t \<le> load m (v, log_wake w c)) (h_callback h j)"
      using assms(1,2) by (intro op_load) (simp_all add: host_acts_def budget_def)
    from keepsD [OF this _ cb] inv show ?thesis by simp
  qed
  show ?thesis
  proof (cases x)
    case (Inl e)
    with run w s1 show ?thesis by simp
  next
    case (Inr u)
    then have "settle_turns h settle k s1 = (r, s')" using run w by simp
    from settle_load [OF assms(1,2) this] s1 show ?thesis by (meson order_trans)
  qed
qed

lemma woke_load: "woke T rtol atol c w c' \<Longrightarrow> load m (v, c') < load m (v, c)"
proof -
  assume "woke T rtol atol c w c'"
  then have "add_mset w (mset (pending c')) \<subseteq># mset (pending c)" by (simp add: woke_def)
  then have "size (add_mset w (mset (pending c'))) \<le> size (mset (pending c))" by (rule size_mset_mono)
  then show ?thesis by (simp add: load_def)
qed

lemma frame_load: "pop_frame c c' \<Longrightarrow> load m (v, c') \<le> load m (v, c)"
proof -
  assume "pop_frame c c'"
  then have "mset (pending c') \<subseteq># mset (pending c)" by (simp add: pop_frame_def)
  then have "size (mset (pending c')) \<le> size (mset (pending c))" by (rule size_mset_mono)
  then show ?thesis by (simp add: load_def)
qed

lemma loop_returns:
  assumes acts: "host_acts api_step h settle" and budget: "budget m h settle"
    and "adv_inv T rtol atol (snd s)"
  shows "\<exists>y. advance_loop h settle ms T rtol atol s = Some y"
  using assms(3)
proof (induction "2 * load m s + (if ready (snd s) then 0 else 1)" arbitrary: s rule: less_induct)
  case less
  obtain r c where pop: "pop_due T rtol atol False (snd s) = Some (r, c)"
    and out: "pop_outcome T rtol atol False (snd s) r c"
    using pop_due_run [OF less.prems] by blast
  note loop = advance_loop.simps [of h settle ms T rtol atol s] pop
  show ?case
  proof (cases r)
    case (Some w)
    obtain x s1 where st: "andThen (wake h w) (\<lambda>_. settle_turns h settle ms) (fst s, c) = (x, s1)"
      by (cases "andThen (wake h w) (\<lambda>_. settle_turns h settle ms) (fst s, c)")
    have woke: "woke T rtol atol (snd s) w (log_wake w c)"
      using pop_due_wake [OF less.prems] pop Some by simp
    then have "adv_inv T rtol atol (log_wake w c)" by (simp add: woke_def)
    from wake_load [OF acts budget st this] woke_load [OF woke, of m "fst s"]
    have s1: "adv_inv T rtol atol (snd s1)" "load m s1 < load m s" by simp_all
    have "\<exists>y. advance_loop h settle ms T rtol atol s1 = Some y"
      by (rule less.hyps) (use s1 in auto)
    with loop Some st show ?thesis by (cases x) simp_all
  next
    case None
    obtain x s1 where st: "settle_turns h settle ms (fst s, c) = (x, s1)"
      by (cases "settle_turns h settle ms (fst s, c)")
    have c: "adv_inv T rtol atol c" "pop_frame (snd s) c" using out None by simp_all
    have calm: "\<not> ready (snd s)" using pop_due_ready [OF less.prems _ pop] None by blast
    from settle_load [OF acts budget st, of T rtol atol] c frame_load [OF c(2), of m "fst s"]
    have s1: "adv_inv T rtol atol (snd s1)" "load m s1 \<le> load m s" by simp_all
    obtain r' c' where pop': "pop_due T rtol atol True (snd s1) = Some (r', c')"
      using pop_due_run [OF s1(1)] by blast
    show ?thesis
    proof (cases r')
      case None': None
      with loop None st pop' show ?thesis by (cases x) simp_all
    next
      case (Some v)
      have c': "adv_inv T rtol atol c'" "pop_frame (snd s1) c'" "ready c'"
        using pop_due_peek [OF s1(1)] pop' Some by simp_all
      have "load m (fst s1, c') \<le> load m s"
        using frame_load [OF c'(2), of m "fst s1"] s1(2) by simp
      then have "\<exists>y. advance_loop h settle ms T rtol atol (fst s1, c') = Some y"
        by (intro less.hyps) (use c' calm in auto)
      with loop None st pop' Some show ?thesis by (cases x) simp_all
    qed
  qed
qed

lemma advance_to_some:
  assumes acts: "host_acts api_step h settle" and budget: "budget m h settle"
    and idle: "idle_clock (snd s)" and T: "is_float T"
  shows "\<exists>y. advance_to h settle max_settles T rtol atol s = Some y"
proof (cases "sc_t (snd s) \<le> T")
  case True
  let ?s = "(fst s, (snd s)\<lparr>sc_advancing := True\<rparr>)"
  have inv: "adv_inv T rtol atol (snd ?s)"
    using begin_at_rest [OF idle T True] by (simp add: at_rest_def progress_def)
  have "\<exists>y. advance_body h settle n T rtol atol ?s = Some y" for n
  proof -
    obtain x s1 where first: "(if settle = None then ret () ?s else settle_turns h settle n ?s) = (x, s1)"
      by (cases "if settle = None then ret () ?s else settle_turns h settle n ?s")
    have "adv_inv T rtol atol (snd s1)"
      using first inv settle_load [OF acts budget, of n ?s x s1 T rtol atol] by (auto split: if_splits)
    from loop_returns [OF acts budget this] first show ?thesis
      by (cases x) (simp_all add: advance_body_def)
  qed
  then obtain y where "advance_body h settle (nat max_settles) T rtol atol ?s = Some y" by blast
  then show ?thesis by (simp add: advance_to_def del: split_paired_Ex)
next
  case False
  have "sc_t (snd s) \<noteq> NaN" using idle by (simp add: idle_clock_def clock_inv_def)
  with False have "flt T (sc_t (snd s))" by (simp add: flt_def_order)
  then show ?thesis by (simp add: advance_to_def)
qed

end
