(* ===== verification/SimClockStrict.thy ===== *)
theory SimClockStrict imports SimClockAdvance begin

text \<open>
  An advance with \<open>rtol = atol = 0\<close>.  Then an instant is one deadline, and the clock keeps the
  promise of its docstring to the letter: every sleeper wakes exactly at its deadline, in the
  order of (deadline, priority, registration), whatever the tasks register or cancel meanwhile.
\<close>

section \<open>Tolerance zero\<close>

lemma fneg_round: "fneg (round_double q) = round_double (- q)"
  by (auto simp: round_double_def round_value_minus Let_def float_limit_def)

lemma fsub_swap: "x \<noteq> NaN \<Longrightarrow> y \<noteq> NaN \<Longrightarrow> isfinite x \<Longrightarrow> isfinite y \<Longrightarrow> fsub y x = fneg (fsub x y)"
  by (cases x; cases y) (simp_all add: fsub_def fneg_round)

lemma fabs_pos: "Fin 0 < x \<or> x < Fin 0 \<Longrightarrow> x \<noteq> NaN \<Longrightarrow> Fin 0 < fabs x"
  by (cases x) (auto simp: less_pyfloat_def)

lemma isclose_exact:
  assumes "is_float a" "is_float b"
  shows "isclose (Fin 0) (Fin 0) a b \<longleftrightarrow> a = b"
proof (cases "a = b")
  case True
  with assms show ?thesis by (simp add: isclose_refl)
next
  case False
  show ?thesis
  proof (cases "isinf a \<or> isinf b")
    case True
    with False show ?thesis by (simp add: isclose_def feq_iff)
  next
    case fin: False
    then obtain p q where pq: "a = Fin p" "b = Fin q" using assms by (cases a; cases b) (auto simp: isinf_def)
    have "Fin 0 < fabs (fsub b a)"
    proof (cases "a < b")
      case True
      then have "Fin 0 < fsub b a" using fsub_pos [OF assms(2,1)] pq by simp
      then show ?thesis by (cases "fsub b a") (auto simp: less_pyfloat_def)
    next
      case ge: False
      then have "Fin 0 < fsub a b" using fsub_pos [OF assms] pq False by simp
      moreover have "fsub b a = fneg (fsub a b)" using pq by (intro fsub_swap) simp_all
      ultimately show ?thesis by (cases "fsub a b") (auto simp: less_pyfloat_def)
    qed
    then have "\<not> fle (fabs (fsub b a)) (Fin 0)" by (simp add: fle_def_order not_le)
    with False pq show ?thesis by (simp add: isclose_def feq_iff isinf_def)
  qed
qed

lemma close_to_exact:
  assumes "is_float T" "close_to T (Fin 0) (Fin 0) w"
  shows "w_deadline w \<le> T"
proof (cases T)
  case (Fin q)
  obtain p where p: "w_deadline w = Fin p" using assms(2) by (cases "w_deadline w") (auto simp: close_to_def)
  have "fmul (Fin 0) (pymax (fabs (w_deadline w)) (fabs T)) = Fin 0"
    using p Fin by (simp add: pymax_def)
  then have "fle (w_deadline w) (fadd T (Fin 0))"
    using assms(2) by (simp add: close_to_def pymax_def del: fadd_0_right)
  with assms(1) show ?thesis by (simp add: fle_def_order)
next
  case MInf
  then have "fmul (Fin 0) (pymax (fabs (w_deadline w)) (fabs T)) = NaN"
    using assms(2) by (cases "w_deadline w") (auto simp: pymax_def inf_times_def close_to_def)
  with assms(2) MInf show ?thesis by (simp add: close_to_def pymax_def fle_def_order)
next
  case PInf
  then show ?thesis using assms(2) by (cases "w_deadline w") (auto simp: close_to_def)
next
  case NaN
  then show ?thesis by simp
qed

lemma resleep_never: "is_float T \<Longrightarrow> \<not> resleep_at T (Fin 0) (Fin 0) w"
  using close_to_exact by (fastforce simp: resleep_at_def flt_def_order)

lemma due_by_exact: "is_float T \<Longrightarrow> due_by T (Fin 0) (Fin 0) w \<longleftrightarrow> w_deadline w \<le> T"
  using close_to_exact [of T w] resleep_never [of T w] by (auto simp: due_by_def fle_def_order)

section \<open>The instant of one deadline\<close>

lemma latest_same:
  "\<forall>w \<in> set N. w_deadline w = a \<Longrightarrow> latest e N = (if N = [] then e else pymax e a)"
proof (induction N arbitrary: e)
  case (Cons w N)
  then show ?case by (auto simp: pymax_def flt_def_order)
qed simp

lemma strict_gather:
  assumes ci: "clock_inv c" and T: "is_float T" and a: "is_float a" "a \<le> T"
    and ge: "\<forall>v \<in> set (sc_waiters c). a \<le> w_deadline v"
    and old: "\<forall>v \<in> set (sc_waiters c). w_deadline v = a \<longrightarrow> w_seq v < sc_instant_seq c"
  shows "\<exists>W I N. gather_instant T (Fin 0) (Fin 0) a c =
      c\<lparr>sc_waiters := W, sc_instant := I, sc_instant_end := (if N = [] then sc_instant_end c else pymax (sc_instant_end c) a)\<rparr> \<and>
    set W \<subseteq> set (sc_waiters c) \<and> set N \<subseteq> set (sc_waiters c) \<and>
    set I \<subseteq> set (sc_instant c) \<union> entry ` set N \<and>
    (\<forall>w \<in> set N. w_deadline w = a) \<and> (\<forall>w \<in> set W. a < w_deadline w)"
proof -
  let ?z = "Fin 0"
  obtain later c' where run: "fill_instant T ?z ?z a [] c = (later, c')"
    by (cases "fill_instant T ?z ?z a [] c")
  from fill_instant_split [OF run clock_invD(1,2) [OF ci]] obtain W I N D K where
    F: "filled T ?z ?z a c W I N later D K"
    and c': "c' = c\<lparr>sc_waiters := W, sc_deferred := sc_deferred c @ D, sc_instant := I,
           sc_instant_end := latest (sc_instant_end c) N\<rparr>" by auto
  have m: "mset (sc_waiters c) = mset W + mset N + mset later + mset D + K" using F by (simp add: filled_def)
  have "set_mset (mset W + mset N + mset later + mset D + K) = set (sc_waiters c)" unfolding m [symmetric] by simp
  then have sub: "set W \<subseteq> set (sc_waiters c)" "set N \<subseteq> set (sc_waiters c)" "set later \<subseteq> set (sc_waiters c)"
    by auto
  have fl: "is_float (w_deadline v)" if "v \<in> set (sc_waiters c)" for v
    using clock_invD(6) [OF ci] that by (simp add: set_known)
  have at: "w_deadline w = a" if w: "w \<in> set N \<union> set later" for w
  proof -
    have "isclose ?z ?z (w_deadline w) a" using F w unfolding filled_def by blast
    moreover have "is_float (w_deadline w)" using w sub fl by blast
    ultimately show ?thesis using isclose_exact [OF _ a(1)] by blast
  qed
  then have N: "\<forall>w \<in> set N. w_deadline w = a" by simp
  have "later = []"
  proof (rule ccontr)
    assume "later \<noteq> []"
    then obtain v where v: "v \<in> set later" by fastforce
    then have "w_seq v < sc_instant_seq c" using old at [of v] sub(3) by auto
    with v F show False by (auto simp: filled_def)
  qed
  moreover have "D = []"
    using F resleep_never [OF T] by (fastforce simp: filled_def neq_Nil_conv)
  moreover have "\<forall>w \<in> set W. a < w_deadline w"
  proof -
    have W: "waiters_ok W" using F by (simp add: filled_def)
    from fill_instant_end [OF run clock_invD(1,2) [OF ci]] T
    have "(\<forall>w \<in> set W. \<not> fle (w_deadline w) T) \<or>
      (\<exists>w ws. W = w # ws \<and> \<not> isclose ?z ?z (w_deadline w) a)" unfolding c' by auto
    then show ?thesis
    proof
      assume "\<forall>w \<in> set W. \<not> fle (w_deadline w) T"
      with a T show ?thesis by (auto simp: fle_def_order)
    next
      assume "\<exists>w ws. W = w # ws \<and> \<not> isclose ?z ?z (w_deadline w) a"
      then obtain w ws where ws: "W = w # ws" "\<not> isclose ?z ?z (w_deadline w) a" by blast
      have w: "w \<in> set (sc_waiters c)" using sub(1) ws by auto
      have "w_deadline w \<noteq> a" using ws(2) isclose_exact [OF fl [OF w] a(1)] by simp
      then have "a < w_deadline w" using ge w by fastforce
      moreover have "w_deadline w \<le> w_deadline v" if "v \<in> set W" for v
        using waiters_least [of w ws v] W ws(1) that by (simp add: wkey_le_deadline)
      ultimately show ?thesis by fastforce
    qed
  qed
  moreover have "set (drop_cancelled_instant (sc_cancelled c) I) \<subseteq> set (sc_instant c) \<union> entry ` set N"
  proof -
    have I: "instant_ok I" "mset I = mset (sc_instant c) + mset (map entry N)"
      using F by (simp_all add: filled_def)
    have "set_mset (mset I) = set_mset (mset (sc_instant c) + mset (map entry N))" by (simp only: I(2))
    moreover have "set (drop_cancelled_instant (sc_cancelled c) I) \<subseteq> set I"
      using drop_cancelled_instant_spec [OF I(1), of "sc_cancelled c"]
      by (metis set_mset_mset set_mset_union Un_upper1)
    ultimately show ?thesis by auto
  qed
  ultimately show ?thesis using sub N
    by (intro exI [of _ W] exI [of _ "drop_cancelled_instant (sc_cancelled c) I"] exI [of _ N])
      (simp add: gather_instant_def run c' latest_same)
qed

section \<open>The invariant\<close>

text \<open>When an entry may run at the earliest, and the entries a sleep registers.\<close>

definition wake_time :: "waiter \<Rightarrow> pyfloat" where
  "wake_time w = max (w_deadline w) (w_registered_at w)"

definition sleeper :: "waiter \<Rightarrow> bool" where
  "sleeper w \<longleftrightarrow> w_registered_at w < w_deadline w"

lemma wake_time_sleeper: "sleeper w \<Longrightarrow> wake_time w = w_deadline w"
  by (simp add: sleeper_def wake_time_def max_absorb1 less_imp_le)

text \<open>\<open>on_time\<close>: nothing pending was registered later than now, or should have run before now.\<close>

definition on_time :: "sim_clock \<Rightarrow> bool" where
  "on_time c \<longleftrightarrow> (\<forall>w \<in> set (pending c). w_registered_at w \<le> sc_t c \<and> sc_t c \<le> wake_time w)"

definition open_ok :: "sim_clock \<Rightarrow> bool" where
  "open_ok c \<longleftrightarrow> (\<forall>a. sc_anchor c = Some a \<longrightarrow> is_float a \<and> a \<le> sc_t c \<and> sc_instant_end c \<in> {MInf, a} \<and>
     (\<forall>v \<in> set (sc_waiters c). a < w_deadline v) \<and>
     (\<forall>e \<in> set (sc_instant c). w_deadline (snd (snd e)) \<le> sc_t c \<and>
        (sleeper (snd (snd e)) \<longrightarrow> w_deadline (snd (snd e)) = a)))"

definition strict :: "pyfloat \<Rightarrow> sim_clock \<Rightarrow> bool" where
  "strict T c \<longleftrightarrow> adv_inv T (Fin 0) (Fin 0) c \<and> sc_deferred c = [] \<and> on_time c \<and> open_ok c"

text \<open>The clock just before an entry is served: the instant is gathered, time is still to move.\<close>

definition at_instant :: "pyfloat \<Rightarrow> pyfloat \<Rightarrow> sim_clock \<Rightarrow> bool" where
  "at_instant T a c \<longleftrightarrow> adv_inv T (Fin 0) (Fin 0) c \<and> sc_deferred c = [] \<and> on_time c \<and>
     sc_anchor c = Some a \<and> is_float a \<and> a \<le> T \<and> (\<forall>v \<in> set (sc_waiters c). a < w_deadline v) \<and>
     (\<forall>e \<in> set (sc_instant c). sleeper (snd (snd e)) \<longrightarrow> w_deadline (snd (snd e)) = a) \<and>
     (a \<le> sc_t c \<and> sc_instant_end c \<in> {MInf, a} \<and> (\<forall>e \<in> set (sc_instant c). w_deadline (snd (snd e)) \<le> sc_t c) \<or>
      sc_instant_end c = a \<and> (\<forall>e \<in> set (sc_instant c). w_deadline (snd (snd e)) = a))"

lemma set_pending: "set (pending c) =
    set (sc_waiters c) \<union> (snd \<circ> snd) ` set (sc_instant c) \<union> set (sc_deferred c)"
  by (auto simp: pending_def)

lemma set_now_strict:
  assumes at: "at_instant T a c" and top: "sc_instant c = entry w # es"
  shows "strict T (set_now T c) \<and> sc_t (set_now T c) = wake_time w"
proof -
  have inv: "adv_inv T (Fin 0) (Fin 0) c" and a: "is_float a" "a \<le> T" and on: "on_time c"
    using at by (simp_all add: at_instant_def)
  have ci: "clock_inv c" and T: "is_float T" "sc_t c \<le> T" using inv by (simp_all add: adv_inv_def)
  have fl: "is_float (sc_t c)" using clock_invD(7) [OF ci] .
  have e: "sc_instant_end c = MInf \<and> a \<le> sc_t c \<or> sc_instant_end c = a"
    using at by (auto simp: at_instant_def)
  have "pymin T (sc_instant_end c) = sc_instant_end c"
    using e a T by (auto simp: pymin_min min_def intro: order.antisym)
  then have t: "sc_t (set_now T c) = max (sc_t c) a"
    using e a fl by (auto simp: set_now_def pymax_max max_def)
  have "adv_inv T (Fin 0) (Fin 0) (set_now T c)" using set_now_inv [OF inv top] by blast
  moreover have "on_time (set_now T c)"
    using on at t unfolding on_time_def pending_updates set_now_simps
    by (fastforce simp: at_instant_def set_pending wake_time_def max_def intro: order_trans split: if_splits)
  moreover have "open_ok (set_now T c)"
    using at t by (auto simp: open_ok_def at_instant_def)
  ultimately have "strict T (set_now T c)" using at by (simp add: strict_def at_instant_def)
  moreover have "sc_t (set_now T c) = wake_time w"
  proof -
    have w: "w_registered_at w \<le> sc_t c" "sc_t c \<le> wake_time w"
      using on top by (auto simp: on_time_def set_pending entry_def)
    show ?thesis
    proof (cases "a \<le> sc_t c \<and> w_deadline w \<le> sc_t c")
      case True
      with w t show ?thesis by (auto simp: wake_time_def max_def split: if_splits)
    next
      case False
      then have "w_deadline w = a" using at top by (auto simp: at_instant_def entry_def)
      with w t show ?thesis by (auto simp: wake_time_def max_def split: if_splits)
    qed
  qed
  ultimately show ?thesis by blast
qed

section \<open>\<open>_pop_due\<close> under the invariant\<close>

lemma on_time_frame:
  assumes "on_time c" "pop_frame c c'" "sc_t c' = sc_t c"
  shows "on_time c'"
proof -
  have "set (pending c') \<subseteq> set (pending c)"
    using assms(2) unfolding pop_frame_def by (metis set_mset_mono set_mset_mset)
  with assms(1,3) show ?thesis unfolding on_time_def by auto
qed

lemma strict_gathered_old:
  assumes s: "strict T c" and a: "sc_anchor c = Some a"
  shows "at_instant T a (gather_instant T (Fin 0) (Fin 0) a c)"
proof -
  let ?g = "gather_instant T (Fin 0) (Fin 0) a c"
  have inv: "adv_inv T (Fin 0) (Fin 0) c" and on: "on_time c" and ok: "open_ok c"
    using s by (simp_all add: strict_def)
  have ci: "clock_inv c" and T: "is_float T" "sc_t c \<le> T" using inv by (simp_all add: adv_inv_def)
  have A: "is_float a" "a \<le> sc_t c" "sc_instant_end c \<in> {MInf, a}" "\<forall>v \<in> set (sc_waiters c). a < w_deadline v"
    "\<forall>e \<in> set (sc_instant c). w_deadline (snd (snd e)) \<le> sc_t c \<and>
      (sleeper (snd (snd e)) \<longrightarrow> w_deadline (snd (snd e)) = a)"
    using ok a by (simp_all add: open_ok_def)
  have aT: "a \<le> T" using A(2) T(2) by (rule order_trans)
  have "\<forall>v \<in> set (sc_waiters c). a \<le> w_deadline v"
    "\<forall>v \<in> set (sc_waiters c). w_deadline v = a \<longrightarrow> w_seq v < sc_instant_seq c"
    using A(4) by fastforce+
  from strict_gather [OF ci T(1) A(1) aT this] obtain W I N where
    g: "?g = c\<lparr>sc_waiters := W, sc_instant := I, sc_instant_end :=
        (if N = [] then sc_instant_end c else pymax (sc_instant_end c) a)\<rparr>"
    and N: "set N \<subseteq> set (sc_waiters c)" "\<forall>w \<in> set N. w_deadline w = a"
    and W: "\<forall>w \<in> set W. a < w_deadline w" and I: "set I \<subseteq> set (sc_instant c) \<union> entry ` set N"
    by blast
  have "N = []"
  proof (rule ccontr)
    assume "N \<noteq> []"
    then obtain v where "v \<in> set N" by fastforce
    with N A(4) show False by fastforce
  qed
  note gi = gather_instant_inv [OF inv a]
  have "on_time ?g" using on gi on_time_frame by blast
  with gi g W I A aT s \<open>N = []\<close> show ?thesis by (auto simp: at_instant_def strict_def)
qed

lemma strict_gathered_new:
  assumes s: "strict T c" and none: "sc_anchor c = None"
    and run: "open_instant T (Fin 0) (Fin 0) c = (Some a, c1)"
  shows "at_instant T a (gather_instant T (Fin 0) (Fin 0) a c1)"
proof -
  let ?g = "gather_instant T (Fin 0) (Fin 0) a c1"
  have inv: "adv_inv T (Fin 0) (Fin 0) c" and on: "on_time c" using s by (simp_all add: strict_def)
  have ci: "clock_inv c" and T: "is_float T" using inv by (simp_all add: adv_inv_def)
  note o = open_instant_inv [OF inv run]
  from run none obtain w c0 where hd: "heap_due T (Fin 0) (Fin 0) c = (Some w, c0)"
    and a: "a = w_deadline w" and c1: "c1 = c0\<lparr>sc_anchor := Some a, sc_instant_end := MInf,
                   sc_instant_seq := sc_seq c0, sc_seq := Suc (sc_seq c0)\<rparr>"
    by (auto simp: open_instant_def split: option.splits prod.splits)
  obtain W0 D K where c0: "c0 = c\<lparr>sc_waiters := W0, sc_deferred := sc_deferred c @ D\<rparr>" "waiters_ok W0"
    and m: "mset (sc_waiters c) = mset W0 + mset D + K"
    and D: "\<forall>w \<in> set D. resleep_at T (Fin 0) (Fin 0) w"
    using heap_due_split [OF hd clock_invD(1) [OF ci]] by blast
  have nil: "D = []" using D resleep_never [OF T] by (cases D) auto
  obtain ws where ws: "W0 = w # ws" and due: "fle (w_deadline w) T \<or> close_to T (Fin 0) (Fin 0) w"
    using heap_due_Some [OF hd] c0 by auto
  have W0: "set W0 \<subseteq> set (sc_waiters c)" using m by (metis set_mset_mset set_mset_union Un_assoc Un_upper1)
  have ci1: "clock_inv c1" using o by (simp add: adv_inv_def)
  have kn: "w_seq v < sc_seq c \<and> is_float (w_deadline v)" if "v \<in> set W0" for v
    using clock_invD(5,6) [OF ci, of v] W0 that by (auto simp: set_known)
  have fa: "is_float a" using kn [of w] ws a by simp
  have aT: "a \<le> T" using due_by_exact [OF T, of w] resleep_never [OF T, of w] due a by (auto simp: due_by_def)
  have ge: "\<forall>v \<in> set (sc_waiters c1). a \<le> w_deadline v"
    using waiters_least [of w ws] c0 ws c1 a by (auto intro: wkey_le_deadline)
  have old: "\<forall>v \<in> set (sc_waiters c1). w_deadline v = a \<longrightarrow> w_seq v < sc_instant_seq c1"
    using kn c0 c1 by simp
  from strict_gather [OF ci1 T fa aT ge old] obtain W I N where
    g: "?g = c1\<lparr>sc_waiters := W, sc_instant := I, sc_instant_end :=
        (if N = [] then sc_instant_end c1 else pymax (sc_instant_end c1) a)\<rparr>"
    and N: "\<forall>w \<in> set N. w_deadline w = a"
    and W: "\<forall>w \<in> set W. a < w_deadline w" and I: "set I \<subseteq> set (sc_instant c1) \<union> entry ` set N"
    by blast
  have empty: "sc_instant c1 = []" using o none ci by (auto simp: clock_inv_def)
  have "I \<noteq> []" using open_gather_nonempty [OF ci none run] g by simp
  then have "N \<noteq> []" using I empty by auto
  have inv1: "adv_inv T (Fin 0) (Fin 0) c1" "sc_anchor c1 = Some a" using o by simp_all
  note gi = gather_instant_inv [OF inv1]
  have on': "on_time ?g" using on o gi on_time_frame pop_frame_trans by metis
  have "pymax MInf a = a" using fa by (auto simp: pymax_def flt_def_order not_less intro: order.antisym)
  then have e: "sc_instant_end ?g = a" "\<forall>e \<in> set (sc_instant ?g). w_deadline (snd (snd e)) = a"
    "sc_deferred ?g = []" "\<forall>v \<in> set (sc_waiters ?g). a < w_deadline v"
    using g c1 c0 nil \<open>N \<noteq> []\<close> I N W empty s by (auto simp: strict_def entry_def)
  show ?thesis unfolding at_instant_def using gi on' e fa aT by blast
qed

lemma strict_pop_turn:
  assumes s: "strict T c"
  shows "(\<exists>c'. pop_due T (Fin 0) (Fin 0) peek c = Some (None, c') \<and> strict T c') \<or>
    (\<exists>w a c2 es. at_instant T a c2 \<and> pop_frame c c2 \<and> sc_instant c2 = entry w # es \<and>
       pop_due T (Fin 0) (Fin 0) peek c = Some (Some w, serve_top peek (set_now T c2))) \<or>
    (\<exists>d. strict T d \<and> pop_frame c d \<and> sc_anchor d = None \<and> sc_anchor c \<noteq> None \<and>
       pop_due T (Fin 0) (Fin 0) peek c = pop_due T (Fin 0) (Fin 0) peek d)"
proof -
  have inv: "adv_inv T (Fin 0) (Fin 0) c" and on: "on_time c" using s by (simp_all add: strict_def)
  have ci: "clock_inv c" and T: "is_float T" using inv by (simp_all add: adv_inv_def)
  obtain r c1 where op: "open_instant T (Fin 0) (Fin 0) c = (r, c1)"
    by (cases "open_instant T (Fin 0) (Fin 0) c")
  note o = open_instant_inv [OF inv op]
  show ?thesis
  proof (cases r)
    case None
    have anchor: "sc_anchor c = None"
      using op None by (auto simp: open_instant_def split: option.splits)
    obtain W D where hd: "c1 = c\<lparr>sc_waiters := W, sc_deferred := sc_deferred c @ D\<rparr>"
      "\<forall>w \<in> set D. resleep_at T (Fin 0) (Fin 0) w"
    proof -
      have "heap_due T (Fin 0) (Fin 0) c = (None, c1)"
        using op None anchor by (auto simp: open_instant_def split: option.splits prod.splits)
      from heap_due_split [OF this clock_invD(1) [OF ci]] that show ?thesis by blast
    qed
    then have "D = []" using resleep_never [OF T] by (cases D) auto
    moreover have "on_time c1" using on o on_time_frame by blast
    moreover have "sc_deferred c1 = sc_deferred c @ D" "sc_anchor c1 = None" using hd(1) anchor by simp_all
    ultimately have "strict T c1" using o s by (simp add: strict_def open_ok_def)
    then show ?thesis using pop_due_none op None by blast
  next
    case (Some a)
    let ?g = "gather_instant T (Fin 0) (Fin 0) a c1"
    have at: "at_instant T a ?g"
    proof (cases "sc_anchor c")
      case None
      with strict_gathered_new [OF s] op Some show ?thesis by simp
    next
      case (Some b)
      with op \<open>r = Some a\<close> have "c1 = c" "b = a" by (simp_all add: open_instant_def)
      with strict_gathered_old [OF s] Some show ?thesis by simp
    qed
    have inv1: "adv_inv T (Fin 0) (Fin 0) c1" "sc_anchor c1 = Some a" using o Some by simp_all
    have frame: "pop_frame c ?g" "sc_t ?g = sc_t c"
      using o gather_instant_inv [OF inv1] pop_frame_trans by auto
    show ?thesis
    proof (cases "sc_instant ?g")
      case Nil
      have "sc_anchor c \<noteq> None" using open_gather_nonempty [OF ci _ op [unfolded Some]] Nil by blast
      moreover have "strict T (?g\<lparr>sc_anchor := None\<rparr>)"
        using at Nil reset_anchor_inv by (auto simp: at_instant_def strict_def open_ok_def on_time_def pending_def)
      moreover have "pop_frame c (?g\<lparr>sc_anchor := None\<rparr>)"
        using frame(1) reset_anchor_frame pop_frame_trans by blast
      moreover have "pop_due T (Fin 0) (Fin 0) peek c = pop_due T (Fin 0) (Fin 0) peek (?g\<lparr>sc_anchor := None\<rparr>)"
        using pop_due_again op Some Nil by simp
      ultimately show ?thesis by (intro disjI2 exI [of _ "?g\<lparr>sc_anchor := None\<rparr>"]) simp
    next
      case (Cons e es)
      have "clock_inv ?g" using at by (simp add: at_instant_def adv_inv_def)
      then have e: "e = entry (snd (snd e))" using Cons by (simp add: clock_inv_def)
      have "pop_due T (Fin 0) (Fin 0) peek c = Some (Some (snd (snd e)), serve_top peek (set_now T ?g))"
        using pop_due_serve op Some Cons by simp
      with at frame Cons e show ?thesis by metis
    qed
  qed
qed

lemma strict_pop:
  assumes s: "strict T c" and run: "pop_due T (Fin 0) (Fin 0) peek c = Some (r, c')"
  shows "(r = None \<longrightarrow> strict T c') \<and> (\<forall>w. r = Some w \<longrightarrow>
    (\<exists>a c2 es. at_instant T a c2 \<and> pop_frame c c2 \<and> sc_instant c2 = entry w # es \<and>
       c' = serve_top peek (set_now T c2)))"
proof (cases "\<exists>d. strict T d \<and> pop_frame c d \<and> sc_anchor d = None \<and> sc_anchor c \<noteq> None \<and>
       pop_due T (Fin 0) (Fin 0) peek c = pop_due T (Fin 0) (Fin 0) peek d")
  case False
  with strict_pop_turn [OF s, of peek] run show ?thesis by fastforce
next
  case True
  then obtain d where d: "strict T d" "pop_frame c d" "sc_anchor d = None"
    "pop_due T (Fin 0) (Fin 0) peek d = Some (r, c')" using run by auto
  from strict_pop_turn [OF d(1), of peek] d(3,4) show ?thesis
    using pop_frame_trans [OF d(2)] by fastforce
qed

section \<open>What is served, when and in which order\<close>

text \<open>Exactness of every wake, and the order of the sleepers among themselves.\<close>

definition before :: "waiter \<Rightarrow> waiter \<Rightarrow> bool" where
  "before u v \<longleftrightarrow> wkey u < wkey v"

definition sleepers_served :: "sim_clock \<Rightarrow> sim_clock \<Rightarrow> waiter list" where
  "sleepers_served c0 c = filter sleeper (map fst (served_since c0 c))"

definition punctual :: "sim_clock \<Rightarrow> sim_clock \<Rightarrow> bool" where
  "punctual c0 c \<longleftrightarrow>
     sc_woken c = sc_woken c0 @ served_since c0 c \<and>
     (\<forall>(w, n) \<in> set (served_since c0 c). n = wake_time w \<and> n \<le> sc_t c) \<and>
     sorted_wrt before (sleepers_served c0 c) \<and>
     (\<forall>u \<in> set (sleepers_served c0 c). \<forall>v \<in> set (pending c). sleeper v \<longrightarrow> before u v)"

definition strict_run :: "pyfloat \<Rightarrow> sim_clock \<Rightarrow> sim_clock \<Rightarrow> bool" where
  "strict_run T c0 c \<longleftrightarrow> strict T c \<and> punctual c0 c"

lemma punctual_frame:
  assumes "punctual c0 c" "sc_woken c' = sc_woken c" "sc_t c \<le> sc_t c'" "set (pending c') \<subseteq> set (pending c)"
  shows "punctual c0 c'"
proof -
  have "served_since c0 c' = served_since c0 c" using assms(2) by (simp add: served_since_def)
  then show ?thesis using assms unfolding punctual_def sleepers_served_def by (auto intro: order_trans)
qed

lemma punctual_add:
  assumes p: "punctual c0 c" and same: "sc_woken c' = sc_woken c" "sc_t c' = sc_t c"
    and new: "set (pending c') \<subseteq> insert w (set (pending c))" and w: "w_registered_at w = sc_t c"
  shows "punctual c0 c'"
proof -
  have served: "served_since c0 c' = served_since c0 c" using same(1) by (simp add: served_since_def)
  have "before u w" if u: "u \<in> set (sleepers_served c0 c)" and "sleeper w" for u
  proof -
    obtain n where n: "(u, n) \<in> set (served_since c0 c)" "sleeper u"
      using u by (auto simp: sleepers_served_def)
    then have "w_deadline u \<le> sc_t c" using p by (auto simp: punctual_def wake_time_sleeper)
    also have "\<dots> < w_deadline w" using that(2) w by (simp add: sleeper_def)
    finally show ?thesis by (simp add: before_def wkey_def less_prod_def)
  qed
  moreover have "before u v"
    if "u \<in> set (sleepers_served c0 c)" "v \<in> set (pending c)" "sleeper v" for u v
    using p that by (simp add: punctual_def)
  ultimately have "\<forall>u \<in> set (sleepers_served c0 c). \<forall>v \<in> set (pending c'). sleeper v \<longrightarrow> before u v"
    using new by blast
  moreover have "sleepers_served c0 c' = sleepers_served c0 c" by (simp add: sleepers_served_def served)
  ultimately show ?thesis using p by (simp add: punctual_def served same)
qed

lemma strict_task:
  assumes run: "strict_run T c0 c" and step: "api_step c c'"
  shows "strict_run T c0 c'"
proof -
  have inv: "adv_inv T (Fin 0) (Fin 0) c" and s: "sc_deferred c = []" "on_time c" "open_ok c" and p: "punctual c0 c"
    using run by (simp_all add: strict_run_def strict_def)
  have inv': "adv_inv T (Fin 0) (Fin 0) c'" using step inv by (rule api_step_adv_inv)
  have new: "on_time c' \<and> punctual c0 c'"
    if "set (pending c') \<subseteq> insert w (set (pending c))" "w_registered_at w = sc_t c" for w
  proof
    have "sc_t c \<le> wake_time w" using that(2) by (simp add: wake_time_def)
    then show "on_time c'" using s(2) that api_step_frame(1) [OF step] by (auto simp: on_time_def)
    show "punctual c0 c'" using punctual_add [OF p _ _ that] api_step_frame(1,2) [OF step] by simp
  qed
  have old: "on_time c' \<and> punctual c0 c'" if "set (pending c') \<subseteq> set (pending c)"
    using that s(2) punctual_frame [OF p _ _ that] api_step_frame(1,2) [OF step] by (auto simp: on_time_def)
  have "on_time c' \<and> punctual c0 c' \<and> open_ok c'"
    using step
  proof (cases rule: api_step_cases)
    case same
    with s p show ?thesis by simp
  next
    case (push w)
    have "sc_t c \<noteq> NaN" using inv by (simp add: adv_inv_def clock_inv_def)
    then have "open_ok c'" using s(3) push by (auto simp: open_ok_def fle_def_order not_le)
    moreover have "set (pending c') \<subseteq> insert w (set (pending c))" using push by (auto simp: set_pending)
    ultimately show ?thesis using new push by blast
  next
    case (join w)
    have "open_ok c'" using s(3) join by (auto simp: open_ok_def fle_def_order entry_def sleeper_def)
    moreover have "set (pending c') \<subseteq> insert w (set (pending c))" using join by (auto simp: set_pending entry_def)
    ultimately show ?thesis using new join by blast
  next
    case (leave k)
    have "set (drop_cancelled_tops K (sc_waiters c)) \<subseteq> set (sc_waiters c)" for K
      using drop_cancelled_tops_spec [of "sc_waiters c" K] inv
      by (metis Un_upper1 adv_inv_def clock_invD(1) set_mset_mset set_mset_union)
    then have "open_ok c'" "set (pending c') \<subseteq> set (pending c)"
      using s(3) leave by (auto simp: open_ok_def set_pending)
    with old show ?thesis by blast
  next
    case (cancel k)
    have "open_ok c'" "set (pending c') \<subseteq> set (pending c)"
      using s(3) cancel by (auto simp: open_ok_def set_pending)
    with old show ?thesis by blast
  qed
  then show ?thesis using inv' s(1) api_step_frame(6) [OF step] by (simp add: strict_run_def strict_def)
qed

lemma before_rest:
  assumes at: "at_instant T a c" and top: "sc_instant c = entry w # es"
    and order: "\<forall>e \<in> set (sc_instant (serve_top False c)). in_order w (snd (snd e))"
    and v: "v \<in> set (pending (serve_top False (set_now T c)))" and sl: "sleeper w" "sleeper v"
  shows "before w v"
proof -
  have pend: "set (pending (serve_top False (set_now T c))) \<subseteq> set (pending c)"
    using top by (auto simp: set_pending serve_top_def)
  have now: "sc_t (set_now T c) = w_deadline w"
    using set_now_strict [OF at top] wake_time_sleeper [OF sl(1)] by simp
  have strict: "on_time (set_now T c)" using set_now_strict [OF at top] by (simp add: strict_def)
  have "v \<in> set (pending (set_now T c))" using v pend by auto
  then have le: "w_deadline w \<le> w_deadline v"
    using strict now wake_time_sleeper [OF sl(2)] by (auto simp: on_time_def)
  have "sc_deferred c = []" using at by (simp add: at_instant_def)
  then consider "v \<in> set (sc_waiters c)" | e where "e \<in> set (sc_instant (serve_top False c))" "v = snd (snd e)"
    using v by (auto simp: set_pending serve_top_def)
  then show ?thesis
  proof cases
    case 1
    then have "a < w_deadline v" using at by (simp add: at_instant_def)
    moreover have "w_deadline w = a" using at top sl(1) by (simp add: at_instant_def entry_def)
    ultimately show ?thesis by (simp add: before_def wkey_def less_prod_def)
  next
    case 2
    with order have "in_order w v" by blast
    with le show ?thesis by (auto simp: before_def wkey_def in_order_def less_prod_def)
  qed
qed

lemma open_ok_frame:
  assumes "open_ok c" "set (sc_instant c') \<subseteq> set (sc_instant c)" "sc_anchor c' = sc_anchor c"
    "sc_t c' = sc_t c" "sc_waiters c' = sc_waiters c" "sc_instant_end c' = sc_instant_end c"
  shows "open_ok c'"
  using assms by (simp add: open_ok_def) blast

lemma strict_serve:
  assumes run: "strict_run T c0 c" and pop: "pop_due T (Fin 0) (Fin 0) False c = Some (Some w, c')"
  shows "strict_run T c0 (log_wake w c')"
proof -
  have s: "strict T c" and p: "punctual c0 c" using run by (simp_all add: strict_run_def)
  have inv: "adv_inv T (Fin 0) (Fin 0) c" using s by (simp add: strict_def)
  from strict_pop [OF s pop] obtain a c2 es where at: "at_instant T a c2" and frame: "pop_frame c c2"
    and top: "sc_instant c2 = entry w # es" and c': "c' = serve_top False (set_now T c2)" by blast
  let ?d = "set_now T c2"
  let ?c = "log_wake w (serve_top False ?d)"
  note now = set_now_strict [OF at top]
  have woke: "woke T (Fin 0) (Fin 0) c w ?c" using pop_due_wake [OF inv pop] c' by simp
  have sub: "set (pending ?d) \<subseteq> set (pending c)"
    using frame unfolding pop_frame_def set_now_simps by (metis set_mset_mono set_mset_mset)
  have sub': "set (pending ?c) \<subseteq> set (pending ?d)" and w: "w \<in> set (pending ?d)"
    using top by (auto simp: set_pending serve_top_def log_wake_def entry_def)
  have "on_time ?c" using now sub' by (auto simp: strict_def on_time_def)
  moreover have "open_ok ?c"
  proof (rule open_ok_frame)
    show "open_ok ?d" using now by (simp add: strict_def)
    show "set (sc_instant ?c) \<subseteq> set (sc_instant ?d)" using top by (auto simp: log_wake_def serve_top_def)
  qed simp_all
  ultimately have "strict T ?c" using now woke by (simp add: strict_def woke_def)
  moreover have "punctual c0 ?c"
  proof -
    have since: "served_since c0 ?c = served_since c0 c @ [(w, sc_t ?c)]"
    proof -
      have "length (sc_woken c0) \<le> length (sc_woken c)"
        using p unfolding punctual_def by (metis length_append le_add1)
      then show ?thesis using woke by (simp add: served_since_def woke_def)
    qed
    have t: "sc_t ?c = wake_time w" "sc_t c \<le> sc_t ?c" using now woke by (simp_all add: woke_def)
    have "\<forall>(v, n) \<in> set (served_since c0 ?c). n = wake_time v \<and> n \<le> sc_t ?c"
      using p t unfolding since by (auto simp: punctual_def intro: order_trans)
    moreover have old: "before u v"
      if "u \<in> set (sleepers_served c0 c)" "v \<in> set (pending ?d)" "sleeper v" for u v
      using p that sub by (auto simp: punctual_def)
    then have "sorted_wrt before (sleepers_served c0 ?c)"
      using p w unfolding sleepers_served_def since
      by (auto simp: sorted_wrt_append punctual_def sleepers_served_def)
    moreover have "before u v"
      if u: "u \<in> set (sleepers_served c0 ?c)" and v: "v \<in> set (pending ?c)" "sleeper v" for u v
    proof (cases "u \<in> set (sleepers_served c0 c)")
      case True
      with old v sub' show ?thesis by blast
    next
      case False
      then have "u = w" "sleeper w" using u by (auto simp: sleepers_served_def since split: if_splits)
      moreover have "\<forall>e \<in> set (sc_instant (serve_top False c2)). in_order w (snd (snd e))"
        using woke by (simp add: woke_def log_wake_def serve_top_def)
      moreover have "v \<in> set (pending (serve_top False ?d))" using v by (simp add: log_wake_def pending_def)
      ultimately show ?thesis using before_rest [OF at top] v(2) by blast
    qed
    moreover have "sc_woken ?c = sc_woken c0 @ served_since c0 ?c"
      using p unfolding since by (simp add: punctual_def) (use woke in \<open>simp add: woke_def\<close>)
    ultimately show ?thesis by (simp add: punctual_def)
  qed
  ultimately show ?thesis using c' by (simp add: strict_run_def)
qed

interpretation exact: advance_rule api_step "strict_run T c0" "strict_run T c0" T "Fin 0" "Fin 0"
  for T c0
proof unfold_locales
  fix c c' w
  show "strict_run T c0 c'" if "strict_run T c0 c" "api_step c c'" using that by (rule strict_task)
  show "strict_run T c0 (log_wake w c')"
    if "strict_run T c0 c" "pop_due T (Fin 0) (Fin 0) False c = Some (Some w, c')"
    using that by (rule strict_serve)
  have none: "strict_run T c0 c'"
    if "strict_run T c0 c" "pop_due T (Fin 0) (Fin 0) p c = Some (None, c')" for p
  proof -
    have "adv_inv T (Fin 0) (Fin 0) c" using that(1) by (simp add: strict_run_def strict_def)
    from pop_due_outcome [OF this that(2)] have f: "pop_frame c c'" "sc_t c' = sc_t c" by simp_all
    then have "set (pending c') \<subseteq> set (pending c)"
      unfolding pop_frame_def by (metis set_mset_mono set_mset_mset)
    then have "punctual c0 c'" using that(1) f punctual_frame [of c0 c c']
      by (simp add: strict_run_def pop_frame_def)
    moreover have "strict T c'" using strict_pop [OF _ that(2)] that(1) by (simp add: strict_run_def)
    ultimately show ?thesis by (simp add: strict_run_def)
  qed
  show "strict_run T c0 c'"
    if "strict_run T c0 c" "pop_due T (Fin 0) (Fin 0) False c = Some (None, c')" using that by (rule none)
  show "strict_run T c0 c'"
    if "strict_run T c0 c" "pop_due T (Fin 0) (Fin 0) True c = Some (None, c')" using that by (rule none)
  show "strict_run T c0 c'"
    if "strict_run T c0 c" "pop_due T (Fin 0) (Fin 0) True c = Some (Some w, c')"
  proof -
    have s: "strict T c" and p: "punctual c0 c" using that(1) by (simp_all add: strict_run_def)
    from strict_pop [OF s that(2)] obtain a c2 es where at: "at_instant T a c2" and frame: "pop_frame c c2"
      and top: "sc_instant c2 = entry w # es" and c': "c' = set_now T c2" by (auto simp: serve_top_def)
    have "set (pending c') \<subseteq> set (pending c)"
      using frame unfolding pop_frame_def c' set_now_simps by (metis set_mset_mono set_mset_mset)
    moreover have "sc_t c \<le> sc_t c'"
    proof -
      have "adv_inv T (Fin 0) (Fin 0) c" using s by (simp add: strict_def)
      from pop_due_peek [OF this that(2)] show ?thesis by blast
    qed
    ultimately have "punctual c0 c'" using p frame punctual_frame [of c0 c c'] c'
      by (simp add: pop_frame_def)
    with set_now_strict [OF at top] c' show ?thesis by (simp add: strict_run_def)
  qed
qed simp_all

lemma strict_begin:
  assumes "idle_clock c" "is_float T" "sc_t c \<le> T" "on_time c"
  shows "strict_run T c (c\<lparr>sc_advancing := True\<rparr>)"
proof -
  have "adv_inv T (Fin 0) (Fin 0) (c\<lparr>sc_advancing := True\<rparr>)"
    using begin_at_rest [OF assms(1-3)] by (simp add: at_rest_def progress_def)
  with assms show ?thesis
    by (simp add: strict_run_def strict_def punctual_def served_since_def sleepers_served_def
        idle_clock_def open_ok_def on_time_def)
qed

text \<open>A whole advance with both tolerances zero.\<close>

lemma advance_to_strict:
  assumes idle: "idle_clock (snd s)" and on: "on_time (snd s)" and T: "is_float T" "sc_t (snd s) \<le> T"
    and call: "1 \<le> max_settles" and acts: "host_acts api_step h settle"
    and run: "advance_to h settle max_settles T (Fin 0) (Fin 0) s = Some (r, s')"
  shows "(\<forall>(w, n) \<in> set (served_since (snd s) (snd s')). n = wake_time w) \<and>
    sorted_wrt before (sleepers_served (snd s) (snd s')) \<and> on_time (snd s')"
proof -
  have vc: "valid_call max_settles (Fin 0) (Fin 0)" using call by (simp add: valid_call_def)
  from advance_to_body [OF idle T vc run] obtain x s1 where
    body: "advance_body h settle (nat max_settles) T (Fin 0) (Fin 0) (fst s, (snd s)\<lparr>sc_advancing := True\<rparr>) = Some (x, s1)"
    and s': "\<And>e. r = Inl e \<Longrightarrow> snd s' = end_advance (snd s1)"
      "r = Inr () \<Longrightarrow> snd s' = (end_advance (snd s1))\<lparr>sc_t := T\<rparr>" by blast
  have run1: "strict_run T (snd s) (snd s1)"
    using exact.body_ends [OF body acts] strict_begin [OF idle T on] by (simp add: exact.ends_def)
  then have p: "punctual (snd s) (snd s1)" and o: "on_time (snd s1)" by (simp_all add: strict_run_def strict_def)
  have same: "sc_woken (snd s') = sc_woken (snd s1)" "set (pending (snd s')) = set (pending (snd s1))"
    using s' by (cases r; simp)+
  have "on_time (snd s')"
  proof (cases r)
    case (Inl e)
    with s' o show ?thesis by (simp add: on_time_def)
  next
    case (Inr u)
    have le: "sc_t (snd s1) \<le> T" using run1 by (simp add: strict_run_def strict_def adv_inv_def)
    have t: "sc_t (snd s') = T" using Inr s' by simp
    have "T < w_deadline w" if "w \<in> set (pending (snd s'))" for w
      using advance_to_run [OF idle T vc acts run] that Inr by auto
    moreover have "w_registered_at w \<le> T" if "w \<in> set (pending (snd s'))" for w
      using that same o le by (auto simp: on_time_def intro: order_trans)
    ultimately show ?thesis by (simp add: on_time_def t wake_time_def le_max_iff_disj less_imp_le)
  qed
  moreover have "served_since (snd s) (snd s') = served_since (snd s) (snd s1)"
    using same by (simp add: served_since_def)
  ultimately show ?thesis using p by (auto simp: punctual_def sleepers_served_def)
qed

section \<open>When no task interferes\<close>

text \<open>
  With a host that leaves the clock alone an advance is a function of the pending entries: it
  serves the live ones due by \<open>T\<close>, sorted.
\<close>

definition quiet_run :: "pyfloat \<Rightarrow> sim_clock \<Rightarrow> sim_clock \<Rightarrow> bool" where
  "quiet_run T c0 c \<longleftrightarrow> adv_inv T (Fin 0) (Fin 0) c \<and> sc_cancelled c = sc_cancelled c0 \<and>
     sc_woken c = sc_woken c0 @ served_since c0 c \<and>
     set (pending c) \<union> fst ` set (served_since c0 c) \<subseteq> set (pending c0) \<and>
     (\<forall>(w, n) \<in> set (served_since c0 c). n \<le> sc_t c)"

interpretation quiet: advance_rule "(=)" "quiet_run T c0" "quiet_run T c0" T "Fin 0" "Fin 0"
  for T c0
proof unfold_locales
  fix c c' w
  have frame: "quiet_run T c0 c'"
    if q: "quiet_run T c0 c" and f: "pop_frame c c'" "adv_inv T (Fin 0) (Fin 0) c'" "sc_t c \<le> sc_t c'"
  proof -
    have "set (pending c') \<subseteq> set (pending c)"
      using f(1) unfolding pop_frame_def by (metis set_mset_mono set_mset_mset)
    moreover have "served_since c0 c' = served_since c0 c"
      using f(1) by (simp add: served_since_def pop_frame_def)
    ultimately show ?thesis using q f by (fastforce simp: quiet_run_def pop_frame_def intro: order_trans)
  qed
  have none: "quiet_run T c0 c'"
    if "quiet_run T c0 c" "pop_due T (Fin 0) (Fin 0) p c = Some (None, c')" for p
    using pop_due_outcome [OF _ that(2)] that(1) frame by (simp add: quiet_run_def)
  show "quiet_run T c0 c'" if "quiet_run T c0 c" "c = c'" using that by simp
  show "quiet_run T c0 c'"
    if "quiet_run T c0 c" "pop_due T (Fin 0) (Fin 0) False c = Some (None, c')" using that by (rule none)
  show "quiet_run T c0 c'"
    if "quiet_run T c0 c" "pop_due T (Fin 0) (Fin 0) True c = Some (None, c')" using that by (rule none)
  show "quiet_run T c0 c'"
    if "quiet_run T c0 c" "pop_due T (Fin 0) (Fin 0) True c = Some (Some w, c')"
    using pop_due_peek [OF _ that(2)] that(1) frame by (simp add: quiet_run_def)
  show "quiet_run T c0 (log_wake w c')"
    if q: "quiet_run T c0 c" and pop: "pop_due T (Fin 0) (Fin 0) False c = Some (Some w, c')"
  proof -
    let ?c = "log_wake w c'"
    have woke: "woke T (Fin 0) (Fin 0) c w ?c" using pop_due_wake [OF _ pop] q by (simp add: quiet_run_def)
    have "length (sc_woken c0) \<le> length (sc_woken c)"
      using q unfolding quiet_run_def by (metis length_append le_add1)
    then have since: "served_since c0 ?c = served_since c0 c @ [(w, sc_t ?c)]"
      using woke by (simp add: served_since_def woke_def)
    have "set_mset (add_mset w (mset (pending ?c))) \<subseteq> set_mset (mset (pending c))"
      using woke set_mset_mono unfolding woke_def by blast
    then have "insert w (set (pending ?c)) \<subseteq> set (pending c)" by simp
    then show ?thesis using q woke since by (fastforce simp: quiet_run_def woke_def intro: order_trans)
  qed
qed simp_all

lemma quiet_acts: "host_acts (=) h settle \<Longrightarrow> host_acts api_step h settle"
proof -
  have "api_step\<^sup>*\<^sup>* c c'" if "(=)\<^sup>*\<^sup>* c c'" for c c'
    using that by (induction rule: rtranclp_induct) auto
  then show "host_acts (=) h settle \<Longrightarrow> host_acts api_step h settle"
    unfolding host_acts_def acts_def by blast
qed

lemma filter_the: "distinct zs \<Longrightarrow> k \<in> set zs \<Longrightarrow> filter ((=) k) zs = [k]"
proof (induction zs)
  case (Cons z zs)
  show ?case
  proof (cases "z = k")
    case True
    with Cons.prems(1) have "filter ((=) k) zs = []" by (auto simp: filter_empty_conv)
    with True show ?thesis by simp
  next
    case False
    with Cons show ?thesis by simp
  qed
qed simp

lemma sort_key_unique:
  assumes "sorted_wrt (\<lambda>x y. f x < f y) xs" "set xs = set ys" "distinct ys"
  shows "xs = sort_key (f :: 'a \<Rightarrow> 'b :: linorder) ys"
proof -
  have d: "distinct (map f xs)" "sorted (map f xs)"
    using assms(1) by (induction xs) (auto simp: less_imp_le)
  have inj: "inj_on f (set ys)" using d(1) assms(2) by (simp add: distinct_map)
  have m: "mset xs = mset ys"
    using d(1) assms(2,3) by (simp add: distinct_map set_eq_iff_mset_eq_distinct)
  show ?thesis
  proof (rule properties_for_sort_key [symmetric, OF m _ d(2)])
    fix k assume k: "k \<in> set xs"
    have one: "filter (\<lambda>x. f k = f x) zs = [k]" if "set zs = set ys" "distinct zs" for zs
    proof -
      have "filter (\<lambda>x. f k = f x) zs = filter ((=) k) zs"
        using inj k assms(2) that(1) by (intro filter_cong refl) (auto simp: inj_on_def)
      also have "\<dots> = [k]" using that(2) k assms(2) that(1) by (simp add: filter_the)
      finally show ?thesis .
    qed
    show "filter (\<lambda>x. f k = f x) xs = filter (\<lambda>x. f k = f x) ys"
      using one [OF assms(2)] one [OF refl assms(3)] d(1) by (simp add: distinct_map)
  qed
qed

lemma advance_to_quiet:
  assumes idle: "idle_clock (snd s)" and on: "on_time (snd s)" and sl: "\<forall>w \<in> set (sc_waiters (snd s)). sleeper w"
    and T: "is_float T" "sc_t (snd s) \<le> T" and call: "1 \<le> max_settles" and acts: "host_acts (=) h settle"
    and run: "advance_to h settle max_settles T (Fin 0) (Fin 0) s = Some (Inr (), s')"
  shows "served_since (snd s) (snd s') =
    map (\<lambda>w. (w, w_deadline w)) (sort_key wkey
      (filter (\<lambda>w. \<not> is_cancelled (snd s) w \<and> w_deadline w \<le> T) (sc_waiters (snd s))))"
proof -
  let ?c0 = "snd s" and ?new = "served_since (snd s) (snd s')"
  let ?due = "filter (\<lambda>w. \<not> is_cancelled ?c0 w \<and> w_deadline w \<le> T) (sc_waiters ?c0)"
  have vc: "valid_call max_settles (Fin 0) (Fin 0)" using call by (simp add: valid_call_def)
  note api = quiet_acts [OF acts]
  from advance_to_body [OF idle T vc run] obtain x s1 where
    body: "advance_body h settle (nat max_settles) T (Fin 0) (Fin 0) (fst s, ?c0\<lparr>sc_advancing := True\<rparr>) = Some (x, s1)"
    and s': "snd s' = (end_advance (snd s1))\<lparr>sc_t := T\<rparr>" by blast
  have start: "quiet_run T ?c0 (?c0\<lparr>sc_advancing := True\<rparr>)"
    using begin_at_rest [OF idle T, of "Fin 0" "Fin 0"]
    by (simp add: quiet_run_def at_rest_def progress_def served_since_def)
  have q: "quiet_run T ?c0 (snd s1)" using quiet.body_ends [OF body acts] start by (simp add: quiet.ends_def)
  have since: "?new = served_since ?c0 (snd s1)" unfolding s' by (simp add: served_since_def)
  from advance_to_run [OF idle T vc api run] obtain c where c: "at_rest T (Fin 0) (Fin 0) ?c0 c"
    "snd s' = (end_advance c)\<lparr>sc_t := T\<rparr>" "\<forall>w \<in> set (pending c). T < w_deadline w" by auto
  have prog: "progress T (Fin 0) (Fin 0) ?c0 c" using c(1) by (simp add: at_rest_def)
  then have kept: "kept ?c0 c" and log: "log_ok T (Fin 0) (Fin 0) ?c0 c" and le: "sc_t c \<le> T"
    by (simp_all add: progress_def adv_inv_def)
  have "sc_cancelled c = sc_cancelled (snd s')" by (simp add: c(2))
  also have "\<dots> = sc_cancelled (snd s1)" by (simp add: s')
  finally have canc: "sc_cancelled c = sc_cancelled ?c0" using q by (simp add: quiet_run_def)
  have since': "?new = served_since ?c0 c" unfolding c(2) by (simp add: served_since_def)
  have strict: "\<forall>(w, n) \<in> set ?new. n = wake_time w" "sorted_wrt before (sleepers_served ?c0 (snd s'))"
    using advance_to_strict [OF idle on T call api run] by auto
  have sub: "fst ` set ?new \<subseteq> set (sc_waiters ?c0)"
    using q pending_idle [OF idle] by (simp add: quiet_run_def since)
  have at: "n = w_deadline w" if "(w, n) \<in> set ?new" for w n
    using that strict(1) sub sl wake_time_sleeper by fastforce
  have "set (map fst ?new) = set ?due"
  proof (intro set_eqI iffI)
    fix w assume "w \<in> set (map fst ?new)"
    then obtain n where n: "(w, n) \<in> set ?new" by auto
    with log since' have "n \<le> sc_t c" "\<not> is_cancelled ?c0 w" by (auto simp: log_ok_def)
    with at [OF n] le sub n show "w \<in> set ?due" by force
  next
    fix w assume w: "w \<in> set ?due"
    then have "w \<in> set (pending ?c0)" using pending_idle [OF idle] by simp
    moreover have "\<not> is_cancelled c w" "w \<notin> set (pending c)"
      using w canc c(3) by (auto simp: is_cancelled_def)
    ultimately show "w \<in> set (map fst ?new)" using kept since' by (auto simp: kept_def)
  qed
  moreover have "sorted_wrt (\<lambda>x y. wkey x < wkey y) (map fst ?new)"
  proof -
    have "sleepers_served ?c0 (snd s') = map fst ?new"
      using sub sl by (auto simp: sleepers_served_def filter_id_conv)
    with strict(2) show ?thesis by (simp add: before_def [abs_def])
  qed
  moreover have "distinct ?due"
    using idle by (simp add: idle_clock_def clock_inv_def known_def pending_def distinct_map)
  ultimately have sorted: "map fst ?new = sort_key wkey ?due" by (intro sort_key_unique)
  have "?new = map (\<lambda>w. (w, w_deadline w)) (map fst ?new)"
    by (rule sym) (use at in \<open>auto intro: map_idI\<close>)
  with sorted show ?thesis by simp
qed

end
