(* ===== verification/SimClockNan.thy ===== *)
theory SimClockNan imports SimClockAdvance begin

text \<open>
  A sleeper whose deadline is NaN.  \<open>blocked v\<close>: it is at the top of the heap, not cancelled, and no
  instant is open.  Whatever other tasks do to the clock short of cancelling this very sleeper
  (\<open>task_step\<close>), the clock stays blocked, and an advance of a blocked clock serves nobody.
\<close>

section \<open>The top of the heap\<close>

lemma siftdown_top:
  "0 < pos \<Longrightarrow> pos < length heap \<Longrightarrow> \<not> lt x (heap ! 0) \<Longrightarrow> siftdown lt heap pos x ! 0 = heap ! 0"
proof (induction lt heap pos x rule: siftdown.induct)
  case (1 lt heap pos x)
  show ?case
  proof (cases "lt x (heap ! parent pos)")
    case True
    with 1 have "0 < parent pos" by (intro gr0I) simp
    moreover have "parent pos < length heap" using "1.prems"(1,2) parent_less [of pos] by linarith
    ultimately have "siftdown lt (heap[pos := heap ! parent pos]) (parent pos) x ! 0 = heap[pos := heap ! parent pos] ! 0"
      using "1.prems" True by (intro "1.IH") simp_all
    with "1.prems" True show ?thesis by (simp add: siftdown_move)
  next
    case False
    with 1 show ?thesis by (simp add: siftdown_stop)
  qed
qed

lemma heappush_top: "\<not> lt x v \<Longrightarrow> \<exists>vs. heappush lt x (v # ws) = v # vs"
  using siftdown_top [of "Suc (length ws)" "v # ws @ [x]" lt x] length_heappush [of lt x "v # ws"]
  by (cases "heappush lt x (v # ws)") (simp, simp add: heappush_def)

section \<open>A blocked clock\<close>

definition blocked :: "waiter \<Rightarrow> sim_clock \<Rightarrow> bool" where
  "blocked v c \<longleftrightarrow> w_deadline v = NaN \<and> (\<exists>ws. sc_waiters c = v # ws) \<and> \<not> is_cancelled c v \<and>
     sc_anchor c = None \<and> sc_deferred c = [] \<and> sc_instant c = []"

text \<open>Deadlines that are numbers, for everybody else.\<close>

inductive task_step :: "waiter \<Rightarrow> sim_clock \<Rightarrow> sim_clock \<Rightarrow> bool" for v where
  sleep: "dl \<noteq> NaN \<Longrightarrow> task_step v c (snd (wait_until_enter dl prio c))"
| schedule: "dl \<noteq> NaN \<Longrightarrow> task_step v c (snd (call_at dl k prio c))"
| leave: "w_seq w \<noteq> w_seq v \<Longrightarrow> task_step v c (wait_until_exit w c)"
| cancel: "w_seq w \<noteq> w_seq v \<Longrightarrow> task_step v c (cancel_waiter w c)"

text \<open>What such a step leaves as it is: the time, the log of the wakes and everybody in the heap.\<close>

definition untouched :: "sim_clock \<Rightarrow> sim_clock \<Rightarrow> bool" where
  "untouched c c' \<longleftrightarrow> sc_t c' = sc_t c \<and> sc_woken c' = sc_woken c \<and> sc_advancing c' = sc_advancing c \<and>
     set (sc_waiters c) \<subseteq> set (sc_waiters c')"

lemma untouched_trans: "untouched a b \<Longrightarrow> untouched b c \<Longrightarrow> untouched a c"
  by (auto simp: untouched_def)

lemma push_blocked: "w_deadline v = NaN \<Longrightarrow> \<exists>vs. push_waiter w (v # ws) = v # vs"
  unfolding push_waiter_def by (rule heappush_top) (cases "w_deadline w"; simp add: waiter_lt_def)

lemma drop_none: "w_seq v \<notin> K \<Longrightarrow> drop_cancelled_tops K (v # ws) = v # ws"
  by (subst drop_cancelled_tops.simps) simp

lemma task_step_blocked:
  assumes "task_step v c c'" "blocked v c"
  shows "blocked v c' \<and> untouched c c'"
  using assms(1)
proof cases
  case (sleep dl prio)
  let ?w = "\<lparr>w_deadline = dl, w_priority = prio, w_seq = sc_seq c, w_callback = None, w_registered_at = sc_t c\<rparr>"
  from assms(2) obtain ws where ws: "sc_waiters c = v # ws" "w_deadline v = NaN" by (auto simp: blocked_def)
  from push_blocked [OF ws(2)] obtain vs where "push_waiter ?w (v # ws) = v # vs" by blast
  moreover have "set (sc_waiters c) \<subseteq> set (push_waiter ?w (v # ws))" by (auto simp: ws(1))
  ultimately show ?thesis using sleep assms(2) ws
    by (auto simp: wait_until_enter_def blocked_def untouched_def is_cancelled_def Let_def)
next
  case (schedule dl k prio)
  let ?w = "\<lparr>w_deadline = dl, w_priority = prio, w_seq = sc_seq c, w_callback = Some k, w_registered_at = sc_t c\<rparr>"
  from assms(2) obtain ws where ws: "sc_waiters c = v # ws" "w_deadline v = NaN" by (auto simp: blocked_def)
  from push_blocked [OF ws(2)] obtain vs where "push_waiter ?w (v # ws) = v # vs" by blast
  moreover have "set (sc_waiters c) \<subseteq> set (push_waiter ?w (v # ws))" by (auto simp: ws(1))
  ultimately show ?thesis using schedule assms(2) ws
    by (auto simp: call_at_def blocked_def untouched_def is_cancelled_def Let_def)
next
  case (leave w)
  then show ?thesis using assms(2)
    by (auto simp: wait_until_exit_def drop_none blocked_def untouched_def is_cancelled_def Let_def)
next
  case (cancel w)
  then show ?thesis using assms(2) by (auto simp: cancel_waiter_def blocked_def untouched_def is_cancelled_def)
qed

lemma task_steps_blocked:
  "(task_step v)\<^sup>*\<^sup>* c c' \<Longrightarrow> blocked v c \<Longrightarrow> blocked v c' \<and> untouched c c'"
proof (induction rule: rtranclp_induct)
  case base
  then show ?case by (simp add: untouched_def)
next
  case (step c' c'')
  with task_step_blocked untouched_trans show ?case by blast
qed

section \<open>Its advances\<close>

lemma blocked_pop: "blocked v c \<Longrightarrow> pop_due T rtol atol peek c = Some (None, c)"
proof -
  assume b: "blocked v c"
  then obtain ws where ws: "sc_waiters c = v # ws" "w_deadline v = NaN" "\<not> is_cancelled c v" "sc_anchor c = None"
    by (auto simp: blocked_def)
  have "\<not> close_to T rtol atol v" "\<not> fle (w_deadline v) T" using ws(2)
    by (simp add: close_to_def) (cases T; simp add: fle_def ws(2))
  then have "heap_due T rtol atol c = (None, c)"
    using ws heap_due_keep [of c v ws T rtol atol] by (simp add: resleep_at_def)
  then show ?thesis using ws(4) by (intro pop_due_none) (simp add: open_instant_def)
qed

lemma blocked_settle:
  assumes "host_acts (task_step v) h settle" "blocked v c" "settle_turns h settle n (u, c) = (r, s')"
  shows "blocked v (snd s') \<and> untouched c (snd s')"
proof -
  have "keeps (\<lambda>s. blocked v (snd s) \<and> untouched c (snd s)) (settle_turns h settle n)"
    using assms(1) by (rule host_acts_settle) (blast dest: task_step_blocked intro: untouched_trans)
  moreover have "blocked v (snd (u, c)) \<and> untouched c (snd (u, c))" using assms(2) by (simp add: untouched_def)
  ultimately show ?thesis using assms(3) by (rule keepsD)
qed

text \<open>The loop makes one round: it finds nothing due, settles, and finds nothing due again.\<close>

lemma blocked_loop:
  assumes "host_acts (task_step v) h settle" "blocked v c"
  shows "advance_loop h settle n T rtol atol (u, c) = Some (settle_turns h settle n (u, c))"
proof -
  obtain r s' where s: "settle_turns h settle n (u, c) = (r, s')" by (cases "settle_turns h settle n (u, c)")
  from blocked_settle [OF assms s] have "pop_due T rtol atol True (snd s') = Some (None, snd s')"
    using blocked_pop by blast
  with blocked_pop [OF assms(2)] s show ?thesis by (subst advance_loop.simps) (cases r; simp)
qed

lemma blocked_body:
  assumes "host_acts (task_step v) h settle" "blocked v c"
  shows "\<exists>r s'. advance_body h settle n T rtol atol (u, c) = Some (r, s') \<and> blocked v (snd s') \<and> untouched c (snd s')"
proof (cases settle)
  case None
  obtain r s' where s: "settle_turns h settle n (u, c) = (r, s')" by (cases "settle_turns h settle n (u, c)")
  with None blocked_loop [OF assms] blocked_settle [OF assms s] show ?thesis by (auto simp: advance_body_def)
next
  case (Some f)
  obtain r s1 where s: "settle_turns h settle n (u, c) = (r, s1)" by (cases "settle_turns h settle n (u, c)")
  note one = blocked_settle [OF assms s]
  show ?thesis
  proof (cases r)
    case (Inl e)
    with Some s one show ?thesis by (auto simp: advance_body_def)
  next
    case (Inr a)
    obtain q s2 where t: "settle_turns h settle n (fst s1, snd s1) = (q, s2)"
      by (cases "settle_turns h settle n (fst s1, snd s1)")
    from one have b: "blocked v (snd s1)" by simp
    from blocked_settle [OF assms(1) b t] one have "blocked v (snd s2)" "untouched c (snd s2)"
      using untouched_trans by blast+
    with Some s Inr t blocked_loop [OF assms(1) b, of n T rtol atol "fst s1"] show ?thesis
      by (auto simp: advance_body_def)
  qed
qed

lemma blocked_advance:
  assumes "host_acts (task_step v) h settle" "blocked v c"
  shows "\<exists>r s'. advance_to h settle ms T rtol atol (u, c) = Some (r, s') \<and> sc_woken (snd s') = sc_woken c \<and>
    set (sc_waiters c) \<subseteq> set (sc_waiters (snd s')) \<and> (r = Inr () \<and> \<not> flt T (sc_t c) \<longrightarrow> sc_t (snd s') = T)"
proof (cases "ms < 1 \<or> flt rtol (Fin 0) \<or> flt atol (Fin 0) \<or> sc_advancing c \<or> flt T (sc_t c)")
  case True
  then show ?thesis by (auto simp: advance_to_def)
next
  case False
  let ?c = "c\<lparr>sc_advancing := True\<rparr>"
  have "blocked v ?c" using assms(2) by (simp add: blocked_def is_cancelled_def)
  from blocked_body [OF assms(1) this, of "nat ms" T rtol atol u] obtain r s' where
    s: "advance_body h settle (nat ms) T rtol atol (u, ?c) = Some (r, s')" "blocked v (snd s')" "untouched ?c (snd s')"
    by blast
  from s(2) have "end_advance (snd s') = (snd s')\<lparr>sc_advancing := False, sc_deferred := [], sc_instant := [], sc_anchor := None\<rparr>"
    by (simp add: end_advance_def blocked_def)
  with False s show ?thesis
    by (cases r) (auto simp: advance_to_def Let_def untouched_def)
qed

end
