(* ===== verification/Every.thy ===== *)
theory Every imports SimClockInv begin

text \<open>
  The periodic iterators: \<open>SimClock.every\<close> and \<open>WallClock.every\<close> of \<open>clock.py\<close>, with the sleep
  they use on real time, and \<open>cooperative_every\<close> of \<open>recipes/coordination\<close>.

  An async generator is a state (where it stands) and the code between two \<open>yield\<close>s: \<open>tick\<close> is the
  stamp it is about to yield, \<open>skip\<close> what it does when the consumer asks for the next one, from the
  clock's reading at that moment.  \<open>every_wait\<close> is the wait before the \<open>yield\<close>.  The readings of
  the real clock are arguments.
\<close>

section \<open>\<open>SimClock.every\<close>\<close>

datatype first_tick = FirstNow | FirstAfter

record sim_every =
  se_t0 :: pyfloat
  se_n :: int
  se_period :: pyfloat

definition sim_every_new :: "pyfloat \<Rightarrow> first_tick \<Rightarrow> sim_clock \<Rightarrow> exn + sim_every" where
  "sim_every_new period first c =
     (if fle period (Fin 0) then Inl ValueError
      else Inr \<lparr>se_t0 = sc_t c, se_n = (if first = FirstNow then 0 else 1), se_period = period\<rparr>)"

text \<open>\<open>t0 + n * period\<close>; the conversion of a huge \<open>n\<close> raises.\<close>

definition sim_every_tick :: "sim_every \<Rightarrow> exn + pyfloat" where
  "sim_every_tick g = (case int_times (se_n g) (se_period g) of
     None \<Rightarrow> Inl OverflowError | Some x \<Rightarrow> Inr (fadd (se_t0 g) x))"

text \<open>The waiter registered before the \<open>yield\<close>, when the stamp lies ahead.\<close>

definition sim_every_wait :: "sim_every \<Rightarrow> int \<Rightarrow> sim_clock \<Rightarrow> exn + (waiter option \<times> sim_clock)" where
  "sim_every_wait g prio c = (case sim_every_tick g of
     Inl e \<Rightarrow> Inl e
   | Inr t \<Rightarrow> Inr (if flt (sc_t c) t then wait_until_enter t prio c else (None, c)))"

definition int_limit :: int where
  "int_limit = 2 ^ 1024"

lemma int_times_Some:
  assumes "int_times n x = Some y"
  shows "n < int_limit"
proof (rule ccontr)
  assume "\<not> n < int_limit"
  then have le: "float_limit \<le> of_int n"
    by (metis float_limit_def int_limit_def not_less of_int_le_iff of_int_numeral of_int_power)
  have "round_value (of_int 1 * 2 powi 1024) = of_int 1 * 2 powi (1024 :: int)"
    by (rule round_value_grid) simp_all
  then have "round_double float_limit = PInf"
    by (simp add: round_double_def float_limit_def Let_def)
  then have "PInf \<le> round_double (of_int n)" using round_double_mono [OF le] by simp
  then have "round_double (of_int n) = PInf"
    using round_double_le_PInf(2) [of "of_int n"] by (cases "round_double (of_int n)") simp_all
  with assms show False by (simp add: int_times_def)
qed

text \<open>\<open>n += 1; while t0 + n * period <= self._t: n += 1\<close>\<close>

function sim_every_skip :: "sim_every \<Rightarrow> pyfloat \<Rightarrow> exn + sim_every" where
  "sim_every_skip g now =
     (let g' = g\<lparr>se_n := se_n g + 1\<rparr> in
      case sim_every_tick g' of
        Inl e \<Rightarrow> Inl e
      | Inr t \<Rightarrow> if fle t now then sim_every_skip g' now else Inr g')"
  by pat_completeness auto
termination
proof (relation "measure (\<lambda>(g, now). nat (int_limit - se_n g))")
  fix g :: sim_every and now g' t
  assume "g' = g\<lparr>se_n := se_n g + 1\<rparr>" "sim_every_tick g' = Inr t"
  then have "se_n g + 1 < int_limit"
    by (auto simp: sim_every_tick_def intro: int_times_Some split: option.splits)
  with \<open>g' = _\<close> show "((g', now), (g, now)) \<in> measure (\<lambda>(g, now). nat (int_limit - se_n g))"
    by simp
qed simp

declare sim_every_skip.simps [simp del]

lemma sim_every_skip_spec:
  "sim_every_skip g now = Inr g' \<Longrightarrow>
   \<exists>k \<ge> 1. g' = g\<lparr>se_n := se_n g + k\<rparr> \<and> (\<exists>t. sim_every_tick g' = Inr t \<and> \<not> fle t now) \<and>
     (\<forall>j. 1 \<le> j \<and> j < k \<longrightarrow> (\<exists>t. sim_every_tick (g\<lparr>se_n := se_n g + j\<rparr>) = Inr t \<and> fle t now))"
proof (induction g now rule: sim_every_skip.induct)
  case (1 g now)
  let ?g = "g\<lparr>se_n := se_n g + 1\<rparr>"
  from "1.prems" obtain t where t: "sim_every_tick ?g = Inr t"
    by (subst (asm) sim_every_skip.simps) (auto simp: Let_def split: sum.splits)
  show ?case
  proof (cases "fle t now")
    case False
    with "1.prems" t have "g' = ?g" by (subst (asm) sim_every_skip.simps) (simp add: Let_def)
    with t False show ?thesis by (intro exI [of _ 1]) auto
  next
    case True
    with "1.prems" t have "sim_every_skip ?g now = Inr g'"
      by (subst (asm) sim_every_skip.simps) (simp add: Let_def)
    from "1.IH" [OF refl t True this] obtain k where k: "1 \<le> k" "g' = ?g\<lparr>se_n := se_n ?g + k\<rparr>"
      "\<exists>t. sim_every_tick g' = Inr t \<and> \<not> fle t now"
      "\<forall>j. 1 \<le> j \<and> j < k \<longrightarrow> (\<exists>t. sim_every_tick (?g\<lparr>se_n := se_n ?g + j\<rparr>) = Inr t \<and> fle t now)"
      by blast
    have "\<exists>t. sim_every_tick (g\<lparr>se_n := se_n g + j\<rparr>) = Inr t \<and> fle t now" if "1 \<le> j" "j < k + 1" for j
    proof (cases "j = 1")
      case True
      with t \<open>fle t now\<close> show ?thesis by blast
    next
      case False
      with that have "1 \<le> j - 1 \<and> j - 1 < k" by simp
      with k(4) show ?thesis by fastforce
    qed
    with k show ?thesis by (intro exI [of _ "k + 1"]) (simp add: ac_simps)
  qed
qed

text \<open>What the iterator needs of its numbers for its stamps to be floats.\<close>

definition sim_every_ok :: "sim_every \<Rightarrow> bool" where
  "sim_every_ok g \<longleftrightarrow> isfinite (se_t0 g) \<and> is_float (se_t0 g) \<and> isfinite (se_period g)"

lemma sim_every_tick_float: "sim_every_ok g \<Longrightarrow> sim_every_tick g = Inr t \<Longrightarrow> is_float t"
proof -
  assume ok: "sim_every_ok g" and t: "sim_every_tick g = Inr t"
  obtain p q where "se_t0 g = Fin p" "se_period g = Fin q"
    using ok by (cases "se_t0 g"; cases "se_period g") (auto simp: sim_every_ok_def)
  moreover from t obtain x where x: "int_times (se_n g) (se_period g) = Some x" "t = fadd (se_t0 g) x"
    by (auto simp: sim_every_tick_def split: option.splits)
  ultimately obtain m where "x = round_double (m * q)" "t = fadd (Fin p) x"
    by (auto simp: int_times_def split: pyfloat.splits)
  then show ?thesis by (cases "round_double (m * q)") (use round_double_le_PInf(2) [of "m * q"] in auto)
qed

section \<open>\<open>WallClock\<close>\<close>

text \<open>What a sleep on real time waits for: one checkpoint, or AnyIO's sleep.\<close>

datatype wall_wait = Checkpoint | AnyioSleep pyfloat

definition wall_sleep :: "pyfloat \<Rightarrow> wall_wait" where
  "wall_sleep seconds = (if fle seconds (Fin 0) then Checkpoint else AnyioSleep seconds)"

definition wall_wait_until :: "pyfloat \<Rightarrow> pyfloat \<Rightarrow> wall_wait" where
  "wall_wait_until dl now = wall_sleep (fsub dl now)"

record wall_every =
  we_next :: pyfloat
  we_period :: pyfloat

definition wall_every_new :: "pyfloat \<Rightarrow> first_tick \<Rightarrow> pyfloat \<Rightarrow> exn + wall_every" where
  "wall_every_new period first now =
     (if fle period (Fin 0) then Inl ValueError
      else Inr \<lparr>we_next = (if first = FirstNow then now else fadd now period), we_period = period\<rparr>)"

definition wall_every_wait :: "wall_every \<Rightarrow> pyfloat \<Rightarrow> wall_wait option" where
  "wall_every_wait g now = (if flt now (we_next g) then Some (wall_sleep (fsub (we_next g) now)) else None)"

text \<open>\<open>while next_t <= now: next_t += period\<close>, which need not end: \<open>None\<close> then.\<close>

partial_function (option) wall_every_skip :: "wall_every \<Rightarrow> pyfloat \<Rightarrow> wall_every option" where
  "wall_every_skip g now =
     (if fle (we_next g) now then wall_every_skip (g\<lparr>we_next := fadd (we_next g) (we_period g)\<rparr>) now
      else Some g)"

declare wall_every_skip.simps [code]

lemma wall_every_skip_ahead:
  assumes "wall_every_skip g now = Some g'"
  shows "\<not> fle (we_next g') now"
proof (rule wall_every_skip.raw_induct [where P = "\<lambda>g n g'. \<not> fle (we_next g') n", OF _ assms])
  fix skip g n g'
  assume IH: "\<And>g n g'. skip g n = Some g' \<Longrightarrow> \<not> fle (we_next g') n"
    and run: "(if fle (we_next g) n then skip (g\<lparr>we_next := fadd (we_next g) (we_period g)\<rparr>) n else Some g) = Some g'"
  from run show "\<not> fle (we_next g') n"
    by (cases "fle (we_next g) n") (simp_all add: IH)
qed

text \<open>
  On a grid: the stamp, the period and the bound of the readings are multiples of \<open>2 ^ e\<close>, small
  enough for the additions to be exact.  Then the loop ends at the first stamp beyond \<open>now\<close>.
\<close>

lemma wall_every_skip_grid:
  assumes grid: "0 < p" "- (2 ^ 53) \<le> a" "r < of_int (2 ^ 53 - p) * 2 powi e" "- 1074 \<le> e" "e \<le> 900"
  shows "\<exists>k. wall_every_skip \<lparr>we_next = Fin (of_int a * 2 powi e), we_period = Fin (of_int p * 2 powi e)\<rparr> (Fin r) =
      Some \<lparr>we_next = Fin (of_int (a + int k * p) * 2 powi e), we_period = Fin (of_int p * 2 powi e)\<rparr> \<and>
    r < of_int (a + int k * p) * 2 powi e \<and> (\<forall>j < k. of_int (a + int j * p) * 2 powi e \<le> r)"
  using assms(2)
proof (induction "nat (2 ^ 53 - a)" arbitrary: a rule: less_induct)
  case less
  let ?u = "2 powi e :: rat"
  let ?g = "\<lambda>a. \<lparr>we_next = Fin (of_int a * ?u), we_period = Fin (of_int p * ?u)\<rparr>"
  show ?case
  proof (cases "of_int a * ?u \<le> r")
    case False
    then have "wall_every_skip (?g a) (Fin r) = Some (?g a)"
      by (subst wall_every_skip.simps) (simp add: fle_def_order)
    with False show ?thesis by (intro exI [of _ 0]) simp
  next
    case True
    have "of_int a * ?u < of_int (2 ^ 53 - p) * ?u" using True grid(3) by (rule le_less_trans)
    then have "(of_int a :: rat) < of_int (2 ^ 53 - p)" by (simp add: mult_less_cancel_right)
    then have lt: "a < 2 ^ 53 - p" by (simp only: of_int_less_iff)
    have "\<bar>a + p\<bar> \<le> 2 ^ 53" using lt grid(1) less.prems by simp
    then have "is_float (Fin (of_int (a + p) * ?u))" using grid(4,5) by (intro is_float_of_grid) simp_all
    then have "fadd (Fin (of_int a * ?u)) (Fin (of_int p * ?u)) = Fin (of_int (a + p) * ?u)"
      by (simp add: distrib_right)
    then have step: "wall_every_skip (?g a) (Fin r) = wall_every_skip (?g (a + p)) (Fin r)"
      using True by (subst wall_every_skip.simps) (simp add: fle_def_order)
    have "nat (2 ^ 53 - (a + p)) < nat (2 ^ 53 - a)" "- (2 ^ 53) \<le> a + p" using lt grid(1) less.prems by simp_all
    from less.hyps [OF this] obtain k where k:
      "wall_every_skip (?g (a + p)) (Fin r) = Some (?g (a + p + int k * p))"
      "r < of_int (a + p + int k * p) * ?u" "\<forall>j < k. of_int (a + p + int j * p) * ?u \<le> r" by blast
    have "of_int (a + int j * p) * ?u \<le> r" if "j < Suc k" for j
    proof (cases j)
      case 0
      with True show ?thesis by simp
    next
      case (Suc i)
      with k(3) that have "of_int (a + p + int i * p) * ?u \<le> r" by simp
      with Suc show ?thesis by (simp add: algebra_simps)
    qed
    then show ?thesis using k(1,2) step by (intro exI [of _ "Suc k"]) (simp add: algebra_simps)
  qed
qed

section \<open>The contract of \<open>every\<close> and its client\<close>

text \<open>
  \<open>tick\<close> and \<open>skip\<close> as the \<open>Clock\<close> protocol promises them: after a reading \<open>now\<close> of the clock the
  next stamp lies beyond it (missed ticks are skipped).  \<open>skip\<close> is \<open>None\<close> when it never returns.
\<close>

locale ticker =
  fixes tick :: "'g \<Rightarrow> exn + pyfloat"
    and skip :: "'g \<Rightarrow> pyfloat \<Rightarrow> (exn + 'g) option"
    and ok :: "'g \<Rightarrow> bool"
  assumes skip_ok: "ok g \<Longrightarrow> skip g now = Some (Inr g') \<Longrightarrow> ok g'"
    and skip_ahead: "ok g \<Longrightarrow> now \<noteq> NaN \<Longrightarrow> skip g now = Some (Inr g') \<Longrightarrow> tick g' = Inr t \<Longrightarrow> now < t"

text \<open>The stamps a consumer sees, which asks for the next one when its clock reads each of \<open>nows\<close>.\<close>

fun stamps :: "('g \<Rightarrow> exn + pyfloat) \<Rightarrow> ('g \<Rightarrow> pyfloat \<Rightarrow> (exn + 'g) option) \<Rightarrow> 'g \<Rightarrow>
    pyfloat list \<Rightarrow> pyfloat list" where
  "stamps tick skip g [] = (case tick g of Inl _ \<Rightarrow> [] | Inr t \<Rightarrow> [t])"
| "stamps tick skip g (now # nows) = (case tick g of
     Inl _ \<Rightarrow> []
   | Inr t \<Rightarrow> t # (case skip g now of Some (Inr g') \<Rightarrow> stamps tick skip g' nows | _ \<Rightarrow> []))"

text \<open>The readings of a clock that never runs backwards and has reached each stamp when it is used.\<close>

fun reached :: "pyfloat list \<Rightarrow> pyfloat list \<Rightarrow> bool" where
  "reached (t # ts) (now # nows) \<longleftrightarrow> now \<noteq> NaN \<and> t \<le> now \<and> reached ts nows"
| "reached _ _ \<longleftrightarrow> True"

context ticker begin

lemma stamps_ahead:
  assumes "ok g" "now \<noteq> NaN" "skip g now = Some (Inr g')" "stamps tick skip g' nows = t # ts"
  shows "now < t"
  using assms skip_ahead by (cases nows) (auto split: sum.splits)

lemma stamps_sorted:
  assumes "ok g" "reached (stamps tick skip g nows) nows"
  shows "sorted_wrt (<) (stamps tick skip g nows)"
  using assms
proof (induction nows arbitrary: g)
  case Nil
  then show ?case by (simp split: sum.split)
next
  case (Cons now nows)
  show ?case
  proof (cases "tick g")
    case (Inl e)
    then show ?thesis by simp
  next
    case (Inr t)
    show ?thesis
    proof (cases "\<exists>g'. skip g now = Some (Inr g')")
      case False
      with Inr show ?thesis by (auto split: option.split sum.split)
    next
      case True
      then obtain g' where g': "skip g now = Some (Inr g')" by blast
      let ?rest = "stamps tick skip g' nows"
      have now: "now \<noteq> NaN" "t \<le> now" "reached ?rest nows" using Cons.prems(2) Inr g' by simp_all
      then have rest: "sorted_wrt (<) ?rest" using Cons.IH skip_ok [OF Cons.prems(1) g'] now(3) by blast
      show ?thesis
      proof (cases ?rest)
        case Nil
        with Inr g' show ?thesis by simp
      next
        case (Cons u us)
        have "t < u" using now(2) stamps_ahead [OF \<open>ok g\<close> now(1) g' Cons] by (rule le_less_trans)
        with rest Cons Inr g' show ?thesis by auto
      qed
    qed
  qed
qed

end

definition sim_skip :: "sim_every \<Rightarrow> pyfloat \<Rightarrow> (exn + sim_every) option" where
  "sim_skip g now = Some (sim_every_skip g now)"

definition wall_tick :: "wall_every \<Rightarrow> exn + pyfloat" where
  "wall_tick g = Inr (we_next g)"

definition wall_skip :: "wall_every \<Rightarrow> pyfloat \<Rightarrow> (exn + wall_every) option" where
  "wall_skip g now = map_option Inr (wall_every_skip g now)"

interpretation sim: ticker sim_every_tick sim_skip sim_every_ok
proof
  fix g now g' t
  assume ok: "sim_every_ok g" and run: "sim_skip g now = Some (Inr g')"
  from sim_every_skip_spec [of g now g'] run obtain k where k: "g' = g\<lparr>se_n := se_n g + k\<rparr>"
    "\<exists>t. sim_every_tick g' = Inr t \<and> \<not> fle t now" by (auto simp: sim_skip_def)
  then show ok': "sim_every_ok g'" using ok by (simp add: sim_every_ok_def)
  assume now: "now \<noteq> NaN" and t: "sim_every_tick g' = Inr t"
  with k have "\<not> fle t now" by simp
  moreover have "is_float t" using sim_every_tick_float [OF ok' t] .
  ultimately show "now < t" using now by (auto simp: fle_def_order)
qed

definition wall_every_ok :: "wall_every \<Rightarrow> bool" where
  "wall_every_ok g \<longleftrightarrow> is_float (we_next g) \<and> MInf < we_next g \<and> is_float (we_period g) \<and> Fin 0 < we_period g"

lemma wall_every_ok_add:
  "wall_every_ok g \<Longrightarrow> wall_every_ok (g\<lparr>we_next := fadd (we_next g) (we_period g)\<rparr>)"
proof -
  assume ok: "wall_every_ok g"
  then have nn: "fadd (we_next g) (we_period g) \<noteq> NaN"
    by (cases "we_next g"; cases "we_period g") (auto simp: wall_every_ok_def)
  have "we_next g \<le> fadd (we_next g) (we_period g)"
    using ok nn by (intro fadd_ge_left) (auto simp: wall_every_ok_def)
  moreover have "is_float (fadd (we_next g) (we_period g))"
    using is_float_fadd [of "we_next g" "we_period g"] ok nn by (simp add: wall_every_ok_def)
  ultimately show ?thesis using ok by (auto simp: wall_every_ok_def intro: less_le_trans)
qed

lemma wall_every_skip_ok:
  assumes "wall_every_skip g now = Some g'" "wall_every_ok g"
  shows "wall_every_ok g'"
proof -
  let ?Q = "\<lambda>g n g'. wall_every_ok g \<longrightarrow> wall_every_ok g'"
  have "?Q g now g'"
  proof (rule wall_every_skip.raw_induct [where P = ?Q, OF _ assms(1)])
    fix skip g n g'
    assume IH: "\<And>g n g'. skip g n = Some g' \<Longrightarrow> wall_every_ok g \<longrightarrow> wall_every_ok g'"
      and run: "(if fle (we_next g) n then skip (g\<lparr>we_next := fadd (we_next g) (we_period g)\<rparr>) n else Some g) = Some g'"
    show "wall_every_ok g \<longrightarrow> wall_every_ok g'"
    proof
      assume ok: "wall_every_ok g"
      show "wall_every_ok g'"
      proof (cases "fle (we_next g) n")
        case True
        with run IH wall_every_ok_add [OF ok] show ?thesis by simp
      next
        case False
        with run ok show ?thesis by simp
      qed
    qed
  qed
  with assms(2) show ?thesis by blast
qed

interpretation wall: ticker wall_tick wall_skip wall_every_ok
proof
  fix g now g' t
  assume ok: "wall_every_ok g" and run: "wall_skip g now = Some (Inr g')"
  then have skip: "wall_every_skip g now = Some g'" by (auto simp: wall_skip_def)
  show ok': "wall_every_ok g'" using skip ok by (rule wall_every_skip_ok)
  assume now: "now \<noteq> NaN" and t: "wall_tick g' = Inr t"
  have "\<not> fle t now" using wall_every_skip_ahead [OF skip] t by (simp add: wall_tick_def)
  moreover have "is_float t" using ok' t by (simp add: wall_tick_def wall_every_ok_def)
  ultimately show "now < t" using now by (auto simp: fle_def_order)
qed

section \<open>\<open>cooperative_every\<close>\<close>

definition cooperative_new :: "pyfloat \<Rightarrow> (pyfloat \<Rightarrow> first_tick \<Rightarrow> exn + 'g) \<Rightarrow> exn + 'g" where
  "cooperative_new period every = (if fle period (Fin 0) then Inl ValueError else every period FirstAfter)"

text \<open>Each turn sees whether \<open>ctx.stopping\<close> is set at the tick, and the clock when it asks again.\<close>

fun cooperative_stamps :: "('g \<Rightarrow> exn + pyfloat) \<Rightarrow> ('g \<Rightarrow> pyfloat \<Rightarrow> (exn + 'g) option) \<Rightarrow> 'g \<Rightarrow>
    (bool \<times> pyfloat) list \<Rightarrow> pyfloat list" where
  "cooperative_stamps tick skip g [] = []"
| "cooperative_stamps tick skip g ((stopping, now) # turns) = (case tick g of
     Inl _ \<Rightarrow> []
   | Inr t \<Rightarrow> if stopping then []
             else t # (case skip g now of Some (Inr g') \<Rightarrow> cooperative_stamps tick skip g' turns | _ \<Rightarrow> []))"

text \<open>It yields the clock's own stamps, up to the first tick at which the stop is seen.\<close>

lemma cooperative_stamps_take:
  "cooperative_stamps tick skip g turns =
     take (length (takeWhile (\<lambda>(stopping, now). \<not> stopping) turns)) (stamps tick skip g (map snd turns))"
proof (induction tick skip g turns rule: cooperative_stamps.induct)
  case (2 tick skip g stopping now turns)
  show ?case
  proof (cases "tick g")
    case (Inr t)
    with 2 show ?thesis by (cases stopping) (auto split: option.split sum.split)
  qed simp
qed (simp split: sum.split)

end
