(* ===== verification/ClockProps.thy ===== *)
theory ClockProps imports SimClockReturns SimClockStrict SimClockNan Every begin

text \<open>
  The properties of the clocks, each with a run in which its hypotheses hold.  The runs are
  computed by the kernel: \<open>demo_clock\<close> has sleepers at 1, 3/2 (two, of different priority) and 5
  and a cancelled one; \<open>busy_host\<close> stands for tasks that go to sleep during the advance.
\<close>

section \<open>The clocks that can occur\<close>

lemma idle_new: "is_float t0 \<Longrightarrow> new_sim_clock t0 rounds = Inr c \<Longrightarrow> idle_clock c \<and> on_time c"
  by (auto simp: new_sim_clock_def idle_clock_def clock_inv_def known_def pending_def on_time_def
      split: if_splits)

lemma idle_api_step:
  assumes "api_step c c'" "idle_clock c"
  shows "idle_clock c'"
  using assms api_step_inv [OF assms(1)] api_step_frame(3,6,7) [OF assms(1)]
  by (auto simp: idle_clock_def clock_inv_def)

section \<open>Runs\<close>

definition quiet_host :: "unit host" where
  "quiet_host = \<lparr>h_checkpoint = ret (), h_callback = (\<lambda>_. ret ())\<rparr>"

text \<open>Each checkpoint lets a task sleep until 2, as often as the world's counter says.\<close>

fun nap :: "(nat st, unit) py" where
  "nap (0, c) = (Inr (), (0, c))"
| "nap (Suc k, c) = (Inr (), (k, snd (wait_until_enter (Fin 2) 0 c)))"

definition busy_host :: "nat host" where
  "busy_host = \<lparr>h_checkpoint = nap, h_callback = (\<lambda>_. raise (Raised 7))\<rparr>"

definition demo_clock :: sim_clock where
  "demo_clock = (case new_sim_clock (Fin 0) 2 of Inr c \<Rightarrow>
     snd (wait_until_enter (Fin 5) 0
       (snd (wait_until_enter (Fin (3/2)) 0
         (snd (wait_until_enter (Fin 1) 0
           (snd (wait_until_enter (Fin (3/2)) 1 c))))))))"

definition cancelled_clock :: sim_clock where
  "cancelled_clock = cancel_waiter (sc_waiters demo_clock ! 0) demo_clock"

text \<open>A clock with a callback due at 1, which the busy host lets raise.\<close>

definition alarm_clock :: sim_clock where
  "alarm_clock = snd (call_at (Fin 1) 0 0 demo_clock)"

lemma quiet_host_acts: "host_acts (=) quiet_host None"
  by (simp add: host_acts_def acts_def quiet_host_def)

lemma quiet_host_api: "host_acts api_step quiet_host None"
  using quiet_host_acts by (rule quiet_acts)

lemma float_2: "is_float (Fin 2)"
  using round_double_numeral(1) [of "num.Bit0 num.One"] by simp

lemma busy_host_acts: "host_acts api_step busy_host None"
proof -
  have "api_step\<^sup>*\<^sup>* (snd s) (snd s')" if "nap s = (r, s')" for s r s'
    using that float_2
    by (cases s rule: nap.cases) (auto intro!: r_into_rtranclp api_step.sleep simp del: is_float.simps)
  then show ?thesis by (simp add: host_acts_def acts_def busy_host_def)
qed

lemma busy_host_budget: "budget id busy_host None"
proof -
  have "fst s' + sc_seq (snd s') \<le> fst s + sc_seq (snd s)" if "nap s = (r, s')" for s r s'
    using that by (cases s rule: nap.cases) (auto simp: wait_until_enter_def Let_def)
  then show ?thesis by (simp add: budget_def op_budget_def busy_host_def)
qed

lemma float_small:
  "is_float (Fin 3)" "is_float (Fin 5)" "is_float (Fin (3/2))" "is_float (Fin 1)" "is_float (Fin 0)"
proof -
  show "is_float (Fin (3/2))" using round_double_dyadic [of 3 1] by simp
  show "is_float (Fin 3)" "is_float (Fin 5)"
    using round_double_numeral(1) [of "num.Bit1 num.One"] round_double_numeral(1) [of "num.Bit1 (num.Bit0 num.One)"]
    by simp_all
qed simp_all

lemma demo_idle: "idle_clock demo_clock"
proof -
  obtain c where c: "new_sim_clock (Fin 0) 2 = Inr c" by (simp add: new_sim_clock_def)
  have "idle_clock c" using idle_new [OF float_small(5) c] by blast
  then show ?thesis unfolding demo_clock_def c sum.case
    by (auto intro!: idle_api_step [OF api_step.sleep] simp: float_small simp del: is_float.simps)
qed

lemma alarm_idle: "idle_clock alarm_clock"
  unfolding alarm_clock_def
  by (rule idle_api_step [OF api_step.schedule demo_idle]) (rule float_small)

lemma cancelled_idle: "idle_clock cancelled_clock"
proof -
  have "w_seq (sc_waiters demo_clock ! 0) < sc_seq demo_clock" by code_simp
  then show ?thesis unfolding cancelled_clock_def
    by (rule idle_api_step [OF api_step.cancel demo_idle])
qed

lemma demo_now: "sc_t demo_clock = Fin 0" "sc_t alarm_clock = Fin 0" "sc_t cancelled_clock = Fin 0"
  by code_simp+

lemma demo_on_time: "on_time demo_clock" "on_time cancelled_clock"
  unfolding on_time_def by code_simp+

lemma call_ok: "valid_call 10 (Fin 0) (Fin 0)"
  by code_simp

definition run_end :: "((exn + unit) \<times> 'w st) option \<Rightarrow> 'w st" where
  "run_end out = snd (the out)"

lemma run_endI: "out \<noteq> None \<Longrightarrow> fst (the out) = r \<Longrightarrow> out = Some (r, run_end out)"
  by (auto simp: run_end_def)

abbreviation busy_run :: "((exn + unit) \<times> nat st) option" where
  "busy_run \<equiv> advance_to busy_host None 10 (Fin 3) (Fin 0) (Fin 0) (2, demo_clock)"

abbreviation alarm_run :: "((exn + unit) \<times> nat st) option" where
  "alarm_run \<equiv> advance_to busy_host None 10 (Fin 3) (Fin 0) (Fin 0) (2, alarm_clock)"

abbreviation quiet_run_of :: "sim_clock \<Rightarrow> ((exn + unit) \<times> unit st) option" where
  "quiet_run_of c \<equiv> advance_to quiet_host None 10 (Fin 3) (Fin 0) (Fin 0) ((), c)"

lemma busy_run: "busy_run = Some (Inr (), run_end busy_run)"
  by (rule run_endI) code_simp+

lemma alarm_run: "alarm_run = Some (Inl (Raised 7), run_end alarm_run)"
  by (rule run_endI) code_simp+

lemma quiet_run: "quiet_run_of cancelled_clock = Some (Inr (), run_end (quiet_run_of cancelled_clock))"
  by (rule run_endI) code_simp+

section \<open>Advancing\<close>

text \<open>C1: An advance that returns has brought \<open>now()\<close> exactly to its target; nothing is pending any
  more with a deadline up to the target, and every entry that was has been served or cancelled.
  The tasks may do anything a task can do to the clock meanwhile.\<close>

theorem advance_to_complete:
  assumes "idle_clock (snd s)" "is_float T" "sc_t (snd s) \<le> T" "valid_call max_settles rtol atol"
    and "host_acts api_step h settle"
    and "advance_to h settle max_settles T rtol atol s = Some (Inr (), s')"
  shows "sc_t (snd s') = T \<and> (\<forall>w \<in> set (pending (snd s')). T < w_deadline w) \<and>
    (\<forall>w \<in> set (pending (snd s)). w_deadline w \<le> T \<longrightarrow>
       is_cancelled (snd s') w \<or> w \<in> fst ` set (served_since (snd s) (snd s')))"
proof -
  from advance_to_run [OF assms] obtain c where rest: "at_rest T rtol atol (snd s) c"
    and s': "snd s' = (end_advance c)\<lparr>sc_t := T\<rparr>" and late: "\<forall>w \<in> set (pending c). T < w_deadline w"
    by blast
  have kept: "kept (snd s) c" using rest by (simp add: at_rest_def progress_def)
  have "is_cancelled (snd s') w \<or> w \<in> fst ` set (served_since (snd s) (snd s'))"
    if "w \<in> set (pending (snd s))" "w_deadline w \<le> T" for w
  proof -
    have "w \<notin> set (pending c)" using late that(2) by auto
    with kept that(1) show ?thesis by (auto simp: kept_def s' is_cancelled_def served_since_def)
  qed
  with late show ?thesis by (simp add: s')
qed

lemma advance_to_complete_witness:
  "sc_t (snd (run_end busy_run)) = Fin 3 \<and>
   list_all (\<lambda>w. Fin 3 < w_deadline w) (pending (snd (run_end busy_run)))"
proof -
  have "sc_t (snd (2 :: nat, demo_clock)) \<le> Fin 3" by (simp add: demo_now)
  from advance_to_complete [OF _ float_small(1) this call_ok busy_host_acts busy_run] demo_idle
  show ?thesis by (simp add: list_all_iff)
qed

text \<open>C3: Whatever its outcome, an advance serves entries one at a time at instants that never move
  back and never pass the target; each entry has reached its deadline, or lies within the
  tolerance of the target and was registered before time got there; none was cancelled before.\<close>

theorem advance_to_wakes:
  assumes "idle_clock (snd s)" "is_float T" "sc_t (snd s) \<le> T" "valid_call max_settles rtol atol"
    and "host_acts api_step h settle"
    and "advance_to h settle max_settles T rtol atol s = Some (r, s')"
  shows "sc_woken (snd s') = sc_woken (snd s) @ served_since (snd s) (snd s') \<and>
    sorted (sc_t (snd s) # map snd (served_since (snd s) (snd s'))) \<and>
    (\<forall>(w, n) \<in> set (served_since (snd s) (snd s')).
       n \<le> T \<and> served_ok T rtol atol w n \<and> \<not> is_cancelled (snd s) w)"
proof -
  from advance_to_run [OF assms] obtain c where rest: "at_rest T rtol atol (snd s) c"
    and s': "sc_woken (snd s') = sc_woken c" by (cases r) auto
  have prog: "progress T rtol atol (snd s) c" using rest by (simp add: at_rest_def)
  then have log: "log_ok T rtol atol (snd s) c" and le: "sc_t c \<le> T"
    by (simp_all add: progress_def adv_inv_def)
  have "served_since (snd s) (snd s') = served_since (snd s) c" using s' by (simp add: served_since_def)
  with log le s' show ?thesis unfolding log_ok_def by (auto intro: order_trans)
qed

lemma advance_to_wakes_witness:
  "sorted (map snd (served_since alarm_clock (snd (run_end alarm_run)))) \<and>
   map (w_deadline \<circ> fst) (served_since alarm_clock (snd (run_end alarm_run))) = [Fin 1, Fin 1]"
proof -
  have "sc_t (snd (2 :: nat, alarm_clock)) \<le> Fin 3" by (simp add: demo_now)
  from advance_to_wakes [OF _ float_small(1) this call_ok busy_host_acts alarm_run] alarm_idle
  have "sorted (map snd (served_since alarm_clock (snd (run_end alarm_run))))" by simp
  moreover have "map (w_deadline \<circ> fst) (served_since alarm_clock (snd (run_end alarm_run))) = [Fin 1, Fin 1]"
    by code_simp
  ultimately show ?thesis by blast
qed

text \<open>C16: An advance that raises leaves time at the last wake and loses nothing: every entry that was
  pending has been served, is cancelled or is back in the heap for the next advance.\<close>

theorem advance_to_failure:
  assumes "idle_clock (snd s)" "is_float T" "sc_t (snd s) \<le> T" "valid_call max_settles rtol atol"
    and "host_acts api_step h settle"
    and "advance_to h settle max_settles T rtol atol s = Some (Inl e, s')"
  shows "sc_t (snd s') = last_wake (snd s) (snd s') \<and> \<not> sc_advancing (snd s') \<and>
    (\<forall>w \<in> set (pending (snd s)). is_cancelled (snd s') w \<or> w \<in> set (sc_waiters (snd s')) \<or>
       w \<in> fst ` set (served_since (snd s) (snd s')))"
proof -
  from advance_to_run [OF assms] obtain c where rest: "at_rest T rtol atol (snd s) c"
    and s': "snd s' = end_advance c" by blast
  have prog: "progress T rtol atol (snd s) c" and t: "sc_t c = last_wake (snd s) c"
    using rest by (simp_all add: at_rest_def)
  have idle: "idle_clock (end_advance c)" using prog by (simp add: progress_def adv_inv_def end_advance_idle)
  have since: "served_since (snd s) (end_advance c) = served_since (snd s) c" by (simp add: served_since_def)
  have kept: "kept (snd s) c" using prog by (simp add: progress_def)
  have "set (sc_waiters (end_advance c)) = set (pending c)" using pending_idle [OF idle] set_pending_end by metis
  with kept since have "\<forall>w \<in> set (pending (snd s)). is_cancelled (snd s') w \<or> w \<in> set (sc_waiters (snd s')) \<or>
       w \<in> fst ` set (served_since (snd s) (snd s'))"
    by (auto simp: kept_def s' is_cancelled_def)
  with t since idle show ?thesis by (simp add: s' last_wake_def idle_clock_def)
qed

lemma advance_to_failure_witness:
  "sc_t (snd (run_end alarm_run)) = Fin 1 \<and> \<not> sc_advancing (snd (run_end alarm_run))"
proof -
  have "sc_t (snd (2 :: nat, alarm_clock)) \<le> Fin 3" by (simp add: demo_now)
  from advance_to_failure [OF _ float_small(1) this call_ok busy_host_acts alarm_run] alarm_idle
  have "sc_t (snd (run_end alarm_run)) = last_wake alarm_clock (snd (run_end alarm_run)) \<and>
    \<not> sc_advancing (snd (run_end alarm_run))" by simp
  moreover have "last_wake alarm_clock (snd (run_end alarm_run)) = Fin 1" by code_simp
  ultimately show ?thesis by simp
qed

text \<open>C19: Every advance, whatever its outcome, leaves the clock as it found it: both heaps in order,
  no instant open, nothing set aside, ready for the next advance; and the entries it knows are
  distinct, so that none is served twice.\<close>

theorem advance_to_invariant:
  assumes "idle_clock (snd s)" "is_float T" "sc_t (snd s) \<le> T" "valid_call max_settles rtol atol"
    and "host_acts api_step h settle"
    and "advance_to h settle max_settles T rtol atol s = Some (r, s')"
  shows "idle_clock (snd s') \<and> distinct (map w_seq (sc_waiters (snd s') @ map fst (sc_woken (snd s'))))"
proof -
  from advance_to_run [OF assms] obtain c where rest: "at_rest T rtol atol (snd s) c"
    and s': "snd s' = end_advance c \<or> snd s' = (end_advance c)\<lparr>sc_t := T\<rparr>" by (cases r) auto
  have "idle_clock (end_advance c)" using rest by (simp add: at_rest_def progress_def adv_inv_def end_advance_idle)
  with s' set_t_idle assms(2) have idle: "idle_clock (snd s')" by fastforce
  then have "distinct (map w_seq (known (snd s')))" by (simp add: idle_clock_def clock_inv_def)
  then have "distinct (map w_seq (sc_waiters (snd s') @ map fst (sc_woken (snd s'))))"
    using pending_idle [OF idle] by (simp add: known_def)
  with idle show ?thesis ..
qed

lemma advance_to_invariant_witness: "idle_clock (snd (run_end alarm_run))"
proof -
  have "sc_t (snd (2 :: nat, alarm_clock)) \<le> Fin 3" by (simp add: demo_now)
  from advance_to_invariant [OF _ float_small(1) this call_ok busy_host_acts alarm_run] alarm_idle
  show ?thesis by simp
qed

text \<open>C17: An advance returns (or raises) whenever the tasks register only boundedly many entries
  while it runs, in whatever order they do so and whatever the tolerances are.\<close>

theorem advance_to_returns:
  assumes "host_acts api_step h settle" "budget m h settle" "idle_clock (snd s)" "is_float T"
  shows "\<exists>out. advance_to h settle max_settles T rtol atol s = Some out"
  using assms by (rule advance_to_some)

lemma advance_to_returns_witness:
  "\<exists>out. advance_to busy_host None 10 (Fin 3) (Fin 1) (Fin 2) (1000, demo_clock) = Some out"
  by (rule advance_to_returns [OF busy_host_acts busy_host_budget _ float_small(1)]) (simp add: demo_idle)

section \<open>Exactness\<close>

text \<open>C7: With \<open>rtol = atol = 0\<close> every entry is served exactly when it is due: a sleeper at its
  deadline, a \<open>call_at\<close> whose deadline was past when it was registered at that time; and the
  sleepers wake in the order of (deadline, priority, registration), whatever the tasks do.\<close>

theorem advance_to_exact:
  assumes "idle_clock (snd s)" "on_time (snd s)" "is_float T" "sc_t (snd s) \<le> T" "1 \<le> max_settles"
    and "host_acts api_step h settle"
    and "advance_to h settle max_settles T (Fin 0) (Fin 0) s = Some (r, s')"
  shows "(\<forall>(w, n) \<in> set (served_since (snd s) (snd s')). n = max (w_deadline w) (w_registered_at w)) \<and>
    sorted_wrt (\<lambda>u v. wkey u < wkey v) (sleepers_served (snd s) (snd s')) \<and> on_time (snd s')"
  using advance_to_strict [OF assms] by (simp add: wake_time_def before_def [abs_def])

lemma advance_to_exact_witness:
  "sorted_wrt (\<lambda>u v. wkey u < wkey v) (sleepers_served demo_clock (snd (run_end busy_run))) \<and>
   map w_deadline (sleepers_served demo_clock (snd (run_end busy_run))) =
     [Fin 1, Fin (3/2), Fin (3/2), Fin 2, Fin 2]"
proof -
  have "sc_t (snd (2 :: nat, demo_clock)) \<le> Fin 3" by (simp add: demo_now)
  from advance_to_exact [OF _ _ float_small(1) this _ busy_host_acts busy_run] demo_idle demo_on_time
  have "sorted_wrt (\<lambda>u v. wkey u < wkey v) (sleepers_served demo_clock (snd (run_end busy_run)))" by simp
  moreover have "map w_deadline (sleepers_served demo_clock (snd (run_end busy_run))) =
     [Fin 1, Fin (3/2), Fin (3/2), Fin 2, Fin 2]" by code_simp
  ultimately show ?thesis by blast
qed

text \<open>C18: When no task touches the clock, an advance with zero tolerances is a function of the heap:
  it wakes exactly the live sleepers due by the target, sorted by (deadline, priority,
  registration), each at its deadline.\<close>

theorem advance_to_sorts:
  assumes "idle_clock (snd s)" "on_time (snd s)" "\<forall>w \<in> set (sc_waiters (snd s)). sleeper w"
    and "is_float T" "sc_t (snd s) \<le> T" "1 \<le> max_settles" "host_acts (=) h settle"
    and "advance_to h settle max_settles T (Fin 0) (Fin 0) s = Some (Inr (), s')"
  shows "served_since (snd s) (snd s') =
    map (\<lambda>w. (w, w_deadline w)) (sort_key wkey
      (filter (\<lambda>w. \<not> is_cancelled (snd s) w \<and> w_deadline w \<le> T) (sc_waiters (snd s))))"
  using assms by (rule advance_to_quiet)

lemma advance_to_sorts_witness:
  "served_since cancelled_clock (snd (run_end (quiet_run_of cancelled_clock))) =
    map (\<lambda>w. (w, w_deadline w)) (sort_key wkey
      (filter (\<lambda>w. \<not> is_cancelled cancelled_clock w \<and> w_deadline w \<le> Fin 3) (sc_waiters cancelled_clock)))"
proof -
  have t: "sc_t (snd ((), cancelled_clock)) \<le> Fin 3" by (simp add: demo_now)
  have sl: "\<forall>w \<in> set (sc_waiters (snd ((), cancelled_clock))). sleeper w" by code_simp
  from advance_to_sorts [OF _ _ sl float_small(1) t _ quiet_host_acts quiet_run] cancelled_idle demo_on_time
  show ?thesis by simp
qed

section \<open>Calls that are refused\<close>

text \<open>A call with \<open>max_settles\<close> below 1 or a negative tolerance, a second driver (concurrent, or
  from inside the advance) and a negative step raise at once, and a target in the past returns at
  once; in all of them nothing changes.\<close>

theorem advance_refused:
  "(max_settles < 1 \<or> flt rtol (Fin 0) \<or> flt atol (Fin 0) \<longrightarrow>
     advance_to h settle max_settles T rtol atol s = Some (Inl ValueError, s)) \<and>
   (valid_call max_settles rtol atol \<and> sc_advancing (snd s) \<longrightarrow>
     advance_to h settle max_settles T rtol atol s = Some (Inl RuntimeError, s)) \<and>
   (valid_call max_settles rtol atol \<and> \<not> sc_advancing (snd s) \<and> flt T (sc_t (snd s)) \<longrightarrow>
     advance_to h settle max_settles T rtol atol s = Some (Inr (), s)) \<and>
   (flt dt (Fin 0) \<longrightarrow> advance h settle max_settles dt rtol atol s = Some (Inl ValueError, s))"
  by (auto simp: advance_to_def advance_def valid_call_def)

lemma advance_refused_witness:
  "advance_to quiet_host None 0 (Fin 3) (Fin 0) (Fin 0) ((), demo_clock) = Some (Inl ValueError, ((), demo_clock)) \<and>
   advance_to quiet_host None 10 (Fin (- 3)) (Fin 0) (Fin 0) ((), demo_clock) = Some (Inr (), ((), demo_clock)) \<and>
   advance_to quiet_host None 10 (Fin 3) (Fin 0) (Fin 0) ((), demo_clock\<lparr>sc_advancing := True\<rparr>) =
     Some (Inl RuntimeError, ((), demo_clock\<lparr>sc_advancing := True\<rparr>)) \<and>
   advance quiet_host None 10 (Fin (- 1)) (Fin 0) (Fin 0) ((), demo_clock) = Some (Inl ValueError, ((), demo_clock))"
  using demo_idle call_ok demo_now
    advance_refused [of 0 "Fin 0" "Fin 0" quiet_host None "Fin 3" "((), demo_clock)"]
    advance_refused [of 10 "Fin 0" "Fin 0" quiet_host None "Fin (- 3)" "((), demo_clock)" "Fin (- 1)"]
    advance_refused [of 10 "Fin 0" "Fin 0" quiet_host None "Fin 3" "((), demo_clock\<lparr>sc_advancing := True\<rparr>)"]
  by (simp add: idle_clock_def)

text \<open>One turn of \<open>_settle\<close>'s loop: the rounds, then \<open>settle\<close>.\<close>

definition settle_turn :: "'w host \<Rightarrow> ('w st, bool) py \<Rightarrow> ('w st, bool) py" where
  "settle_turn h f = andThen (\<lambda>s. checkpoints h (sc_settle_rounds (snd s)) s) (\<lambda>_. f)"

definition after_turns :: "'w host \<Rightarrow> ('w st, bool) py \<Rightarrow> nat \<Rightarrow> 'w st \<Rightarrow> 'w st" where
  "after_turns h f k = (\<lambda>s. snd (settle_turn h f s)) ^^ k"

text \<open>\<open>settle\<close> is asked again while it says True, and at most \<open>max_settles\<close> times: the first
  False ends the settling, and when all \<open>max_settles\<close> answers are True it raises RuntimeError.\<close>

theorem settle_bounded:
  assumes "k \<le> n" "\<forall>j < k. fst (settle_turn h f (after_turns h f j s)) = Inr True"
    and "k < n \<longrightarrow> fst (settle_turn h f (after_turns h f k s)) = Inr False"
  shows "settle_turns h (Some f) n s =
    (if k = n then (Inl RuntimeError, after_turns h f k s) else (Inr (), after_turns h f (Suc k) s))"
  using assms
proof (induction n arbitrary: s k)
  case 0
  then show ?case by (simp add: after_turns_def)
next
  case (Suc n)
  let ?s = "snd (settle_turn h f s)"
  have shift: "after_turns h f (Suc j) s = after_turns h f j ?s" for j
    unfolding after_turns_def by (simp only: funpow_Suc_right o_apply)
  have first: "settle_turns h (Some f) (Suc n) s =
      (if b then settle_turns h (Some f) n ?s else (Inr (), ?s))" if "fst (settle_turn h f s) = Inr b" for b
    using that by (auto simp: settle_turn_def andThen_def split: prod.splits sum.splits)
  show ?case
  proof (cases k)
    case 0
    with Suc.prems(3) have "fst (settle_turn h f s) = Inr False" by (simp add: after_turns_def)
    from first [OF this] 0 show ?thesis by (simp add: after_turns_def)
  next
    case (Suc i)
    have "fst (settle_turn h f s) = Inr True" using Suc.prems(2) Suc by (auto simp: after_turns_def)
    moreover have "settle_turns h (Some f) n ?s =
        (if i = n then (Inl RuntimeError, after_turns h f i ?s) else (Inr (), after_turns h f (Suc i) ?s))"
      by (rule Suc.IH) (use Suc.prems Suc shift in auto)
    ultimately show ?thesis using first Suc shift by simp
  qed
qed

text \<open>A \<open>settle\<close> that counts how often it is asked and is content from the third time on.\<close>

definition restless :: "(nat st, bool) py" where
  "restless s = (Inr (fst s < 2), (Suc (fst s), snd s))"

definition calm_host :: "nat host" where
  "calm_host = \<lparr>h_checkpoint = ret (), h_callback = (\<lambda>_. ret ())\<rparr>"

lemma calm_turn: "settle_turn calm_host restless s = (Inr (fst s < 2), (Suc (fst s), snd s))"
proof -
  have "checkpoints calm_host n s = (Inr (), s)" for n s
    by (induction n arbitrary: s) (simp_all add: calm_host_def)
  then show ?thesis by (simp add: settle_turn_def andThen_def restless_def)
qed

lemma settle_bounded_witness:
  "settle_turns calm_host (Some restless) 2 (0, demo_clock) = (Inl RuntimeError, (2, demo_clock)) \<and>
   settle_turns calm_host (Some restless) 5 (0, demo_clock) = (Inr (), (3, demo_clock))"
proof -
  have after: "after_turns calm_host restless k s = (fst s + k, snd s)" for k s
    by (induction k) (simp_all add: after_turns_def calm_turn)
  show ?thesis
    using settle_bounded [of 2 2 calm_host restless "(0, demo_clock)"]
      settle_bounded [of 2 5 calm_host restless "(0, demo_clock)"]
    by (simp add: after calm_turn)
qed

section \<open>Periodic iteration\<close>

text \<open>C21: \<open>SimClock.every\<close> does not drift and does not catch up in a burst: the stamp after a
  reading \<open>now\<close> of the clock is \<open>t0 + n * period\<close> for the least later \<open>n\<close> whose stamp lies beyond
  \<open>now\<close>; all the stamps it skips had been reached.\<close>

theorem sim_every_next:
  assumes "sim_every_skip g now = Inr g'"
  shows "\<exists>n > se_n g. g' = g\<lparr>se_n := n\<rparr> \<and> (\<exists>t. sim_every_tick g' = Inr t \<and> \<not> fle t now) \<and>
    (\<forall>m. se_n g < m \<and> m < n \<longrightarrow> (\<exists>t. sim_every_tick (g\<lparr>se_n := m\<rparr>) = Inr t \<and> fle t now))"
proof -
  from sim_every_skip_spec [OF assms] obtain k where k: "1 \<le> k" "g' = g\<lparr>se_n := se_n g + k\<rparr>"
    "\<exists>t. sim_every_tick g' = Inr t \<and> \<not> fle t now"
    "\<forall>j. 1 \<le> j \<and> j < k \<longrightarrow> (\<exists>t. sim_every_tick (g\<lparr>se_n := se_n g + j\<rparr>) = Inr t \<and> fle t now)" by blast
  have "\<exists>t. sim_every_tick (g\<lparr>se_n := m\<rparr>) = Inr t \<and> fle t now" if "se_n g < m" "m < se_n g + k" for m
    using k(4) [rule_format, of "m - se_n g"] that by simp
  with k show ?thesis by (intro exI [of _ "se_n g + k"]) simp
qed

definition demo_every :: sim_every where
  "demo_every = \<lparr>se_t0 = Fin 1, se_n = 1, se_period = Fin (1/2)\<rparr>"

lemma sim_every_next_witness:
  "sim_every_skip demo_every (Fin (9/4)) = Inr (demo_every\<lparr>se_n := 3\<rparr>) \<and>
   (\<exists>n > 1. demo_every\<lparr>se_n := 3\<rparr> = demo_every\<lparr>se_n := n\<rparr> \<and>
     (\<exists>t. sim_every_tick (demo_every\<lparr>se_n := 3\<rparr>) = Inr t \<and> \<not> fle t (Fin (9/4))))"
proof -
  have "sim_every_skip demo_every (Fin (9/4)) = Inr (demo_every\<lparr>se_n := 3\<rparr>)" by code_simp
  with sim_every_next [OF this] show ?thesis by (auto simp: demo_every_def)
qed

text \<open>The stamps of \<open>SimClock.every\<close> strictly increase, however irregularly the consumer asks for
  them, as long as time does not run back and has reached each stamp when the consumer gets it.\<close>

theorem sim_every_increasing:
  assumes "sim_every_ok g" "reached (stamps sim_every_tick sim_skip g nows) nows"
  shows "sorted_wrt (<) (stamps sim_every_tick sim_skip g nows)"
  using assms by (rule sim.stamps_sorted)

lemma sim_every_increasing_witness:
  "stamps sim_every_tick sim_skip demo_every [Fin (3/2), Fin (13/4), Fin (7/2)] =
     [Fin (3/2), Fin 2, Fin (7/2), Fin 4] \<and>
   sorted_wrt (<) (stamps sim_every_tick sim_skip demo_every [Fin (3/2), Fin (13/4), Fin (7/2)])"
proof -
  have "sim_every_ok demo_every" by (simp add: demo_every_def sim_every_ok_def)
  moreover have "reached (stamps sim_every_tick sim_skip demo_every [Fin (3/2), Fin (13/4), Fin (7/2)])
      [Fin (3/2), Fin (13/4), Fin (7/2)]" by code_simp
  ultimately have "sorted_wrt (<) (stamps sim_every_tick sim_skip demo_every [Fin (3/2), Fin (13/4), Fin (7/2)])"
    by (rule sim_every_increasing)
  moreover have "stamps sim_every_tick sim_skip demo_every [Fin (3/2), Fin (13/4), Fin (7/2)] =
     [Fin (3/2), Fin 2, Fin (7/2), Fin 4]" by code_simp
  ultimately show ?thesis by blast
qed

text \<open>The stamps of \<open>WallClock.every\<close> strictly increase under the same conditions.\<close>

theorem wall_every_increasing:
  assumes "wall_every_ok g" "reached (stamps wall_tick wall_skip g nows) nows"
  shows "sorted_wrt (<) (stamps wall_tick wall_skip g nows)"
  using assms by (rule wall.stamps_sorted)

definition demo_wall :: wall_every where
  "demo_wall = \<lparr>we_next = Fin (3/2), we_period = Fin (1/2)\<rparr>"

lemma wall_every_increasing_witness:
  "stamps wall_tick wall_skip demo_wall [Fin (3/2), Fin (13/4)] = [Fin (3/2), Fin 2, Fin (7/2)] \<and>
   sorted_wrt (<) (stamps wall_tick wall_skip demo_wall [Fin (3/2), Fin (13/4)])"
proof -
  have "is_float (Fin (1/2))" using round_double_dyadic [of 1 1] by simp
  then have "wall_every_ok demo_wall" using float_small(3) by (simp add: demo_wall_def wall_every_ok_def)
  moreover have "reached (stamps wall_tick wall_skip demo_wall [Fin (3/2), Fin (13/4)]) [Fin (3/2), Fin (13/4)]"
    by code_simp
  ultimately have "sorted_wrt (<) (stamps wall_tick wall_skip demo_wall [Fin (3/2), Fin (13/4)])"
    by (rule wall_every_increasing)
  moreover have "stamps wall_tick wall_skip demo_wall [Fin (3/2), Fin (13/4)] = [Fin (3/2), Fin 2, Fin (7/2)]"
    by code_simp
  ultimately show ?thesis by blast
qed

text \<open>When the stamp, the period and the readings of the clock lie on a grid fine enough for
  the additions to be exact, the loop of \<open>WallClock.every\<close> that skips missed ticks ends, at the first
  stamp of the schedule beyond the reading.\<close>

theorem wall_every_skips:
  assumes "0 < p" "- (2 ^ 53) \<le> a" "r < of_int (2 ^ 53 - p) * 2 powi e" "- 1074 \<le> e" "e \<le> 900"
  shows "\<exists>k. wall_every_skip \<lparr>we_next = Fin (of_int a * 2 powi e), we_period = Fin (of_int p * 2 powi e)\<rparr> (Fin r) =
      Some \<lparr>we_next = Fin (of_int (a + int k * p) * 2 powi e), we_period = Fin (of_int p * 2 powi e)\<rparr> \<and>
    r < of_int (a + int k * p) * 2 powi e \<and> (\<forall>j < k. of_int (a + int j * p) * 2 powi e \<le> r)"
  using assms by (rule wall_every_skip_grid)

lemma wall_every_skips_witness:
  "\<exists>k. wall_every_skip \<lparr>we_next = Fin 3, we_period = Fin 2\<rparr> (Fin 10) =
      Some \<lparr>we_next = Fin (of_int (3 + int k * 2)), we_period = Fin 2\<rparr> \<and> 10 < (of_int (3 + int k * 2) :: rat)"
  using wall_every_skips [of 2 3 10 0] by auto

text \<open>C23: Outside such a grid the loop need not end: where adding the period no longer changes the
  stamp (a long uptime, a tiny period), a consumer that is late makes it hang.\<close>

theorem wall_every_hangs:
  assumes "fle (we_next g) now" "fadd (we_next g) (we_period g) = we_next g"
  shows "wall_every_skip g now = None"
proof (rule ccontr)
  assume "wall_every_skip g now \<noteq> None"
  then obtain g' where run: "wall_every_skip g now = Some g'" by blast
  let ?Q = "\<lambda>g n g'. fle (we_next g) n \<longrightarrow> fadd (we_next g) (we_period g) \<noteq> we_next g"
  have "?Q g now g'"
  proof (rule wall_every_skip.raw_induct [where P = ?Q, OF _ run])
    fix skip g n g'
    assume IH: "\<And>g n g'. skip g n = Some g' \<Longrightarrow> ?Q g n g'"
      and body: "(if fle (we_next g) n then skip (g\<lparr>we_next := fadd (we_next g) (we_period g)\<rparr>) n else Some g) = Some g'"
    show "?Q g n g'"
    proof (intro impI notI)
      assume le: "fle (we_next g) n" and stuck: "fadd (we_next g) (we_period g) = we_next g"
      with body have "skip g n = Some g'" by simp
      with IH le stuck show False by blast
    qed
  qed
  with assms show False by blast
qed

lemma wall_every_hangs_witness:
  "wall_every_skip \<lparr>we_next = Fin (2 ^ 53), we_period = Fin 1\<rparr> (Fin (2 ^ 53)) = None"
proof (rule wall_every_hangs)
  show "fadd (we_next \<lparr>we_next = Fin (2 ^ 53), we_period = Fin 1\<rparr>)
      (we_period \<lparr>we_next = Fin (2 ^ 53), we_period = Fin 1\<rparr>) = we_next \<lparr>we_next = Fin (2 ^ 53), we_period = Fin 1\<rparr>"
  proof -
    have "ilog2 (2 ^ 53 + 1) = 53"
      by (simp add: ilog2_def) code_simp
    moreover have "\<lfloor>9007199254740993 / 2 :: rat\<rfloor> = 4503599627370496"
      by (rule floor_unique) simp_all
    ultimately have "round_value (2 ^ 53 + 1) = 2 ^ 53"
      by (simp add: round_value_def ulp_exp_def round_half_even_def Let_def)
    then show ?thesis by (simp add: round_double_def float_limit_def Let_def)
  qed
qed (simp add: fle_def_order)

text \<open>\<open>cooperative_every\<close> yields the stamps of the clock's own iterator and ends at the first
  tick at which the stop has been signalled, on either clock.\<close>

theorem cooperative_every_prefix:
  "cooperative_stamps sim_every_tick sim_skip g turns =
     take (length (takeWhile (\<lambda>(stopping, now). \<not> stopping) turns))
       (stamps sim_every_tick sim_skip g (map snd turns)) \<and>
   cooperative_stamps wall_tick wall_skip v turns =
     take (length (takeWhile (\<lambda>(stopping, now). \<not> stopping) turns))
       (stamps wall_tick wall_skip v (map snd turns))"
  by (intro conjI) (rule cooperative_stamps_take)+

section \<open>Deadlines that are no number\<close>




end
