(* ===== verification/Supervisor.thy ===== *)
theory Supervisor imports Prelude PyFloat begin

text \<open>
  \<open>supervisor.py\<close>: registration, stop coordination, health records and the host loop of one daemon,
  with the naming rules of \<open>daemon.py\<close> and the stop flag of \<open>context.py\<close>.

  The three hooks of a daemon, the clock's sleep and AnyIO's timeouts are arguments: operations on
  the user's world and the supervisor, which may change both while they are awaited, may raise and
  may never end, which is \<open>None\<close> (a \<open>run\<close> that goes on for ever is the usual one).
  An \<open>Event\<close> is a boolean; the stop and the all-done event exist from \<open>__aenter__\<close> on.  \<open>su_calls\<close>
  logs every hook call of the host loops, \<open>su_ends\<close> how each ended, \<open>su_sleeps\<close> their backoffs,
  \<open>su_launched\<close> every task started.
\<close>

section \<open>State\<close>

datatype daemon_state = Starting | Running | Restarting | Stopped | Failed

datatype failure_phase = OnStart | OnRun | OnStop

datatype on_error = Shutdown | Restart | Ignore

record restart_policy =
  rp_base :: pyfloat
  rp_factor :: pyfloat
  rp_cap :: pyfloat
  rp_max_retries :: "int option"

definition default_policy :: restart_policy where
  "default_policy = \<lparr>rp_base = round_double (1/10), rp_factor = Fin 2, rp_cap = Fin 5, rp_max_retries = None\<rparr>"

record daemon_record =
  dr_state :: daemon_state
  dr_restart_count :: int
  dr_last_error :: "exn option"
  dr_last_error_phase :: "failure_phase option"
  dr_started_at :: "pyfloat option"
  dr_started_event :: bool

definition new_record :: daemon_record where
  "new_record = \<lparr>dr_state = Starting, dr_restart_count = 0, dr_last_error = None,
     dr_last_error_phase = None, dr_started_at = None, dr_started_event = False\<rparr>"

record health =
  dh_name :: string
  dh_state :: daemon_state
  dh_restart_count :: int
  dh_last_error :: "exn option"
  dh_last_error_phase :: "failure_phase option"
  dh_started_at :: "pyfloat option"
  dh_uptime :: "pyfloat option"

text \<open>A daemon object is a number; \<open>su_tg\<close> says whether the task group is open.\<close>

record supervisor =
  su_on_error :: on_error
  su_restart :: restart_policy
  su_tg :: bool
  su_pending :: "(nat \<times> string) list"
  su_records :: "string \<rightharpoonup> daemon_record"
  su_seen :: "string set"
  su_stop_event :: "bool option"
  su_all_done :: "bool option"
  su_active :: int
  su_finalize_timeout :: pyfloat
  su_cancelled :: bool
  su_launched :: "(nat \<times> string) list"
  su_calls :: "(string \<times> failure_phase) list"
  su_ends :: "(string \<times> failure_phase \<times> (exn + unit)) list"
  su_sleeps :: "(string \<times> pyfloat) list"

definition new_supervisor :: "on_error \<Rightarrow> restart_policy option \<Rightarrow> supervisor" where
  "new_supervisor on_error restart =
     \<lparr>su_on_error = on_error,
      su_restart = (case restart of None \<Rightarrow> default_policy | Some p \<Rightarrow> p),
      su_tg = False, su_pending = [], su_records = (\<lambda>_. None), su_seen = {},
      su_stop_event = None, su_all_done = None, su_active = 0, su_finalize_timeout = Fin 2,
      su_cancelled = False, su_launched = [], su_calls = [], su_ends = [], su_sleeps = []\<rparr>"

text \<open>The property \<open>stop_event\<close>, and \<open>Context.stopping\<close>.\<close>

definition get_stop_event :: "supervisor \<Rightarrow> exn + bool" where
  "get_stop_event s = (case su_stop_event s of None \<Rightarrow> Inl RuntimeError | Some b \<Rightarrow> Inr b)"

definition stopping :: "supervisor \<Rightarrow> bool" where
  "stopping s \<longleftrightarrow> su_stop_event s = Some True"

section \<open>Entry, exit and registration\<close>

definition launch :: "(nat \<times> string) \<Rightarrow> supervisor \<Rightarrow> supervisor" where
  "launch d s = s\<lparr>su_active := su_active s + 1, su_launched := su_launched s @ [d]\<rparr>"

definition sup_enter :: "supervisor \<Rightarrow> supervisor" where
  "sup_enter s = fold launch (su_pending s)
     (s\<lparr>su_tg := True, su_stop_event := Some False, su_all_done := Some False, su_pending := [],
        su_cancelled := False\<rparr>)"

definition sup_exit :: "supervisor \<Rightarrow> supervisor" where
  "sup_exit s = s\<lparr>su_tg := False\<rparr>"

text \<open>What is handed to \<open>add\<close>: a daemon (its number, its \<open>name\<close>, its class's), an uncalled
  \<open>@daemon\<close> factory, or anything else.\<close>

datatype add_arg = ADaemon nat string string | AFactory | AOther

text \<open>Python's \<open>or\<close> on optional strings: the empty one is false.\<close>

definition or_else :: "string option \<Rightarrow> string \<Rightarrow> string" where
  "or_else n d = (case n of None \<Rightarrow> d | Some x \<Rightarrow> if x = [] then d else x)"

definition chosen_name :: "string option \<Rightarrow> string \<Rightarrow> string \<Rightarrow> string" where
  "chosen_name name own cls = or_else name (or_else (Some own) cls)"

definition add :: "add_arg \<Rightarrow> string option \<Rightarrow> supervisor \<Rightarrow> (exn + unit) \<times> supervisor" where
  "add arg name s = (case arg of
     AFactory \<Rightarrow> (Inl TypeError, s)
   | AOther \<Rightarrow> (Inl TypeError, s)
   | ADaemon d own cls \<Rightarrow>
       let chosen = chosen_name name own cls in
       if chosen \<in> su_seen s then (Inl ValueError, s)
       else
         let s1 = s\<lparr>su_seen := insert chosen (su_seen s), su_records := (su_records s)(chosen \<mapsto> new_record)\<rparr> in
         (Inr (), if su_tg s1 then launch (d, chosen) s1
                  else s1\<lparr>su_pending := su_pending s1 @ [(d, chosen)]\<rparr>))"

definition spawn :: "nat \<Rightarrow> string \<Rightarrow> string option \<Rightarrow> supervisor \<Rightarrow> (exn + unit) \<times> supervisor" where
  "spawn fn fn_name name s =
     (let chosen = or_else name fn_name in add (ADaemon fn chosen ''_FnDaemon'') (Some chosen) s)"

section \<open>Stop coordination\<close>

definition signal_stop :: "supervisor \<Rightarrow> supervisor" where
  "signal_stop s = (if su_stop_event s = None then s else s\<lparr>su_stop_event := Some True\<rparr>)"

type_synonym 'w sup_st = "'w \<times> supervisor"

text \<open>\<open>wait_done grace\<close> is the wait for the all-done event under AnyIO's \<open>move_on_after(grace)\<close>.\<close>

definition stop :: "(pyfloat \<Rightarrow> ('w sup_st, unit) py) \<Rightarrow> pyfloat \<Rightarrow> pyfloat \<Rightarrow> ('w sup_st, unit) py" where
  "stop wait_done grace finalize_timeout s =
     (let s1 = signal_stop ((snd s)\<lparr>su_finalize_timeout := finalize_timeout\<rparr>) in
      if \<not> su_tg s1 \<or> su_all_done s1 = None \<or> su_active s1 = 0 then (Inr (), (fst s, s1))
      else andThen (if flt (Fin 0) grace then wait_done grace else ret ())
             (\<lambda>_ t. (Inr (), (fst t,
                if su_all_done (snd t) \<noteq> Some True \<and> su_tg (snd t)
                then (snd t)\<lparr>su_cancelled := True\<rparr> else snd t)))
             (fst s, s1))"

text \<open>\<open>wait_all_started\<close> waits for these events of the daemons known at the call.\<close>

definition start_barrier :: "supervisor \<Rightarrow> string set" where
  "start_barrier s = (if su_tg s then dom (su_records s) else {})"

definition all_started :: "string set \<Rightarrow> supervisor \<Rightarrow> bool" where
  "all_started names s \<longleftrightarrow> (\<forall>n \<in> names. \<exists>r. su_records s n = Some r \<and> dr_started_event r)"

section \<open>Diagnostics\<close>

definition health_of :: "pyfloat \<Rightarrow> string \<Rightarrow> daemon_record \<Rightarrow> health" where
  "health_of now n r =
     \<lparr>dh_name = n, dh_state = dr_state r, dh_restart_count = dr_restart_count r,
      dh_last_error = dr_last_error r, dh_last_error_phase = dr_last_error_phase r,
      dh_started_at = dr_started_at r,
      dh_uptime = (case dr_started_at r of
         Some t \<Rightarrow> if dr_state r = Running then Some (fsub now t) else None
       | None \<Rightarrow> None)\<rparr>"

definition snapshot :: "pyfloat \<Rightarrow> supervisor \<Rightarrow> string \<rightharpoonup> health" where
  "snapshot now s n = map_option (health_of now n) (su_records s n)"

section \<open>The host loop\<close>

definition on_daemon_exit :: "supervisor \<Rightarrow> (exn + unit) \<times> supervisor" where
  "on_daemon_exit s =
     (if su_stop_event s = None \<or> su_all_done s = None then (Inl AssertionError, s)
      else let s1 = s\<lparr>su_active := su_active s - 1\<rparr> in
        (Inr (), if su_active s1 = 0 \<and> su_stop_event s1 = Some True
                 then s1\<lparr>su_all_done := Some True\<rparr> else s1))"

definition map_record :: "string \<Rightarrow> (daemon_record \<Rightarrow> daemon_record) \<Rightarrow> supervisor \<Rightarrow> supervisor" where
  "map_record n f s = (case su_records s n of
     None \<Rightarrow> s | Some r \<Rightarrow> s\<lparr>su_records := (su_records s)(n \<mapsto> f r)\<rparr>)"

definition log_call :: "string \<Rightarrow> failure_phase \<Rightarrow> supervisor \<Rightarrow> supervisor" where
  "log_call n p s = s\<lparr>su_calls := su_calls s @ [(n, p)]\<rparr>"

definition log_end :: "string \<Rightarrow> failure_phase \<Rightarrow> exn + unit \<Rightarrow> supervisor \<Rightarrow> supervisor" where
  "log_end n p x s = s\<lparr>su_ends := su_ends s @ [(n, p, x)]\<rparr>"

definition log_sleep :: "string \<Rightarrow> pyfloat \<Rightarrow> supervisor \<Rightarrow> supervisor" where
  "log_sleep n t s = s\<lparr>su_sleeps := su_sleeps s @ [(n, t)]\<rparr>"

text \<open>
  The hooks of a daemon and what else the loop awaits.  \<open>dm_own_cancel\<close>: whether a cancellation that
  reaches the attempt's own scope was asked for through it, so that AnyIO ends it there.
  \<open>dm_on_stop_timed t\<close>: \<open>on_stop\<close> shielded, under a timeout; \<open>Cancelled\<close> is the timeout.
\<close>

type_synonym 'w hook = "'w sup_st \<Rightarrow> ((exn + unit) \<times> 'w sup_st) option"

record 'w daemon =
  dm_on_start :: "'w hook"
  dm_run :: "'w hook"
  dm_on_stop :: "'w hook"
  dm_on_stop_timed :: "pyfloat \<Rightarrow> 'w hook"
  dm_own_cancel :: "'w sup_st \<Rightarrow> bool"

record 'w time =
  tm_now :: "'w \<Rightarrow> pyfloat"
  tm_sleep :: "pyfloat \<Rightarrow> 'w hook"

text \<open>A hook that does nothing, like those of the base class \<open>Daemon\<close>.\<close>

definition at_once :: "'w hook" where
  "at_once s = Some (Inr (), s)"

definition on_sup :: "(supervisor \<Rightarrow> supervisor) \<Rightarrow> 'w sup_st \<Rightarrow> 'w sup_st" where
  "on_sup f s = (fst s, f (snd s))"

text \<open>A hook is called: the log, the hook, and if it ends, the log of how.\<close>

definition call_hook :: "string \<Rightarrow> failure_phase \<Rightarrow> 'w hook \<Rightarrow> 'w hook" where
  "call_hook n p hook s =
     map_option (\<lambda>(x, t). (x, on_sup (log_end n p x) t)) (hook (on_sup (log_call n p) s))"

definition run_on_stop_shielded :: "'w daemon \<Rightarrow> string \<Rightarrow> 'w hook" where
  "run_on_stop_shielded d n s =
     (case call_hook n OnStop (dm_on_stop_timed d (su_finalize_timeout (snd s))) s of
        None \<Rightarrow> None
      | Some (Inl e, s1) \<Rightarrow> Some (if is_Exception e \<or> e = Cancelled then Inr () else Inl e, s1)
      | Some (Inr _, s1) \<Rightarrow> Some (Inr (), s1))"

text \<open>
  The body of one attempt up to its \<open>except\<close>: how far it came, and the exception if one left it.
  \<open>started\<close> is \<open>on_start_done\<close>, \<open>stop_called\<close> is \<open>on_stop_started\<close>.
\<close>

record progress =
  pg_started :: bool
  pg_stop_called :: bool
  pg_phase :: failure_phase

definition enter_running :: "'w time \<Rightarrow> string \<Rightarrow> 'w sup_st \<Rightarrow> 'w sup_st" where
  "enter_running tm n s = on_sup (map_record n (\<lambda>r. r\<lparr>dr_state := Running,
     dr_started_at := Some (tm_now tm (fst s)), dr_started_event := True\<rparr>)) s"

definition scope_body :: "'w time \<Rightarrow> 'w daemon \<Rightarrow> string \<Rightarrow> 'w sup_st \<Rightarrow> (progress \<times> (exn + unit) \<times> 'w sup_st) option" where
  "scope_body tm d n s =
     (case call_hook n OnStart (dm_on_start d) s of
        None \<Rightarrow> None
      | Some (Inl e, s1) \<Rightarrow> Some (\<lparr>pg_started = False, pg_stop_called = False, pg_phase = OnStart\<rparr>, Inl e, s1)
      | Some (Inr _, s1) \<Rightarrow>
          map_option (\<lambda>(r, s2). (\<lparr>pg_started = True, pg_stop_called = False, pg_phase = OnRun\<rparr>, r, s2))
            (call_hook n OnRun (dm_run d) (enter_running tm n s1)))"

definition attempt_body :: "'w time \<Rightarrow> 'w daemon \<Rightarrow> string \<Rightarrow> 'w sup_st \<Rightarrow> (progress \<times> (exn + unit) \<times> 'w sup_st) option" where
  "attempt_body tm d n s =
     (case scope_body tm d n (on_sup (map_record n (\<lambda>r. r\<lparr>dr_state := Starting, dr_started_at := None\<rparr>)) s) of
        None \<Rightarrow> None
      | Some (pg, r, s1) \<Rightarrow>
          if r = Inr () \<or> (r = Inl Cancelled \<and> dm_own_cancel d s1)
          then map_option (\<lambda>(r', s2). (pg\<lparr>pg_stop_called := True, pg_phase := OnStop\<rparr>, r', s2))
                 (call_hook n OnStop (dm_on_stop d) s1)
          else Some (pg, r, s1))"

text \<open>The outcome of an attempt: \<open>return\<close>, an exception, or another attempt after the backoff.\<close>

datatype outcome = Return | Raise exn | Retry

definition set_state :: "string \<Rightarrow> daemon_state \<Rightarrow> 'w sup_st \<Rightarrow> 'w sup_st" where
  "set_state n st = on_sup (map_record n (\<lambda>r. r\<lparr>dr_state := st\<rparr>))"

definition set_error :: "string \<Rightarrow> exn \<Rightarrow> failure_phase \<Rightarrow> 'w sup_st \<Rightarrow> 'w sup_st" where
  "set_error n e p = on_sup (map_record n (\<lambda>r. r\<lparr>dr_last_error := Some e, dr_last_error_phase := Some p\<rparr>))"

text \<open>Lines 334 to 362: the policy for an exception \<open>e\<close>, once \<open>on_stop\<close> has been seen to.\<close>

definition failure_policy :: "string \<Rightarrow> int \<Rightarrow> failure_phase \<Rightarrow> exn \<Rightarrow> 'w sup_st \<Rightarrow> outcome \<times> 'w sup_st" where
  "failure_policy n retries phase e s =
     (if e = Cancelled then (Raise e, set_state n Stopped s)
      else if \<not> is_Exception e then (Raise e, set_error n e phase (set_state n Failed s))
      else
        let s1 = set_error n e phase s in
        if phase = OnStop \<and> su_on_error (snd s1) \<noteq> Ignore then (Raise DaemonError, set_state n Failed s1)
        else case su_on_error (snd s1) of
          Shutdown \<Rightarrow> (Raise DaemonError, set_state n Failed s1)
        | Ignore \<Rightarrow> (Return, set_state n Stopped s1)
        | Restart \<Rightarrow>
            if stopping (snd s1) then (Return, set_state n Stopped s1)
            else
              let s2 = on_sup (map_record n (\<lambda>r. r\<lparr>dr_restart_count := retries + 1\<rparr>)) s1 in
              if (case rp_max_retries (su_restart (snd s2)) of None \<Rightarrow> False | Some m \<Rightarrow> retries + 1 > m)
              then (Raise DaemonError, set_state n Failed s2)
              else (Retry, set_state n Restarting s2))"

definition attempt :: "'w time \<Rightarrow> 'w daemon \<Rightarrow> string \<Rightarrow> int \<Rightarrow> 'w sup_st \<Rightarrow> (outcome \<times> 'w sup_st) option" where
  "attempt tm d n retries s =
     (case attempt_body tm d n s of
        None \<Rightarrow> None
      | Some (pg, Inr _, s1) \<Rightarrow> Some (Return, set_state n Stopped s1)
      | Some (pg, Inl e, s1) \<Rightarrow>
          if pg_started pg \<and> \<not> pg_stop_called pg
          then (case run_on_stop_shielded d n s1 of
                  None \<Rightarrow> None
                | Some (Inl e', s2) \<Rightarrow> Some (Raise e', s2)
                | Some (Inr _, s2) \<Rightarrow> Some (failure_policy n retries (pg_phase pg) e s2))
          else Some (failure_policy n retries (pg_phase pg) e s1))"

definition next_delay :: "restart_policy \<Rightarrow> pyfloat \<Rightarrow> pyfloat" where
  "next_delay p delay = pymin (fmul delay (rp_factor p)) (rp_cap p)"

text \<open>The \<open>while True\<close>; a daemon may be restarted for ever, which is \<open>None\<close> as well.\<close>

partial_function (option) host_loop ::
  "'w time \<Rightarrow> 'w daemon \<Rightarrow> string \<Rightarrow> int \<Rightarrow> pyfloat \<Rightarrow> 'w sup_st \<Rightarrow> ((exn + unit) \<times> 'w sup_st) option" where
  "host_loop tm d n retries delay s =
     (case attempt tm d n retries s of
        None \<Rightarrow> None
      | Some (Return, s1) \<Rightarrow> Some (Inr (), s1)
      | Some (Raise e, s1) \<Rightarrow> Some (Inl e, s1)
      | Some (Retry, s1) \<Rightarrow>
          (case tm_sleep tm delay (on_sup (log_sleep n delay) s1) of
             None \<Rightarrow> None
           | Some (Inl e, s2) \<Rightarrow> Some (Inl e, s2)
           | Some (Inr _, s2) \<Rightarrow>
               host_loop tm d n (retries + 1) (next_delay (su_restart (snd s2)) delay) s2))"

declare host_loop.simps [code]

text \<open>The \<open>finally\<close>: the start barrier is released, then the exit is counted.\<close>

definition host_finally :: "string \<Rightarrow> (exn + unit) \<Rightarrow> 'w sup_st \<Rightarrow> (exn + unit) \<times> 'w sup_st" where
  "host_finally n r s =
     (let s1 = on_sup (map_record n (\<lambda>r. r\<lparr>dr_started_event := True\<rparr>)) s in
      case on_daemon_exit (snd s1) of
        (Inl e, su) \<Rightarrow> (Inl e, (fst s1, su))
      | (Inr _, su) \<Rightarrow> (r, (fst s1, su)))"

definition host :: "'w time \<Rightarrow> 'w daemon \<Rightarrow> string \<Rightarrow> 'w sup_st \<Rightarrow> ((exn + unit) \<times> 'w sup_st) option" where
  "host tm d n s =
     map_option (\<lambda>(r, s1). host_finally n r s1)
       (host_loop tm d n 0 (rp_base (su_restart (snd s))) s)"

end
