(* ===== verification/SupervisorHost.thy ===== *)
theory SupervisorHost imports Supervisor begin

text \<open>
  The host loop under interference: while a hook, the clock or a timeout is awaited, the other
  tasks use the supervisor too (\<open>other_act\<close>).  They cannot touch the record of this daemon, since
  names are unique, and they do not enter the supervisor a second time while its hosts run.  What a
  whole run leaves behind is proved by one induction over the attempts.
\<close>

section \<open>What other tasks do to the supervisor\<close>

inductive other_act :: "string \<Rightarrow> supervisor \<Rightarrow> supervisor \<Rightarrow> bool" for n where
  add: "other_act n s (snd (add arg name s))"
| signal: "other_act n s (signal_stop s)"
| timeout: "other_act n s (s\<lparr>su_finalize_timeout := t\<rparr>)"
| cancel: "other_act n s (s\<lparr>su_cancelled := True\<rparr>)"
| rewrite: "m \<noteq> n \<Longrightarrow> other_act n s (map_record m f s)"
| call: "m \<noteq> n \<Longrightarrow> other_act n s (log_call m p s)"
| ended: "m \<noteq> n \<Longrightarrow> other_act n s (log_end m p x s)"
| sleep: "m \<noteq> n \<Longrightarrow> other_act n s (log_sleep m t s)"
| exit: "other_act n s (snd (on_daemon_exit s))"
| leave: "other_act n s (sup_exit s)"

definition calls_of :: "string \<Rightarrow> supervisor \<Rightarrow> failure_phase list" where
  "calls_of n s = map snd (filter (\<lambda>c. fst c = n) (su_calls s))"

definition ends_of :: "string \<Rightarrow> supervisor \<Rightarrow> (failure_phase \<times> (exn + unit)) list" where
  "ends_of n s = map snd (filter (\<lambda>c. fst c = n) (su_ends s))"

definition sleeps_of :: "string \<Rightarrow> supervisor \<Rightarrow> pyfloat list" where
  "sleeps_of n s = map snd (filter (\<lambda>c. fst c = n) (su_sleeps s))"

text \<open>What stays as it is for the daemon \<open>n\<close>.\<close>

definition undisturbed :: "string \<Rightarrow> supervisor \<Rightarrow> supervisor \<Rightarrow> bool" where
  "undisturbed n s s' \<longleftrightarrow>
     su_records s' n = su_records s n \<and> calls_of n s' = calls_of n s \<and> ends_of n s' = ends_of n s \<and> sleeps_of n s' = sleeps_of n s \<and>
     su_on_error s' = su_on_error s \<and> su_restart s' = su_restart s \<and> su_seen s \<subseteq> su_seen s' \<and>
     (stopping s \<longrightarrow> stopping s') \<and> (su_stop_event s' = None \<longleftrightarrow> su_stop_event s = None) \<and>
     (su_all_done s' = None \<longleftrightarrow> su_all_done s = None)"

lemma undisturbed_refl [simp]: "undisturbed n s s"
  by (simp add: undisturbed_def)

lemma undisturbed_trans: "undisturbed n s s' \<Longrightarrow> undisturbed n s' s'' \<Longrightarrow> undisturbed n s s''"
  by (auto simp: undisturbed_def)

lemma add_undisturbed: "n \<in> su_seen s \<Longrightarrow> undisturbed n s (snd (add arg name s))"
  by (cases arg) (auto simp: add_def undisturbed_def launch_def calls_of_def ends_of_def sleeps_of_def stopping_def Let_def)

lemma other_act_undisturbed:
  assumes "other_act n s s'" "n \<in> su_seen s"
  shows "undisturbed n s s'"
  using assms(1)
proof cases
  case (add arg name)
  with add_undisturbed [OF assms(2)] show ?thesis by simp
next
  case (rewrite m f)
  then show ?thesis by (auto simp: undisturbed_def map_record_def calls_of_def ends_of_def sleeps_of_def stopping_def split: option.split)
qed (auto simp: undisturbed_def calls_of_def ends_of_def sleeps_of_def stopping_def signal_stop_def log_call_def
    log_end_def log_sleep_def on_daemon_exit_def sup_exit_def Let_def)

lemma other_acts_undisturbed:
  "(other_act n)\<^sup>*\<^sup>* s s' \<Longrightarrow> n \<in> su_seen s \<Longrightarrow> undisturbed n s s'"
proof (induction rule: rtranclp_induct)
  case (step t u)
  then have t: "undisturbed n s t" by blast
  with step.prems have "n \<in> su_seen t" by (auto simp: undisturbed_def)
  with t step.hyps(2) show ?case using other_act_undisturbed undisturbed_trans by blast
qed simp

definition polite :: "string \<Rightarrow> 'w hook \<Rightarrow> bool" where
  "polite n m \<longleftrightarrow> (\<forall>s r s'. m s = Some (r, s') \<longrightarrow> (other_act n)\<^sup>*\<^sup>* (snd s) (snd s'))"

definition daemon_polite :: "string \<Rightarrow> 'w daemon \<Rightarrow> bool" where
  "daemon_polite n d \<longleftrightarrow> polite n (dm_on_start d) \<and> polite n (dm_run d) \<and> polite n (dm_on_stop d) \<and>
     (\<forall>t. polite n (dm_on_stop_timed d t))"

text \<open>The clock's sleep can only be cancelled.\<close>

definition time_polite :: "string \<Rightarrow> 'w time \<Rightarrow> bool" where
  "time_polite n tm \<longleftrightarrow> (\<forall>t. polite n (tm_sleep tm t)) \<and>
     (\<forall>t s e s'. tm_sleep tm t s = Some (Inl e, s') \<longrightarrow> e = Cancelled)"

lemma politeD: "polite n m \<Longrightarrow> m s = Some (r, s') \<Longrightarrow> n \<in> su_seen (snd s) \<Longrightarrow> undisturbed n (snd s) (snd s')"
  unfolding polite_def by (blast intro: other_acts_undisturbed)

text \<open>Calls that end, however long they take.\<close>

definition always_ends :: "'w hook \<Rightarrow> bool" where
  "always_ends m \<longleftrightarrow> (\<forall>s. m s \<noteq> None)"

definition daemon_ends :: "'w daemon \<Rightarrow> bool" where
  "daemon_ends d \<longleftrightarrow> always_ends (dm_on_start d) \<and> always_ends (dm_run d) \<and> always_ends (dm_on_stop d) \<and>
     (\<forall>t. always_ends (dm_on_stop_timed d t))"

definition time_ends :: "'w time \<Rightarrow> bool" where
  "time_ends tm \<longleftrightarrow> (\<forall>t. always_ends (tm_sleep tm t))"

lemma at_once_polite [simp]: "polite n at_once" "always_ends at_once"
  by (simp_all add: polite_def at_once_def always_ends_def)

section \<open>One attempt\<close>

text \<open>
  The view of the daemon's own part of the supervisor: registered, with its record and calls.
\<close>

definition hosted :: "string \<Rightarrow> supervisor \<Rightarrow> daemon_record \<Rightarrow> bool" where
  "hosted n s r \<longleftrightarrow> n \<in> su_seen s \<and> su_records s n = Some r"

text \<open>What an attempt keeps of the supervisor besides the record of \<open>n\<close> and its calls.\<close>

definition same_frame :: "string \<Rightarrow> supervisor \<Rightarrow> supervisor \<Rightarrow> bool" where
  "same_frame n s s' \<longleftrightarrow> su_on_error s' = su_on_error s \<and> su_restart s' = su_restart s \<and>
     sleeps_of n s' = sleeps_of n s \<and> (stopping s \<longrightarrow> stopping s') \<and>
     (su_stop_event s' = None \<longleftrightarrow> su_stop_event s = None) \<and> (su_all_done s' = None \<longleftrightarrow> su_all_done s = None)"

lemma same_frame_refl [simp]: "same_frame n s s"
  by (simp add: same_frame_def)

lemma same_frame_trans: "same_frame n s s' \<Longrightarrow> same_frame n s' s'' \<Longrightarrow> same_frame n s s''"
  by (simp add: same_frame_def)

lemma undisturbed_hosted:
  "undisturbed n s s' \<Longrightarrow> hosted n s r \<Longrightarrow>
     hosted n s' r \<and> calls_of n s' = calls_of n s \<and> ends_of n s' = ends_of n s \<and> same_frame n s s'"
  by (auto simp: undisturbed_def hosted_def same_frame_def)

lemma map_record_hosted:
  "hosted n s r \<Longrightarrow> hosted n (map_record n f s) (f r) \<and> calls_of n (map_record n f s) = calls_of n s \<and>
     ends_of n (map_record n f s) = ends_of n s \<and> same_frame n s (map_record n f s)"
  by (auto simp: hosted_def map_record_def calls_of_def ends_of_def same_frame_def sleeps_of_def stopping_def)

text \<open>The hooks that ended since, with how they did: the calls and the ends grow alike.\<close>

definition ran :: "string \<Rightarrow> (failure_phase \<times> (exn + unit)) list \<Rightarrow> supervisor \<Rightarrow> supervisor \<Rightarrow> bool" where
  "ran n a s s' \<longleftrightarrow> calls_of n s' = calls_of n s @ map fst a \<and> ends_of n s' = ends_of n s @ a"

lemma ran_trans: "ran n a s s' \<Longrightarrow> ran n b s' s'' \<Longrightarrow> ran n (a @ b) s s''"
  by (simp add: ran_def)

lemma ran_Nil: "ran n [] s s' \<longleftrightarrow> calls_of n s' = calls_of n s \<and> ends_of n s' = ends_of n s"
  by (simp add: ran_def)

lemma call_hook_hosted:
  assumes "polite n hook" "hosted n (snd s) r" "call_hook n p hook s = Some (x, s')"
  shows "hosted n (snd s') r \<and> ran n [(p, x)] (snd s) (snd s') \<and> same_frame n (snd s) (snd s')"
proof -
  let ?s = "on_sup (log_call n p) s"
  from assms(3) obtain t where hook: "hook ?s = Some (x, t)" and s': "s' = on_sup (log_end n p x) t"
    by (auto simp: call_hook_def)
  have h: "hosted n (snd ?s) r" "calls_of n (snd ?s) = calls_of n (snd s) @ [p]" "ends_of n (snd ?s) = ends_of n (snd s)"
    "same_frame n (snd s) (snd ?s)"
    using assms(2) by (auto simp: hosted_def on_sup_def log_call_def calls_of_def ends_of_def same_frame_def sleeps_of_def stopping_def)
  have "undisturbed n (snd ?s) (snd t)" using politeD [OF assms(1) hook] h(1) by (simp add: hosted_def)
  from undisturbed_hosted [OF this h(1)] have t: "hosted n (snd t) r" "calls_of n (snd t) = calls_of n (snd s) @ [p]"
    "ends_of n (snd t) = ends_of n (snd s)" "same_frame n (snd s) (snd t)"
    using h(2,3) same_frame_trans [OF h(4)] by simp_all
  have "hosted n (snd s') r" "calls_of n (snd s') = calls_of n (snd t)" "ends_of n (snd s') = ends_of n (snd t) @ [(p, x)]"
    "same_frame n (snd t) (snd s')"
    using t(1) by (auto simp: s' hosted_def on_sup_def log_end_def calls_of_def ends_of_def same_frame_def sleeps_of_def stopping_def)
  with t same_frame_trans [OF t(4)] show ?thesis by (simp add: ran_def)
qed

lemma on_sup_simps [simp]: "snd (on_sup f s) = f (snd s)" "fst (on_sup f s) = fst s"
  by (simp_all add: on_sup_def)

lemma scope_body_spec:
  assumes pol: "daemon_polite n d" and h: "hosted n (snd s) r" and run: "scope_body tm d n s = Some (pg, x, s')"
  shows "\<exists>r' a. hosted n (snd s') r' \<and> same_frame n (snd s) (snd s') \<and> ran n a (snd s) (snd s') \<and>
    \<not> pg_stop_called pg \<and> dr_restart_count r' = dr_restart_count r \<and>
    (\<not> pg_started pg \<and> (\<exists>e. x = Inl e) \<and> pg_phase pg = OnStart \<and> a = [(OnStart, x)] \<or>
     pg_started pg \<and> pg_phase pg = OnRun \<and> a = [(OnStart, Inr ()), (OnRun, x)])"
proof -
  have hooks: "polite n (dm_on_start d)" "polite n (dm_run d)" using pol by (simp_all add: daemon_polite_def)
  from run obtain x1 s1 where one: "call_hook n OnStart (dm_on_start d) s = Some (x1, s1)"
    by (auto simp: scope_body_def split: option.splits)
  note h1 = call_hook_hosted [OF hooks(1) h one]
  show ?thesis
  proof (cases x1)
    case (Inl e)
    with run one h1 show ?thesis by (intro exI [of _ r] exI [of _ "[(OnStart, x)]"]) (auto simp: scope_body_def)
  next
    case (Inr u)
    from run one Inr obtain s2 where two: "call_hook n OnRun (dm_run d) (enter_running tm n s1) = Some (x, s2)"
      and out: "pg = \<lparr>pg_started = True, pg_stop_called = False, pg_phase = OnRun\<rparr>" "s' = s2"
      by (auto simp: scope_body_def)
    let ?f = "\<lambda>r. r\<lparr>dr_state := Running, dr_started_at := Some (tm_now tm (fst s1)), dr_started_event := True\<rparr>"
    have run1: "snd (enter_running tm n s1) = map_record n ?f (snd s1)" by (simp add: enter_running_def)
    note m = map_record_hosted [of n "snd s1" r ?f, folded run1]
    have hr: "hosted n (snd (enter_running tm n s1)) (?f r)" using m h1 by blast
    note h2 = call_hook_hosted [OF hooks(2) hr two]
    have "same_frame n (snd s) (snd s')" using h1 m h2 out same_frame_trans by blast
    moreover have "ran n [(OnStart, Inr ()), (OnRun, x)] (snd s) (snd s')"
      using h1 m h2 out Inr by (simp add: ran_def)
    ultimately show ?thesis using h2 out
      by (intro exI [of _ "?f r"] exI [of _ "[(OnStart, Inr ()), (OnRun, x)]"]) simp
  qed
qed

text \<open>
  The hooks of one attempt.  When \<open>on_start\<close> raised, nothing else is called, unless the daemon cancelled
  its own scope in it; when it returned, \<open>run\<close> and then \<open>on_stop\<close> are called, however \<open>run\<close> ended.
\<close>

definition attempt_ok :: "'w daemon \<Rightarrow> (failure_phase \<times> (exn + unit)) list \<Rightarrow> bool" where
  "attempt_ok d a \<longleftrightarrow> (\<exists>e. a = [(OnStart, Inl e)]) \<or>
     (\<exists>t z. dm_own_cancel d t \<and> a = [(OnStart, Inl Cancelled), (OnStop, z)]) \<or>
     (\<exists>y z. a = [(OnStart, Inr ()), (OnRun, y), (OnStop, z)])"

definition attempt_shape :: "failure_phase list \<Rightarrow> bool" where
  "attempt_shape a \<longleftrightarrow> a = [OnStart] \<or> a = [OnStart, OnStop] \<or> a = [OnStart, OnRun, OnStop]"

lemma attempt_ok_shape: "attempt_ok d a \<Longrightarrow> attempt_shape (map fst a)"
  by (auto simp: attempt_ok_def attempt_shape_def)

lemma attempts_ok_shape: "list_all (attempt_ok d) ats \<Longrightarrow> list_all attempt_shape (map (map fst) ats)"
  by (induction ats) (auto intro: attempt_ok_shape)

text \<open>An attempt in which a hook raised an \<open>Exception\<close>.\<close>

definition attempt_failed :: "(failure_phase \<times> (exn + unit)) list \<Rightarrow> bool" where
  "attempt_failed a \<longleftrightarrow> (\<exists>p e. (p, Inl e) \<in> set a \<and> is_Exception e)"

lemma attempt_failedI: "(p, Inl e) \<in> set a \<Longrightarrow> is_Exception e \<Longrightarrow> attempt_failed (a @ b)"
  by (auto simp: attempt_failed_def)

lemma attempt_body_spec:
  assumes pol: "daemon_polite n d" and h: "hosted n (snd s) r" and run: "attempt_body tm d n s = Some (pg, x, s')"
  shows "\<exists>r' a. hosted n (snd s') r' \<and> same_frame n (snd s) (snd s') \<and> ran n a (snd s) (snd s') \<and>
    dr_restart_count r' = dr_restart_count r \<and> (\<exists>p. (p, x) \<in> set a) \<and>
    (if pg_stop_called pg then attempt_ok d a \<and> pg_phase pg = OnStop
     else (\<exists>e. x = Inl e) \<and> (if pg_started pg then a = [(OnStart, Inr ()), (OnRun, x)] \<and> pg_phase pg = OnRun
                         else a = [(OnStart, x)] \<and> pg_phase pg = OnStart))"
proof -
  let ?f = "\<lambda>r. r\<lparr>dr_state := Starting, dr_started_at := None\<rparr>"
  let ?s = "on_sup (map_record n ?f) s"
  have m: "hosted n (snd ?s) (?f r)" "ran n [] (snd s) (snd ?s)" "same_frame n (snd s) (snd ?s)"
    using map_record_hosted [OF h, of ?f] by (simp_all add: ran_Nil)
  from run obtain pg1 x1 s1 where one: "scope_body tm d n ?s = Some (pg1, x1, s1)"
    by (auto simp: attempt_body_def split: option.splits)
  from scope_body_spec [OF pol m(1) one] m obtain r1 a where
    h1: "hosted n (snd s1) r1" "same_frame n (snd ?s) (snd s1)" "\<not> pg_stop_called pg1"
      "dr_restart_count r1 = dr_restart_count r" "ran n a (snd ?s) (snd s1)"
    and a: "\<not> pg_started pg1 \<and> (\<exists>e. x1 = Inl e) \<and> pg_phase pg1 = OnStart \<and> a = [(OnStart, x1)] \<or>
      pg_started pg1 \<and> pg_phase pg1 = OnRun \<and> a = [(OnStart, Inr ()), (OnRun, x1)]"
    by auto
  have f1: "same_frame n (snd s) (snd s1)" using m(3) h1(2) by (rule same_frame_trans)
  have ran1: "ran n a (snd s) (snd s1)" using ran_trans [OF m(2) h1(5)] by simp
  show ?thesis
  proof (cases "x1 = Inr () \<or> (x1 = Inl Cancelled \<and> dm_own_cancel d s1)")
    case False
    then have out: "pg = pg1" "x = x1" "s' = s1" using run one by (auto simp: attempt_body_def)
    have "\<exists>e. x1 = Inl e" using False by (cases x1) auto
    with out h1 a f1 ran1 show ?thesis by (intro exI [of _ r1] exI [of _ a]) auto
  next
    case True
    from run one True obtain s2 where two: "call_hook n OnStop (dm_on_stop d) s1 = Some (x, s2)"
      and out: "pg = pg1\<lparr>pg_stop_called := True, pg_phase := OnStop\<rparr>" "s' = s2"
      by (auto simp: attempt_body_def)
    have "polite n (dm_on_stop d)" using pol by (simp add: daemon_polite_def)
    note h2 = call_hook_hosted [OF this h1(1) two]
    have "same_frame n (snd s) (snd s')" using f1 h2 out same_frame_trans by blast
    moreover have "ran n (a @ [(OnStop, x)]) (snd s) (snd s')" using ran1 h2 out ran_trans by blast
    moreover have "attempt_ok d (a @ [(OnStop, x)])" using a True unfolding attempt_ok_def by (cases x1; cases s1) auto
    ultimately show ?thesis using h1 h2 out
      by (intro exI [of _ r1] exI [of _ "a @ [(OnStop, x)]"]) auto
  qed
qed

lemma run_on_stop_shielded_spec:
  assumes pol: "daemon_polite n d" and h: "hosted n (snd s) r" and run: "run_on_stop_shielded d n s = Some (x, s')"
  shows "hosted n (snd s') r \<and> same_frame n (snd s) (snd s') \<and> (\<exists>z. ran n [(OnStop, z)] (snd s) (snd s')) \<and>
    (\<forall>e. x = Inl e \<longrightarrow> \<not> is_Exception e \<and> e \<noteq> Cancelled)"
proof -
  have pol': "polite n (dm_on_stop_timed d (su_finalize_timeout (snd s)))" using pol by (simp add: daemon_polite_def)
  from run obtain z where "call_hook n OnStop (dm_on_stop_timed d (su_finalize_timeout (snd s))) s = Some (z, s')"
    by (auto simp: run_on_stop_shielded_def split: option.splits sum.splits prod.splits)
  from call_hook_hosted [OF pol' h this] run this show ?thesis
    by (auto simp: run_on_stop_shielded_def split: sum.splits if_splits)
qed

text \<open>What the policy makes of an exception.\<close>

definition policy_ok :: "string \<Rightarrow> int \<Rightarrow> supervisor \<Rightarrow> outcome \<Rightarrow> daemon_record \<Rightarrow> bool" where
  "policy_ok n retries s out r \<longleftrightarrow> (case out of
     Return \<Rightarrow> dr_state r = Stopped
   | Raise e \<Rightarrow> e = Cancelled \<and> dr_state r = Stopped \<or>
       e = DaemonError \<and> dr_state r = Failed \<and> dr_last_error r \<noteq> None \<or>
       \<not> is_Exception e \<and> e \<noteq> Cancelled
   | Retry \<Rightarrow> dr_state r = Restarting \<and> dr_restart_count r = retries + 1 \<and> su_on_error s = Restart \<and>
       \<not> stopping s \<and> (\<forall>m. rp_max_retries (su_restart s) = Some m \<longrightarrow> retries + 1 \<le> m))"

lemma set_state_hosted:
  "hosted n (snd s) r \<Longrightarrow> hosted n (snd (set_state n st s)) (r\<lparr>dr_state := st\<rparr>) \<and>
     ran n [] (snd s) (snd (set_state n st s)) \<and> same_frame n (snd s) (snd (set_state n st s))"
  using map_record_hosted [of n "snd s" r "\<lambda>r. r\<lparr>dr_state := st\<rparr>"] by (simp add: set_state_def ran_Nil)

lemma stopping_map_record [simp]: "stopping (map_record n f s) = stopping s"
  by (simp add: stopping_def map_record_def split: option.split)

lemma stopping_set [simp]:
  "stopping (snd (set_state n st s)) = stopping (snd s)" "stopping (snd (set_error n e p s)) = stopping (snd s)"
  by (simp_all add: set_state_def set_error_def)

text \<open>A chain of record updates, folded into one.\<close>

lemma map_record_twice: "map_record n g (map_record n f s) = map_record n (g \<circ> f) s"
  by (simp add: map_record_def split: option.split)

text \<open>Every branch of the policy is one update of the record.\<close>

lemma map_record_keeps [simp]:
  "su_on_error (map_record n f s) = su_on_error s" "su_restart (map_record n f s) = su_restart s"
  by (simp_all add: map_record_def split: option.split)

lemma failure_policy_update:
  assumes "failure_policy n retries phase e s = (out, s')" "dr_restart_count r = retries"
  shows "\<exists>f. s' = on_sup (map_record n f) s \<and> policy_ok n retries (snd s) out (f r) \<and>
    dr_restart_count (f r) \<in> {retries, retries + 1}"
proof -
  let ?err = "\<lambda>r. r\<lparr>dr_last_error := Some e, dr_last_error_phase := Some phase\<rparr>"
  let ?count = "\<lambda>r. r\<lparr>dr_restart_count := retries + 1\<rparr>"
  let ?st = "\<lambda>st r. r\<lparr>dr_state := st\<rparr>"
  have upd: "set_state n st t = on_sup (map_record n (?st st)) t" "set_error n e phase t = on_sup (map_record n ?err) t"
    for st and t :: "'a sup_st"
    by (simp_all add: set_state_def set_error_def)
  have twice: "on_sup (map_record n g) (on_sup (map_record n f) t) = on_sup (map_record n (g \<circ> f)) t"
    for f g and t :: "'a sup_st"
    by (simp add: on_sup_def map_record_twice)
  note run = assms(1) [unfolded failure_policy_def Let_def upd]
  consider (cancel) "e = Cancelled" | (base) "e \<noteq> Cancelled" "\<not> is_Exception e" | (exc) "e \<noteq> Cancelled" "is_Exception e"
    by blast
  then show ?thesis
  proof cases
    case cancel
    with run assms(2) show ?thesis
      by (intro exI [of _ "?st Stopped"]) (auto simp: policy_ok_def)
  next
    case base
    with run assms(2) show ?thesis
      by (intro exI [of _ "?err \<circ> ?st Failed"]) (auto simp: policy_ok_def twice)
  next
    case exc
    let ?giveup = "case rp_max_retries (su_restart (snd s)) of None \<Rightarrow> False | Some m \<Rightarrow> retries + 1 > m"
    consider (cleanup) "phase = OnStop" "su_on_error (snd s) \<noteq> Ignore"
      | (shutdown) "phase \<noteq> OnStop" "su_on_error (snd s) = Shutdown"
      | (ignore) "su_on_error (snd s) = Ignore"
      | (stop) "phase \<noteq> OnStop" "su_on_error (snd s) = Restart" "stopping (snd s)"
      | (give_up) "phase \<noteq> OnStop" "su_on_error (snd s) = Restart" "\<not> stopping (snd s)" ?giveup
      | (retry) "phase \<noteq> OnStop" "su_on_error (snd s) = Restart" "\<not> stopping (snd s)" "\<not> ?giveup"
      by (cases "su_on_error (snd s)") auto
    then show ?thesis
    proof cases
      case cleanup
      with exc run assms(2) show ?thesis
        by (intro exI [of _ "?st Failed \<circ> ?err"]) (auto simp: policy_ok_def twice)
    next
      case shutdown
      with exc run assms(2) show ?thesis
        by (intro exI [of _ "?st Failed \<circ> ?err"]) (auto simp: policy_ok_def twice)
    next
      case ignore
      with exc run assms(2) show ?thesis
        by (intro exI [of _ "?st Stopped \<circ> ?err"]) (auto simp: policy_ok_def twice)
    next
      case stop
      with exc run assms(2) show ?thesis
        by (intro exI [of _ "?st Stopped \<circ> ?err"]) (auto simp: policy_ok_def twice)
    next
      case give_up
      with exc run assms(2) show ?thesis
        by (intro exI [of _ "?st Failed \<circ> (?count \<circ> ?err)"]) (auto simp: policy_ok_def twice)
    next
      case retry
      with exc run assms(2) show ?thesis
        by (intro exI [of _ "?st Restarting \<circ> (?count \<circ> ?err)"])
          (auto simp: policy_ok_def twice split: option.splits)
    qed
  qed
qed

lemma policy_ok_map_record [simp]: "policy_ok n k (map_record n f s) out r = policy_ok n k s out r"
  by (simp add: policy_ok_def split: outcome.split)

lemma failure_policy_spec:
  assumes h: "hosted n (snd s) r" and run: "failure_policy n retries phase e s = (out, s')"
    and count: "dr_restart_count r = retries"
  shows "\<exists>r'. hosted n (snd s') r' \<and> same_frame n (snd s) (snd s') \<and> ran n [] (snd s) (snd s') \<and>
    policy_ok n retries (snd s') out r' \<and> dr_restart_count r' \<in> {retries, retries + 1}"
proof -
  from failure_policy_update [OF run count] obtain f where
    f: "s' = on_sup (map_record n f) s" "policy_ok n retries (snd s) out (f r)"
      "dr_restart_count (f r) \<in> {retries, retries + 1}"
    by blast
  with map_record_hosted [OF h, of f] show ?thesis by (intro exI [of _ "f r"]) (simp add: ran_Nil)
qed

lemma failure_policy_retry: "failure_policy n retries phase e s = (Retry, s') \<Longrightarrow> is_Exception e"
  by (auto simp: failure_policy_def split: if_splits)

text \<open>A whole attempt.\<close>

lemma attempt_spec:
  assumes pol: "daemon_polite n d" and h: "hosted n (snd s) r" and count: "dr_restart_count r = retries"
    and run: "attempt tm d n retries s = Some (out, s')"
  shows "\<exists>r' a. hosted n (snd s') r' \<and> same_frame n (snd s) (snd s') \<and> ran n a (snd s) (snd s') \<and>
    attempt_ok d a \<and> (out = Retry \<longrightarrow> attempt_failed a) \<and>
    policy_ok n retries (snd s') out r' \<and> dr_restart_count r' \<in> {retries, retries + 1}"
proof -
  from run obtain pg x s1 where one: "attempt_body tm d n s = Some (pg, x, s1)"
    by (auto simp: attempt_def split: option.splits)
  from attempt_body_spec [OF pol h one] obtain r1 a p where
    h1: "hosted n (snd s1) r1" "same_frame n (snd s) (snd s1)" "ran n a (snd s) (snd s1)"
      "dr_restart_count r1 = retries" and p: "(p, x) \<in> set a"
    and a: "if pg_stop_called pg then attempt_ok d a \<and> pg_phase pg = OnStop
     else (\<exists>e. x = Inl e) \<and> (if pg_started pg then a = [(OnStart, Inr ()), (OnRun, x)] \<and> pg_phase pg = OnRun
                         else a = [(OnStart, x)] \<and> pg_phase pg = OnStart)"
    using count by auto
  show ?thesis
  proof (cases x)
    case (Inr u)
    then have out: "out = Return" "s' = set_state n Stopped s1" using run one by (simp_all add: attempt_def)
    from set_state_hosted [OF h1(1), of Stopped] have
      s': "hosted n (snd s') (r1\<lparr>dr_state := Stopped\<rparr>)" "ran n (a @ []) (snd s) (snd s')" "same_frame n (snd s) (snd s')"
      using out h1 same_frame_trans [OF h1(2)] ran_trans [OF h1(3)] by blast+
    have "attempt_ok d a" using a Inr by (auto split: if_splits)
    with s' out h1(4) show ?thesis
      by (intro exI [of _ "r1\<lparr>dr_state := Stopped\<rparr>"] exI [of _ a]) (auto simp: policy_ok_def)
  next
    case (Inl e)
    note failed = p [unfolded Inl]
    show ?thesis
    proof (cases "pg_started pg \<and> \<not> pg_stop_called pg")
      case False
      then have fp: "failure_policy n retries (pg_phase pg) e s1 = (out, s')"
        using run one Inl by (auto simp: attempt_def)
      have ok: "attempt_ok d a" using a False Inl by (auto simp: attempt_ok_def split: if_splits)
      have "out = Retry \<longrightarrow> attempt_failed a"
        using fp failure_policy_retry attempt_failedI [OF failed, of "[]", simplified] by blast
      moreover from failure_policy_spec [OF h1(1) fp h1(4)] obtain r2 where
        "hosted n (snd s') r2" "same_frame n (snd s1) (snd s')" "ran n [] (snd s1) (snd s')"
        "policy_ok n retries (snd s') out r2" "dr_restart_count r2 \<in> {retries, retries + 1}" by blast
      moreover from this have "same_frame n (snd s) (snd s')" "ran n (a @ []) (snd s) (snd s')"
        using same_frame_trans [OF h1(2)] ran_trans [OF h1(3)] by blast+
      ultimately show ?thesis using ok by (intro exI [of _ r2] exI [of _ a]) simp
    next
      case True
      from run one Inl True obtain y s2 where two: "run_on_stop_shielded d n s1 = Some (y, s2)"
        by (auto simp: attempt_def split: option.splits)
      from run_on_stop_shielded_spec [OF pol h1(1) two] obtain z where h2: "hosted n (snd s2) r1"
        "same_frame n (snd s1) (snd s2)" "ran n [(OnStop, z)] (snd s1) (snd s2)"
        "\<forall>e. y = Inl e \<longrightarrow> \<not> is_Exception e \<and> e \<noteq> Cancelled" by blast
      let ?a = "a @ [(OnStop, z)]"
      have ok: "attempt_ok d ?a" using a True by (auto simp: attempt_ok_def split: if_splits)
      have f2: "same_frame n (snd s) (snd s2)" "ran n ?a (snd s) (snd s2)"
        using same_frame_trans [OF h1(2) h2(2)] ran_trans [OF h1(3) h2(3)] by blast+
      show ?thesis
      proof (cases y)
        case (Inl e')
        then have out: "out = Raise e'" "s' = s2" using run one two True \<open>x = Inl e\<close> by (simp_all add: attempt_def)
        have "policy_ok n retries (snd s') out r1" using h2 Inl out by (simp add: policy_ok_def)
        with h1(4) h2 ok f2 out show ?thesis by (intro exI [of _ r1] exI [of _ ?a]) simp
      next
        case (Inr u)
        then have fp: "failure_policy n retries (pg_phase pg) e s2 = (out, s')"
          using run one two True \<open>x = Inl e\<close> by (simp add: attempt_def)
        have "out = Retry \<longrightarrow> attempt_failed ?a"
          using fp failure_policy_retry attempt_failedI [OF failed] by blast
        moreover from failure_policy_spec [OF h2(1) fp h1(4)] obtain r2 where
          "hosted n (snd s') r2" "same_frame n (snd s2) (snd s')" "ran n [] (snd s2) (snd s')"
          "policy_ok n retries (snd s') out r2" "dr_restart_count r2 \<in> {retries, retries + 1}" by blast
        moreover from this have "same_frame n (snd s) (snd s')" "ran n (?a @ []) (snd s) (snd s')"
          using same_frame_trans [OF f2(1)] ran_trans [OF f2(2)] by blast+
        ultimately show ?thesis using ok by (intro exI [of _ r2] exI [of _ ?a]) simp
      qed
    qed
  qed
qed

section \<open>The whole run\<close>

lemma host_loop_induct [consumes 1, case_names returned failed interrupted again]:
  assumes "host_loop tm d n k delay s = Some (x, s')"
    and "\<And>k delay s s1. attempt tm d n k s = Some (Return, s1) \<Longrightarrow> P k delay s (Inr ()) s1"
    and "\<And>k delay s e s1. attempt tm d n k s = Some (Raise e, s1) \<Longrightarrow> P k delay s (Inl e) s1"
    and "\<And>k delay s s1 e s2. attempt tm d n k s = Some (Retry, s1) \<Longrightarrow>
      tm_sleep tm delay (on_sup (log_sleep n delay) s1) = Some (Inl e, s2) \<Longrightarrow> P k delay s (Inl e) s2"
    and "\<And>k delay s s1 s2 x s'. attempt tm d n k s = Some (Retry, s1) \<Longrightarrow>
      tm_sleep tm delay (on_sup (log_sleep n delay) s1) = Some (Inr (), s2) \<Longrightarrow>
      P (k + 1) (next_delay (su_restart (snd s2)) delay) s2 x s' \<Longrightarrow> P k delay s x s'"
  shows "P k delay s x s'"
proof -
  let ?Q = "\<lambda>tm' d' n' k delay s y. tm' = tm \<longrightarrow> d' = d \<longrightarrow> n' = n \<longrightarrow> P k delay s (fst y) (snd y)"
  have "?Q tm d n k delay s (x, s')"
  proof (rule host_loop.raw_induct [where P = ?Q, OF _ assms(1)], intro impI)
    fix loop tm' d' n' k delay s y
    assume IH: "\<And>tm d n k delay s y. loop tm d n k delay s = Some y \<Longrightarrow> ?Q tm d n k delay s y"
      and eq: "tm' = tm" "d' = d" "n' = n"
      and body: "(case attempt tm' d' n' k s of
        None \<Rightarrow> None
      | Some (Return, s1) \<Rightarrow> Some (Inr (), s1)
      | Some (Raise e, s1) \<Rightarrow> Some (Inl e, s1)
      | Some (Retry, s1) \<Rightarrow>
          (case tm_sleep tm' delay (on_sup (log_sleep n' delay) s1) of
             None \<Rightarrow> None
           | Some (Inl e, s2) \<Rightarrow> Some (Inl e, s2)
           | Some (Inr _, s2) \<Rightarrow> loop tm' d' n' (k + 1) (next_delay (su_restart (snd s2)) delay) s2)) = Some y"
    from body eq obtain out s1 where att: "attempt tm d n k s = Some (out, s1)" by (auto split: option.splits)
    show "P k delay s (fst y) (snd y)"
    proof (cases out)
      case Return
      with att body eq have "y = (Inr (), s1)" by simp
      with assms(2) att Return show ?thesis by simp
    next
      case (Raise e)
      with att body eq have "y = (Inl e, s1)" by simp
      with assms(3) att Raise show ?thesis by simp
    next
      case Retry
      with att body eq obtain z s2 where slp: "tm_sleep tm delay (on_sup (log_sleep n delay) s1) = Some (z, s2)"
        by (auto split: option.splits)
      show ?thesis
      proof (cases z)
        case (Inl e)
        with att slp body eq Retry have "y = (Inl e, s2)" by simp
        with assms(4) att slp Retry Inl show ?thesis by simp
      next
        case (Inr u)
        with att slp body eq Retry have
          "loop tm d n (k + 1) (next_delay (su_restart (snd s2)) delay) s2 = Some y" by simp
        from IH [OF this] assms(5) [of k s s1 delay s2] att slp Retry Inr show ?thesis by simp
      qed
    qed
  qed
  then show ?thesis by simp
qed

lemma log_sleep_hosted:
  "hosted n s r \<Longrightarrow> hosted n (log_sleep n t s) r \<and> ran n [] s (log_sleep n t s) \<and>
     sleeps_of n (log_sleep n t s) = sleeps_of n s @ [t] \<and> su_restart (log_sleep n t s) = su_restart s \<and>
     su_on_error (log_sleep n t s) = su_on_error s \<and>
     su_stop_event (log_sleep n t s) = su_stop_event s \<and> su_all_done (log_sleep n t s) = su_all_done s"
  by (simp add: hosted_def log_sleep_def ran_def calls_of_def ends_of_def sleeps_of_def)

text \<open>One attempt that is retried, with its backoff.\<close>

lemma backoff_spec:
  assumes pol: "daemon_polite n d" "time_polite n tm" and h: "hosted n (snd s) r" and count: "dr_restart_count r = k"
    and att: "attempt tm d n k s = Some (Retry, s1)"
    and slp: "tm_sleep tm delay (on_sup (log_sleep n delay) s1) = Some (z, s2)"
  shows "\<exists>r' a. hosted n (snd s2) r' \<and> ran n a (snd s) (snd s2) \<and> attempt_ok d a \<and> attempt_failed a \<and>
    sleeps_of n (snd s2) = sleeps_of n (snd s) @ [delay] \<and> su_restart (snd s2) = su_restart (snd s) \<and>
    (su_stop_event (snd s2) = None \<longleftrightarrow> su_stop_event (snd s) = None) \<and>
    (su_all_done (snd s2) = None \<longleftrightarrow> su_all_done (snd s) = None) \<and>
    su_on_error (snd s2) = su_on_error (snd s) \<and> su_on_error (snd s) = Restart \<and> \<not> stopping (snd s) \<and>
    dr_restart_count r' = k + 1 \<and> dr_state r' = Restarting \<and> z \<in> {Inl Cancelled, Inr ()} \<and>
    (\<forall>m. rp_max_retries (su_restart (snd s)) = Some m \<longrightarrow> k + 1 \<le> m)"
proof -
  from attempt_spec [OF pol(1) h count att] obtain r1 a where
    one: "hosted n (snd s1) r1" "same_frame n (snd s) (snd s1)" "ran n a (snd s) (snd s1)"
      "attempt_ok d a" "attempt_failed a" "policy_ok n k (snd s1) Retry r1"
    by blast
  let ?l = "on_sup (log_sleep n delay) s1"
  note l = log_sleep_hosted [OF one(1), of delay]
  have "polite n (tm_sleep tm delay)" using pol(2) by (simp add: time_polite_def)
  from politeD [OF this slp] l have und: "undisturbed n (snd ?l) (snd s2)" by (simp add: hosted_def)
  have "z = Inl e \<Longrightarrow> e = Cancelled" for e using pol(2) slp unfolding time_polite_def by blast
  then have "z \<in> {Inl Cancelled, Inr ()}" by (cases z) auto
  moreover have "hosted n (snd s2) r1" "ran n [] (snd ?l) (snd s2)"
    using undisturbed_hosted [OF und, of r1] l by (auto simp: ran_Nil)
  moreover from this l one(3) have "ran n a (snd s) (snd s2)" by (simp add: ran_def)
  ultimately show ?thesis using und l one
    by (intro exI [of _ r1] exI [of _ a]) (simp add: undisturbed_def policy_ok_def same_frame_def)
qed

definition run_ends :: "(exn + unit) \<Rightarrow> daemon_record \<Rightarrow> bool" where
  "run_ends x r \<longleftrightarrow>
     (x = Inr () \<longrightarrow> dr_state r = Stopped) \<and>
     (x = Inl DaemonError \<longrightarrow> dr_state r = Failed \<and> dr_last_error r \<noteq> None) \<and>
     (x = Inl Cancelled \<longrightarrow> dr_state r \<in> {Stopped, Restarting}) \<and>
     (\<forall>e. x = Inl e \<longrightarrow> e \<noteq> DaemonError \<longrightarrow> \<not> is_Exception e)"

text \<open>
  What a run from attempt \<open>k\<close> leaves: the attempts \<open>ats\<close> it made, with \<open>m\<close> backoffs between them, each
  after an attempt that failed.
\<close>

definition run_leaves ::
  "'w daemon \<Rightarrow> string \<Rightarrow> int \<Rightarrow> pyfloat \<Rightarrow> supervisor \<Rightarrow> (exn + unit) \<Rightarrow> supervisor \<Rightarrow> daemon_record \<Rightarrow>
   (failure_phase \<times> (exn + unit)) list list \<Rightarrow> nat \<Rightarrow> bool" where
  "run_leaves d n k delay s x s' r ats m \<longleftrightarrow>
    hosted n s' r \<and> ran n (concat ats) s s' \<and> list_all (attempt_ok d) ats \<and> list_all attempt_failed (take m ats) \<and>
    sleeps_of n s' = sleeps_of n s @ map (\<lambda>i. (next_delay (su_restart s) ^^ i) delay) [0..<m] \<and>
    ats \<noteq> [] \<and> (length ats = Suc m \<or> length ats = m \<and> x = Inl Cancelled) \<and>
    (0 < m \<longrightarrow> su_on_error s = Restart \<and> \<not> stopping s) \<and>
    (dr_restart_count r = k + int m \<or> dr_restart_count r = k + int m + 1) \<and>
    (\<forall>M. rp_max_retries (su_restart s) = Some M \<longrightarrow> m = 0 \<or> k + int m \<le> M) \<and>
    run_ends x r \<and> (su_stop_event s' = None \<longleftrightarrow> su_stop_event s = None) \<and>
    (su_all_done s' = None \<longleftrightarrow> su_all_done s = None)"

lemma run_leaves_calls:
  assumes "run_leaves d n k delay s x s' r ats m"
  shows "calls_of n s' = calls_of n s @ concat (map (map fst) ats)" "list_all attempt_shape (map (map fst) ats)"
  using assms attempts_ok_shape by (auto simp: run_leaves_def ran_def map_concat)

lemma run_leaves_last:
  assumes "hosted n s' r'" "same_frame n s s'" "ran n a s s'" "attempt_ok d a"
    "policy_ok n k s' out r'" "dr_restart_count r' \<in> {k, k + 1}"
    "out = Return \<and> x = Inr () \<or> (\<exists>e. out = Raise e \<and> x = Inl e)"
  shows "run_leaves d n k delay s x s' r' [a] 0"
  using assms by (auto simp: run_leaves_def policy_ok_def same_frame_def run_ends_def)

lemma host_loop_spec:
  assumes "host_loop tm d n k delay s = Some (x, s')" and pol: "daemon_polite n d" "time_polite n tm"
    and "hosted n (snd s) r" "dr_restart_count r = k"
  shows "\<exists>r' ats m. run_leaves d n k delay (snd s) x (snd s') r' ats m"
  using assms(1,4,5)
proof (induction arbitrary: r rule: host_loop_induct)
  case (returned k delay s s1)
  from attempt_spec [OF pol(1) returned.prems returned.hyps] show ?case
    using run_leaves_last by blast
next
  case (failed k delay s e s1)
  from attempt_spec [OF pol(1) failed.prems failed.hyps] show ?case
    using run_leaves_last by blast
next
  case (interrupted k delay s s1 e s2)
  from backoff_spec [OF pol interrupted.prems interrupted.hyps] obtain r' a where
    "hosted n (snd s2) r'" "ran n a (snd s) (snd s2)" "attempt_ok d a" "attempt_failed a"
    "sleeps_of n (snd s2) = sleeps_of n (snd s) @ [delay]" "su_restart (snd s2) = su_restart (snd s)"
    "su_stop_event (snd s2) = None \<longleftrightarrow> su_stop_event (snd s) = None"
    "su_all_done (snd s2) = None \<longleftrightarrow> su_all_done (snd s) = None" "su_on_error (snd s) = Restart" "\<not> stopping (snd s)"
    "dr_restart_count r' = k + 1" "dr_state r' = Restarting" "e = Cancelled"
    "\<forall>m. rp_max_retries (su_restart (snd s)) = Some m \<longrightarrow> k + 1 \<le> m"
    by auto
  then have "run_leaves d n k delay (snd s) (Inl e) (snd s2) r' [a] 1"
    by (simp add: run_leaves_def run_ends_def)
  then show ?case by blast
next
  case (again k delay s s1 s2 x s')
  from backoff_spec [OF pol again.prems again.hyps(1,2)] obtain r1 a where
    one: "hosted n (snd s2) r1" "ran n a (snd s) (snd s2)" "attempt_ok d a" "attempt_failed a"
    "sleeps_of n (snd s2) = sleeps_of n (snd s) @ [delay]" "su_restart (snd s2) = su_restart (snd s)"
    "su_stop_event (snd s2) = None \<longleftrightarrow> su_stop_event (snd s) = None"
    "su_all_done (snd s2) = None \<longleftrightarrow> su_all_done (snd s) = None" "dr_restart_count r1 = k + 1"
    "su_on_error (snd s) = Restart" "\<not> stopping (snd s)"
    and le: "\<forall>m. rp_max_retries (su_restart (snd s)) = Some m \<longrightarrow> k + 1 \<le> m"
    by auto
  from again.IH [OF one(1,9)] obtain r' ats m where
    rest: "run_leaves d n (k + 1) (next_delay (su_restart (snd s2)) delay) (snd s2) x (snd s') r' ats m"
    by blast
  have "run_leaves d n k delay (snd s) x (snd s') r' (a # ats) (Suc m)"
    using rest one le
    by (simp add: run_leaves_def ran_def upt_conv_Cons map_Suc_upt [symmetric] funpow_swap1 del: upt_Suc)
      (force simp: algebra_simps)
  then show ?case by blast
qed

text \<open>When every hook ends, so does an attempt; a bounded number of retries then is a bound on the attempts.\<close>

lemma always_endsD: "always_ends m \<Longrightarrow> \<exists>x t. m s = Some (x, t)"
  unfolding always_ends_def by (metis option.exhaust prod.collapse)

lemma call_hook_ends: "always_ends hook \<Longrightarrow> \<exists>x t. call_hook n p hook s = Some (x, t)"
  unfolding call_hook_def by (drule always_endsD [of _ "on_sup (log_call n p) s"]) auto

lemma attempt_body_ends:
  assumes "daemon_ends d"
  shows "\<exists>pg x t. attempt_body tm d n s = Some (pg, x, t)"
proof -
  have hooks: "always_ends (dm_on_start d)" "always_ends (dm_run d)" "always_ends (dm_on_stop d)"
    using assms by (simp_all add: daemon_ends_def)
  let ?s = "on_sup (map_record n (\<lambda>r. r\<lparr>dr_state := Starting, dr_started_at := None\<rparr>)) s"
  obtain x t where one: "call_hook n OnStart (dm_on_start d) ?s = Some (x, t)" using call_hook_ends [OF hooks(1)] by blast
  obtain x2 t2 where two: "call_hook n OnRun (dm_run d) (enter_running tm n t) = Some (x2, t2)"
    using call_hook_ends [OF hooks(2)] by blast
  have three: "\<exists>x3 t3. call_hook n OnStop (dm_on_stop d) u = Some (x3, t3)" for u by (rule call_hook_ends [OF hooks(3)])
  have "\<exists>pg x t. scope_body tm d n ?s = Some (pg, x, t)"
    using one two by (cases x) (simp_all add: scope_body_def)
  then obtain pg y u where scope: "scope_body tm d n ?s = Some (pg, y, u)" by blast
  from three [of u] obtain x3 t3 where "call_hook n OnStop (dm_on_stop d) u = Some (x3, t3)" by blast
  with scope show ?thesis by (simp add: attempt_body_def)
qed

lemma attempt_ends:
  assumes "daemon_ends d"
  shows "\<exists>out t. attempt tm d n k s = Some (out, t)"
proof -
  from attempt_body_ends [OF assms] obtain pg x t where body: "attempt_body tm d n s = Some (pg, x, t)" by blast
  have "always_ends (dm_on_stop_timed d (su_finalize_timeout (snd t)))" using assms by (simp add: daemon_ends_def)
  from call_hook_ends [OF this] obtain y u where
    "call_hook n OnStop (dm_on_stop_timed d (su_finalize_timeout (snd t))) t = Some (y, u)" by blast
  then have "\<exists>y u. run_on_stop_shielded d n t = Some (y, u)"
    by (cases y) (simp_all add: run_on_stop_shielded_def)
  then obtain z v where "run_on_stop_shielded d n t = Some (z, v)" by blast
  with body have "attempt tm d n k s \<noteq> None" by (cases x; cases z) (simp_all add: attempt_def del: not_None_eq)
  then show ?thesis by (metis option.exhaust prod.collapse)
qed

lemma host_loop_returns:
  assumes ends: "daemon_ends d" "time_ends tm" and pol: "daemon_polite n d" "time_polite n tm"
    and "hosted n (snd s) r" "dr_restart_count r = k" "rp_max_retries (su_restart (snd s)) = Some M"
  shows "host_loop tm d n k delay s \<noteq> None"
  using assms(5-7)
proof (induction "nat (M - k)" arbitrary: s r k delay rule: less_induct)
  case less
  from attempt_ends [OF ends(1)] obtain out s1 where att: "attempt tm d n k s = Some (out, s1)" by blast
  show ?case
  proof (cases out)
    case Retry
    from ends(2) have "always_ends (tm_sleep tm delay)" by (simp add: time_ends_def)
    from always_endsD [OF this] obtain z s2 where
      slp: "tm_sleep tm delay (on_sup (log_sleep n delay) s1) = Some (z, s2)" by blast
    from backoff_spec [OF pol less.prems(1,2) att [unfolded Retry] slp] less.prems(3) obtain r' where
      "hosted n (snd s2) r'" "dr_restart_count r' = k + 1" "rp_max_retries (su_restart (snd s2)) = Some M" "k + 1 \<le> M"
      by auto
    then have "host_loop tm d n (k + 1) (next_delay (su_restart (snd s2)) delay) s2 \<noteq> None"
      by (intro less.hyps) auto
    with att slp Retry show ?thesis by (subst host_loop.simps) (auto split: sum.split)
  qed (use att in \<open>simp_all add: host_loop.simps\<close>)
qed

text \<open>A daemon that starts and whose \<open>run\<close> never ends is hosted for ever.\<close>

lemma host_loop_hangs:
  assumes "dm_on_start d = start" "\<And>t. \<exists>t'. start t = Some (Inr (), t')" "\<And>t. dm_run d t = None"
  shows "host_loop tm d n k delay s = None"
proof -
  let ?s = "on_sup (log_call n OnStart) (on_sup (map_record n (\<lambda>r. r\<lparr>dr_state := Starting, dr_started_at := None\<rparr>)) s)"
  obtain t where "start ?s = Some (Inr (), t)" using assms(2) by blast
  then have "attempt tm d n k s = None"
    using assms(1,3) by (simp add: attempt_def attempt_body_def scope_body_def call_hook_def)
  then show ?thesis by (subst host_loop.simps) simp
qed

section \<open>The host task\<close>

lemma host_finally_simps:
  assumes "hosted n (snd s) r" "su_stop_event (snd s) \<noteq> None" "su_all_done (snd s) \<noteq> None"
  shows "fst (host_finally n x s) = x"
    "hosted n (snd (snd (host_finally n x s))) (r\<lparr>dr_started_event := True\<rparr>)"
    "ran n [] (snd s) (snd (snd (host_finally n x s)))"
    "sleeps_of n (snd (snd (host_finally n x s))) = sleeps_of n (snd s)"
    "su_active (snd (snd (host_finally n x s))) = su_active (snd s) - 1"
  using assms
  by (auto simp: host_finally_def on_daemon_exit_def map_record_def hosted_def ran_def calls_of_def ends_of_def sleeps_of_def Let_def)

lemma run_ends_event [simp]: "run_ends x (r\<lparr>dr_started_event := b\<rparr>) = run_ends x r"
  by (simp add: run_ends_def)

text \<open>What a host leaves behind, for a daemon that was added and not yet run.\<close>

lemma host_spec:
  assumes run: "host tm d n s = Some (x, s')" and pol: "daemon_polite n d" "time_polite n tm"
    and h: "hosted n (snd s) new_record" "su_stop_event (snd s) \<noteq> None" "su_all_done (snd s) \<noteq> None"
  shows "\<exists>r ats m. run_leaves d n 0 (rp_base (su_restart (snd s))) (snd s) x (snd s') r ats m \<and> dr_started_event r"
proof -
  from run obtain y s1 where loop: "host_loop tm d n 0 (rp_base (su_restart (snd s))) s = Some (y, s1)"
    and fin: "host_finally n y s1 = (x, s')"
    by (auto simp: host_def)
  from host_loop_spec [OF loop pol h(1)] obtain r ats m where
    l: "run_leaves d n 0 (rp_base (su_restart (snd s))) (snd s) y (snd s1) r ats m"
    by (auto simp: new_record_def)
  then have h1: "hosted n (snd s1) r" "su_stop_event (snd s1) \<noteq> None" "su_all_done (snd s1) \<noteq> None"
    using h by (simp_all add: run_leaves_def)
  note f = host_finally_simps [OF h1, of y, unfolded fin, simplified]
  have "su_stop_event (snd s') \<noteq> None" "su_all_done (snd s') \<noteq> None"
    using fin h1 by (auto simp: host_finally_def on_daemon_exit_def map_record_def Let_def split: option.splits if_splits)
  with l f h have "run_leaves d n 0 (rp_base (su_restart (snd s))) (snd s) x (snd s') (r\<lparr>dr_started_event := True\<rparr>) ats m"
    by (auto simp: run_leaves_def ran_def)
  then show ?thesis by (intro exI conjI) auto
qed

end
