(* ===== verification/Decorator.thy ===== *)
theory Decorator imports SupervisorHost begin

text \<open>
  The \<open>@daemon\<close> decorator of \<open>daemon.py\<close>: an async function as a factory of daemons, and the hooks
  such a daemon has.  The user's function is an argument; what it gets besides the context are its
  positional and its keyword arguments.
\<close>

section \<open>Functions as daemons\<close>

type_synonym 'a kwargs = "(string \<times> 'a) list"

record ('a, 'w) async_fn =
  af_name :: string
  af_call :: "'a list \<Rightarrow> 'a kwargs \<Rightarrow> 'w hook"

record ('a, 'w) fn_daemon =
  fd_fn :: "('a, 'w) async_fn"
  fd_args :: "'a list"
  fd_kwargs :: "'a kwargs"
  fd_name :: string

definition fn_run :: "('a, 'w) fn_daemon \<Rightarrow> 'w hook" where
  "fn_run d = af_call (fd_fn d) (fd_args d) (fd_kwargs d)"

text \<open>The other hooks are those of the base class, which do nothing.\<close>

definition fn_hooks :: "('w sup_st \<Rightarrow> bool) \<Rightarrow> ('a, 'w) fn_daemon \<Rightarrow> 'w daemon" where
  "fn_hooks own_cancel d =
     \<lparr>dm_on_start = at_once, dm_run = fn_run d, dm_on_stop = at_once, dm_on_stop_timed = (\<lambda>_. at_once), dm_own_cancel = own_cancel\<rparr>"

section \<open>The decorator\<close>

type_synonym ('a, 'w) factory = "'a list \<Rightarrow> 'a kwargs \<Rightarrow> ('a, 'w) fn_daemon"

definition daemon_wrap :: "string option \<Rightarrow> ('a, 'w) async_fn \<Rightarrow> ('a, 'w) factory" where
  "daemon_wrap name f args kwargs = \<lparr>fd_fn = f, fd_args = args, fd_kwargs = kwargs, fd_name = or_else name (af_name f)\<rparr>"

text \<open>\<open>@daemon\<close> is given the function, \<open>@daemon(name=...)\<close> gives what takes it.\<close>

definition daemon_decorator ::
  "('a, 'w) async_fn option \<Rightarrow> string option \<Rightarrow> ('a, 'w) factory + (('a, 'w) async_fn \<Rightarrow> ('a, 'w) factory)" where
  "daemon_decorator fn name = (case fn of Some f \<Rightarrow> Inl (daemon_wrap name f) | None \<Rightarrow> Inr (daemon_wrap name))"

definition add_fn :: "nat \<Rightarrow> ('a, 'w) fn_daemon \<Rightarrow> string option \<Rightarrow> supervisor \<Rightarrow> (exn + unit) \<times> supervisor" where
  "add_fn i d = add (ADaemon i (fd_name d) ''_FnDaemon'')"

section \<open>What such daemons do\<close>

text \<open>\<open>spawn\<close> registers the daemon the decorated function would give.\<close>

lemma spawn_decorated: "spawn i (af_name f) name = add_fn i (daemon_wrap name f args kwargs) None"
  by (simp add: fun_eq_iff spawn_def add_fn_def add_def daemon_wrap_def chosen_name_def or_else_def Let_def split: option.split)

lemma fn_hooks_polite:
  assumes "polite n (fn_run d)"
  shows "daemon_polite n (fn_hooks own_cancel d)"
  using assms by (simp add: daemon_polite_def fn_hooks_def)

text \<open>An attempt that fails has failed in the function itself, after the start barrier was released.\<close>

lemma fn_attempt_fails_running:
  assumes "attempt_body tm (fn_hooks own_cancel d) n s = Some (pg, Inl e, s')"
  shows "pg_phase pg = OnRun \<and> pg_started pg \<and> \<not> pg_stop_called pg"
  using assms
  by (auto simp: attempt_body_def scope_body_def call_hook_def fn_hooks_def at_once_def split: option.splits prod.splits if_splits)

end
