(* ===== verification/Registry.thy ===== *)
theory Registry imports Supervisor begin

text \<open>
  The supervisor as a whole: every sequence of registrations, entries, exits, stop signals and
  daemon exits, as a step relation, and the invariant of the registry and the active count.
\<close>

section \<open>Launching\<close>

lemma fold_launch: "fold launch ds s =
    s\<lparr>su_active := su_active s + int (length ds), su_launched := su_launched s @ ds\<rparr>"
  by (induction ds arbitrary: s) (simp_all add: launch_def algebra_simps)

lemma sup_enter_eq: "sup_enter s =
    s\<lparr>su_tg := True, su_stop_event := Some False, su_all_done := Some False, su_pending := [],
      su_cancelled := False, su_active := su_active s + int (length (su_pending s)),
      su_launched := su_launched s @ su_pending s\<rparr>"
  by (simp add: sup_enter_def fold_launch)

text \<open>What \<open>add\<close> does, branch by branch.\<close>

lemma add_refused:
  "(\<And>d own cls. arg = ADaemon d own cls \<Longrightarrow> chosen_name name own cls \<in> su_seen s) \<Longrightarrow>
     add arg name s = (Inl (case arg of ADaemon _ _ _ \<Rightarrow> ValueError | _ \<Rightarrow> TypeError), s)"
  by (cases arg) (simp_all add: add_def Let_def)

lemma add_accepted:
  "chosen_name name own cls \<notin> su_seen s \<Longrightarrow> c = chosen_name name own cls \<Longrightarrow>
     add (ADaemon d own cls) name s =
       (Inr (), s\<lparr>su_seen := insert c (su_seen s), su_records := (su_records s)(c \<mapsto> new_record),
          su_active := (if su_tg s then su_active s + 1 else su_active s),
          su_launched := (if su_tg s then su_launched s @ [(d, c)] else su_launched s),
          su_pending := (if su_tg s then su_pending s else su_pending s @ [(d, c)])\<rparr>)"
  by (simp add: add_def Let_def launch_def)

lemma add_cases:
  obtains (refused) x where "add arg name s = (Inl x, s)"
  | (accepted) d own cls where "arg = ADaemon d own cls" "chosen_name name own cls \<notin> su_seen s"
  using add_refused [of arg name s] by (cases arg) blast+

section \<open>The steps\<close>

text \<open>
  The state and the names of the daemons whose host has ended.  \<open>touch\<close> stands for what the host
  loops and \<open>stop\<close> do besides: records, logs, the finalize timeout, a cancellation.
\<close>

definition touches :: "supervisor \<Rightarrow> supervisor \<Rightarrow> bool" where
  "touches s s' \<longleftrightarrow> dom (su_records s') = dom (su_records s) \<and> su_seen s' = su_seen s \<and> su_pending s' = su_pending s \<and>
     su_tg s' = su_tg s \<and> su_stop_event s' = su_stop_event s \<and> su_all_done s' = su_all_done s \<and>
     su_active s' = su_active s \<and> su_launched s' = su_launched s"

lemma touches_map_record: "touches s (map_record n f s)"
  by (auto simp: touches_def map_record_def split: option.split)

inductive sys_step :: "supervisor \<times> string list \<Rightarrow> supervisor \<times> string list \<Rightarrow> bool" where
  add: "sys_step (s, fin) (snd (add arg name s), fin)"
| enter: "\<not> su_tg s \<Longrightarrow> sys_step (s, fin) (sup_enter s, fin)"
| leave: "su_tg s \<Longrightarrow> sys_step (s, fin) (sup_exit s, fin)"
| signal: "sys_step (s, fin) (signal_stop s, fin)"
| touch: "touches s s' \<Longrightarrow> sys_step (s, fin) (s', fin)"
| finish: "n \<in> snd ` set (su_launched s) \<Longrightarrow> n \<notin> set fin \<Longrightarrow> sys_step (s, fin) (snd (on_daemon_exit s), n # fin)"

inductive_cases sys_stepE: "sys_step (s, fin) t"

definition registry_ok :: "supervisor \<times> string list \<Rightarrow> bool" where
  "registry_ok t = (case t of (s, fin) \<Rightarrow>
     distinct (map snd (su_launched s @ su_pending s)) \<and>
     set (map snd (su_launched s @ su_pending s)) = su_seen s \<and> dom (su_records s) = su_seen s \<and>
     distinct fin \<and> set fin \<subseteq> set (map snd (su_launched s)) \<and>
     su_active s = int (length (su_launched s)) - int (length fin) \<and>
     (su_stop_event s = None \<longleftrightarrow> su_all_done s = None) \<and>
     (su_tg s \<or> su_launched s \<noteq> [] \<longrightarrow> su_stop_event s \<noteq> None) \<and>
     (su_tg s \<longrightarrow> su_pending s = []) \<and>
     (su_all_done s = Some True \<longrightarrow> su_stop_event s = Some True))"

lemma registry_new: "registry_ok (new_supervisor oe rp, [])"
  by (simp add: registry_ok_def new_supervisor_def)

lemma registry_add: "registry_ok (s, fin) \<Longrightarrow> registry_ok (snd (add arg name s), fin)"
proof (cases rule: add_cases [of arg name s])
  case (accepted d own cls)
  moreover assume "registry_ok (s, fin)"
  ultimately show ?thesis
    by (simp add: add_accepted registry_ok_def) (auto simp: insert_commute)
qed simp

lemma registry_finish:
  assumes ok: "registry_ok (s, fin)" and n: "n \<in> snd ` set (su_launched s)" "n \<notin> set fin"
  shows "registry_ok (snd (on_daemon_exit s), n # fin)" "fst (on_daemon_exit s) = Inr ()"
proof -
  have "su_launched s \<noteq> []" using n by auto
  with ok have "su_stop_event s \<noteq> None" "su_all_done s \<noteq> None" by (auto simp: registry_ok_def)
  with ok n show "registry_ok (snd (on_daemon_exit s), n # fin)" "fst (on_daemon_exit s) = Inr ()"
    by (auto simp: on_daemon_exit_def registry_ok_def Let_def)
qed

lemma registry_step: "sys_step t t' \<Longrightarrow> registry_ok t \<Longrightarrow> registry_ok t'"
proof (induction rule: sys_step.induct)
  case (enter s fin)
  then show ?case by (auto simp: registry_ok_def sup_enter_eq)
next
  case (signal s fin)
  then show ?case by (auto simp: registry_ok_def signal_stop_def)
next
  case (touch s s' fin)
  then show ?case by (simp add: registry_ok_def touches_def)
qed (simp_all add: registry_add registry_finish registry_ok_def [of "(sup_exit _, _)"], auto simp: registry_ok_def sup_exit_def)

lemma registry_reachable: "sys_step\<^sup>*\<^sup>* (new_supervisor oe rp, []) t \<Longrightarrow> registry_ok t"
  by (induction rule: rtranclp_induct) (auto intro: registry_new registry_step)

text \<open>A daemon that ends leaves fewer running; the count is never negative.\<close>

lemma registry_active:
  assumes "registry_ok (s, fin)"
  shows "su_active s = int (card (snd ` set (su_launched s) - set fin))"
proof -
  have "card (snd ` set (su_launched s)) = length (su_launched s)" "card (set fin) = length fin" "set fin \<subseteq> snd ` set (su_launched s)"
    using assms by (auto simp: registry_ok_def distinct_card simp flip: set_map)
  then show ?thesis
    using assms card_mono [of "snd ` set (su_launched s)" "set fin"]
    by (simp add: registry_ok_def card_Diff_subset of_nat_diff)
qed

end
