(* ===== verification/Health.thy ===== *)
theory Health imports SupervisorHost begin

text \<open>
  The health records of \<open>supervisor.py\<close>: which combinations of state, times and errors they can
  hold, and that the host loop writes no other, at any point where another task can look.
\<close>

section \<open>Well-formed records\<close>

text \<open>
  An error comes with its phase; a running daemon has its start time and has released the start
  barrier, a starting one has no start time; a failed or restarting daemon has an error to show, and
  a restart has been counted before it is waited for.
\<close>

definition record_ok :: "daemon_record \<Rightarrow> bool" where
  "record_ok r \<longleftrightarrow> (dr_last_error r = None \<longleftrightarrow> dr_last_error_phase r = None) \<and>
     (case dr_state r of
        Starting \<Rightarrow> dr_started_at r = None
      | Running \<Rightarrow> dr_started_at r \<noteq> None \<and> dr_started_event r
      | Restarting \<Rightarrow> dr_last_error r \<noteq> None \<and> 0 < dr_restart_count r
      | Stopped \<Rightarrow> True
      | Failed \<Rightarrow> dr_last_error r \<noteq> None) \<and>
     0 \<le> dr_restart_count r \<and> (0 < dr_restart_count r \<longrightarrow> dr_last_error r \<noteq> None)"

definition records_ok :: "supervisor \<Rightarrow> bool" where
  "records_ok s \<longleftrightarrow> (\<forall>n r. su_records s n = Some r \<longrightarrow> record_ok r)"

text \<open>What the user sees of such a record.\<close>

definition health_ok :: "pyfloat \<Rightarrow> string \<Rightarrow> health \<Rightarrow> bool" where
  "health_ok now n h \<longleftrightarrow> dh_name h = n \<and> (dh_last_error h = None \<longleftrightarrow> dh_last_error_phase h = None) \<and>
     (case dh_state h of
        Running \<Rightarrow> (\<exists>t. dh_started_at h = Some t \<and> dh_uptime h = Some (fsub now t))
      | _ \<Rightarrow> dh_uptime h = None) \<and>
     (dh_state h = Starting \<longrightarrow> dh_started_at h = None) \<and>
     (dh_state h \<in> {Restarting, Failed} \<or> 0 < dh_restart_count h \<longrightarrow> dh_last_error h \<noteq> None) \<and>
     0 \<le> dh_restart_count h \<and> (dh_state h = Restarting \<longrightarrow> 0 < dh_restart_count h)"

lemma health_of_ok: "record_ok r \<Longrightarrow> health_ok now n (health_of now n r)"
  by (cases "dr_state r") (auto simp: record_ok_def health_ok_def health_of_def split: option.split)

lemma snapshot_ok: "records_ok s \<Longrightarrow> snapshot now s n = Some h \<Longrightarrow> health_ok now n h"
  by (auto simp: snapshot_def records_ok_def health_of_ok)

section \<open>Registration and the owner's calls\<close>

lemma record_ok_new [simp]: "record_ok new_record"
  by (simp add: record_ok_def new_record_def)

lemma records_ok_new [simp]: "records_ok (new_supervisor oe rp)"
  by (simp add: records_ok_def new_supervisor_def)

lemma records_ok_cong: "su_records s' = su_records s \<Longrightarrow> records_ok s' = records_ok s"
  by (simp add: records_ok_def)

lemma records_ok_add: "records_ok s \<Longrightarrow> records_ok (snd (add arg name s))"
  by (cases arg) (auto simp: add_def launch_def records_ok_def Let_def)

lemma records_ok_launches: "su_records (fold launch ds s) = su_records s"
  by (induction ds arbitrary: s) (simp_all add: launch_def)

lemma records_ok_owner [simp]:
  "records_ok (sup_enter s) = records_ok s" "records_ok (sup_exit s) = records_ok s"
  "records_ok (signal_stop s) = records_ok s" "records_ok (snd (on_daemon_exit s)) = records_ok s"
  "records_ok (log_call n p s) = records_ok s" "records_ok (log_end n p x s) = records_ok s" "records_ok (log_sleep n t s) = records_ok s"
  by (simp_all add: records_ok_def sup_enter_def sup_exit_def signal_stop_def on_daemon_exit_def log_call_def
      log_end_def log_sleep_def records_ok_launches Let_def)

lemma records_ok_exit: "on_daemon_exit s = (r, s') \<Longrightarrow> records_ok s' = records_ok s"
  using records_ok_owner(4) [of s] by simp

section \<open>The host loop\<close>

abbreviation well :: "'w sup_st \<Rightarrow> bool" where
  "well s \<equiv> records_ok (snd s)"

lemma well_map_record:
  "well s \<Longrightarrow> (\<And>r. record_ok r \<Longrightarrow> record_ok (f r)) \<Longrightarrow> well (on_sup (map_record n f) s)"
  by (auto simp: records_ok_def map_record_def split: option.split)

lemma well_policy:
  assumes "well s" "0 \<le> k" "failure_policy n k phase e s = (out, s')"
  shows "well s'"
proof -
  let ?err = "\<lambda>r. r\<lparr>dr_last_error := Some e, dr_last_error_phase := Some phase\<rparr>"
  let ?count = "\<lambda>r. r\<lparr>dr_restart_count := k + 1\<rparr>"
  let ?st = "\<lambda>st r. r\<lparr>dr_state := st\<rparr>"
  have step: "well (on_sup (map_record n f) s)"
    if "f \<in> {?st Stopped, ?err \<circ> ?st Failed, ?st Failed \<circ> ?err, ?st Stopped \<circ> ?err, ?st Failed \<circ> (?count \<circ> ?err),
      ?st Restarting \<circ> (?count \<circ> ?err)}" for f
    by (rule well_map_record [OF assms(1)]) (use that assms(2) in \<open>auto simp: record_ok_def\<close>)
  have upd: "set_state n st t = on_sup (map_record n (?st st)) t" "set_error n e phase t = on_sup (map_record n ?err) t"
    for st and t :: "'a sup_st"
    by (simp_all add: set_state_def set_error_def)
  have twice: "on_sup (map_record n g) (on_sup (map_record n f) t) = on_sup (map_record n (g \<circ> f)) t"
    for f g and t :: "'a sup_st"
    by (simp add: on_sup_def map_record_twice)
  show ?thesis
    using assms(3) unfolding failure_policy_def Let_def upd twice
    by (auto intro!: step split: if_splits on_error.splits)
qed

text \<open>What the user's world may do to the records: nothing that makes one ill-formed.\<close>

definition hook_keeps :: "('w sup_st \<Rightarrow> bool) \<Rightarrow> 'w hook \<Rightarrow> bool" where
  "hook_keeps P m \<longleftrightarrow> (\<forall>s r s'. P s \<longrightarrow> m s = Some (r, s') \<longrightarrow> P s')"

lemma hook_keepsD: "hook_keeps P m \<Longrightarrow> P s \<Longrightarrow> m s = Some (r, s') \<Longrightarrow> P s'"
  unfolding hook_keeps_def by blast

definition daemon_keeps :: "'w daemon \<Rightarrow> bool" where
  "daemon_keeps d \<longleftrightarrow> hook_keeps well (dm_on_start d) \<and> hook_keeps well (dm_run d) \<and> hook_keeps well (dm_on_stop d) \<and>
     (\<forall>t. hook_keeps well (dm_on_stop_timed d t))"

text \<open>The same hooks, with a check of every record at each call.\<close>

definition checked :: "'w hook \<Rightarrow> 'w hook" where
  "checked m s = (if well s then m s else Some (Inl AssertionError, s))"

definition checked_daemon :: "'w daemon \<Rightarrow> 'w daemon" where
  "checked_daemon d = \<lparr>dm_on_start = checked (dm_on_start d), dm_run = checked (dm_run d),
     dm_on_stop = checked (dm_on_stop d), dm_on_stop_timed = (\<lambda>t. checked (dm_on_stop_timed d t)),
     dm_own_cancel = dm_own_cancel d\<rparr>"

definition checked_time :: "'w time \<Rightarrow> 'w time" where
  "checked_time tm = \<lparr>tm_now = tm_now tm, tm_sleep = (\<lambda>t. checked (tm_sleep tm t))\<rparr>"

lemma checked_well [simp]: "well s \<Longrightarrow> checked m s = m s"
  by (simp add: checked_def)

lemma checked_fields [simp]:
  "dm_on_start (checked_daemon d) = checked (dm_on_start d)" "dm_run (checked_daemon d) = checked (dm_run d)"
  "dm_on_stop (checked_daemon d) = checked (dm_on_stop d)" "dm_own_cancel (checked_daemon d) = dm_own_cancel d"
  "dm_on_stop_timed (checked_daemon d) t = checked (dm_on_stop_timed d t)"
  "tm_sleep (checked_time tm) t = checked (tm_sleep tm t)" "enter_running (checked_time tm) n s = enter_running tm n s"
  by (simp_all add: checked_daemon_def checked_time_def enter_running_def)

lemma well_hook: "well s \<Longrightarrow> call_hook n p (checked m) s = call_hook n p m s"
  by (simp add: call_hook_def)

lemma well_hookD: "hook_keeps well m \<Longrightarrow> well s \<Longrightarrow> call_hook n p m s = Some (x, s') \<Longrightarrow> well s'"
  by (auto simp: call_hook_def dest: hook_keepsD [of well m "on_sup (log_call n p) s"])

lemma well_enter_running: "well s \<Longrightarrow> well (enter_running tm n s)"
  unfolding enter_running_def by (rule well_map_record) (auto simp: record_ok_def)

lemma well_scope_body:
  assumes d: "daemon_keeps d" and s: "well s" and run: "scope_body tm d n s = Some (pg, x, s')"
  shows "well s' \<and> scope_body (checked_time tm) (checked_daemon d) n s = Some (pg, x, s')"
proof -
  have hooks: "hook_keeps well (dm_on_start d)" "hook_keeps well (dm_run d)" using d by (simp_all add: daemon_keeps_def)
  from run obtain x1 s1 where one: "call_hook n OnStart (dm_on_start d) s = Some (x1, s1)"
    by (auto simp: scope_body_def split: option.splits)
  have s1: "well s1" using well_hookD [OF hooks(1) s one] .
  note s2 = well_enter_running [OF s1, of tm n]
  show ?thesis
  proof (cases x1)
    case (Inl e)
    with run one s1 s show ?thesis by (auto simp: scope_body_def well_hook)
  next
    case (Inr u)
    with run one obtain s3 where two: "call_hook n OnRun (dm_run d) (enter_running tm n s1) = Some (x, s3)" "s' = s3"
      by (auto simp: scope_body_def)
    from run one two Inr s s2 well_hookD [OF hooks(2) s2 two(1)] show ?thesis by (simp add: scope_body_def well_hook)
  qed
qed

lemma well_attempt_body:
  assumes d: "daemon_keeps d" and s: "well s" and run: "attempt_body tm d n s = Some (pg, x, s')"
  shows "well s' \<and> attempt_body (checked_time tm) (checked_daemon d) n s = Some (pg, x, s')"
proof -
  let ?s = "on_sup (map_record n (\<lambda>r. r\<lparr>dr_state := Starting, dr_started_at := None\<rparr>)) s"
  have s': "well ?s" by (rule well_map_record [OF s]) (auto simp: record_ok_def)
  have stop: "hook_keeps well (dm_on_stop d)" using d by (simp add: daemon_keeps_def)
  from run obtain pg1 x1 s1 where one: "scope_body tm d n ?s = Some (pg1, x1, s1)"
    by (auto simp: attempt_body_def split: option.splits)
  from well_scope_body [OF d s' one] have s1: "well s1"
    and same: "scope_body (checked_time tm) (checked_daemon d) n ?s = Some (pg1, x1, s1)" by simp_all
  show ?thesis
  proof (cases "x1 = Inr () \<or> (x1 = Inl Cancelled \<and> dm_own_cancel d s1)")
    case True
    with run one obtain s2 where two: "call_hook n OnStop (dm_on_stop d) s1 = Some (x, s2)" "s' = s2"
      by (auto simp: attempt_body_def)
    from run one two same True s1 well_hookD [OF stop s1 two(1)] show ?thesis by (simp add: attempt_body_def well_hook)
  next
    case False
    with run one same s1 show ?thesis by (auto simp: attempt_body_def)
  qed
qed

lemma well_shielded:
  assumes d: "daemon_keeps d" and s: "well s" and run: "run_on_stop_shielded d n s = Some (x, s')"
  shows "well s' \<and> run_on_stop_shielded (checked_daemon d) n s = Some (x, s')"
proof -
  have stop: "hook_keeps well (dm_on_stop_timed d (su_finalize_timeout (snd s)))" using d by (simp add: daemon_keeps_def)
  from run obtain x2 s2 where two: "call_hook n OnStop (dm_on_stop_timed d (su_finalize_timeout (snd s))) s = Some (x2, s2)"
    by (auto simp: run_on_stop_shielded_def split: option.splits)
  from run two s well_hookD [OF stop s two] show ?thesis
    by (auto simp: run_on_stop_shielded_def well_hook split: sum.splits)
qed

lemma well_attempt:
  assumes d: "daemon_keeps d" and s: "well s" and k: "0 \<le> k" and run: "attempt tm d n k s = Some (out, s')"
  shows "well s' \<and> attempt (checked_time tm) (checked_daemon d) n k s = Some (out, s')"
proof -
  from run obtain pg x s1 where body: "attempt_body tm d n s = Some (pg, x, s1)"
    by (auto simp: attempt_def split: option.splits)
  from well_attempt_body [OF d s body] have s1: "well s1"
    and same: "attempt_body (checked_time tm) (checked_daemon d) n s = Some (pg, x, s1)" by simp_all
  show ?thesis
  proof (cases x)
    case (Inr u)
    have "well (set_state n Stopped s1)"
      unfolding set_state_def by (rule well_map_record [OF s1]) (auto simp: record_ok_def)
    with run body same Inr show ?thesis by (auto simp: attempt_def)
  next
    case (Inl e)
    show ?thesis
    proof (cases "pg_started pg \<and> \<not> pg_stop_called pg")
      case True
      with run body Inl obtain y s2 where sh: "run_on_stop_shielded d n s1 = Some (y, s2)"
        by (auto simp: attempt_def split: option.splits)
      from well_shielded [OF d s1 sh] have s2: "well s2"
        and same2: "run_on_stop_shielded (checked_daemon d) n s1 = Some (y, s2)" by simp_all
      from run body same sh same2 Inl True s2 well_policy [OF s2 k] show ?thesis
        by (cases y) (auto simp: attempt_def)
    next
      case False
      with run body same Inl s1 well_policy [OF s1 k] show ?thesis by (auto simp: attempt_def)
    qed
  qed
qed

lemma well_host_loop:
  assumes "host_loop tm d n k delay s = Some (x, s')" and d: "daemon_keeps d" "\<And>t. hook_keeps well (tm_sleep tm t)"
    and "well s" "0 \<le> k"
  shows "well s' \<and> host_loop (checked_time tm) (checked_daemon d) n k delay s = Some (x, s')"
  using assms(1,4,5)
proof (induction rule: host_loop_induct)
  case (returned k delay s s1)
  with well_attempt [OF d(1) returned.prems returned.hyps] show ?case by (subst host_loop.simps) simp
next
  case (failed k delay s e s1)
  with well_attempt [OF d(1) failed.prems failed.hyps] show ?case by (subst host_loop.simps) simp
next
  case (interrupted k delay s s1 e s2)
  note a = well_attempt [OF d(1) interrupted.prems interrupted.hyps(1)]
  have w: "well (on_sup (log_sleep n delay) s1)" using a by simp
  with a interrupted.hyps(2) hook_keepsD [OF d(2) w interrupted.hyps(2)] show ?case by (subst host_loop.simps) simp
next
  case (again k delay s s1 s2 x s')
  note a = well_attempt [OF d(1) again.prems again.hyps(1)]
  have w: "well (on_sup (log_sleep n delay) s1)" using a by simp
  with a again.hyps(2) again.IH hook_keepsD [OF d(2) w again.hyps(2)] again.prems(2) show ?case
    by (subst host_loop.simps) simp
qed

lemma well_host:
  assumes "host tm d n s = Some (x, s')" "daemon_keeps d" "\<And>t. hook_keeps well (tm_sleep tm t)" "well s"
  shows "well s' \<and> host (checked_time tm) (checked_daemon d) n s = Some (x, s')"
proof -
  obtain r s1 where loop: "host_loop tm d n 0 (rp_base (su_restart (snd s))) s = Some (r, s1)"
    and fin: "host_finally n r s1 = (x, s')"
    using assms(1) by (auto simp: host_def)
  from well_host_loop [OF loop assms(2-4)] have s1: "well s1"
    and same: "host_loop (checked_time tm) (checked_daemon d) n 0 (rp_base (su_restart (snd s))) s = Some (r, s1)"
    by simp_all
  have "well (on_sup (map_record n (\<lambda>r. r\<lparr>dr_started_event := True\<rparr>)) s1)"
    by (rule well_map_record [OF s1]) (auto simp: record_ok_def split: daemon_state.splits)
  with fin have "well s'"
    by (auto simp: host_finally_def Let_def records_ok_exit split: prod.splits sum.splits)
  with same fin show ?thesis by (simp add: host_def)
qed

end
