(* ===== verification/SupervisorProps.thy ===== *)
theory SupervisorProps imports SupervisorHost Registry Health begin

text \<open>
  The properties of the supervisor: what one hosted daemon goes through, whatever the other tasks
  do meanwhile, and the registry, the stop and the active count over every sequence of steps.
\<close>

section \<open>A daemon to run them on\<close>

text \<open>\<open>run\<close> fails as long as the counter is positive; the clock only counts.\<close>

definition flaky :: "nat daemon" where
  "flaky = \<lparr>dm_on_start = at_once,
     dm_run = (\<lambda>(w, s). Some (if w = 0 then Inr () else Inl (Raised w), (w - 1, s))),
     dm_on_stop = at_once, dm_on_stop_timed = (\<lambda>_. at_once), dm_own_cancel = (\<lambda>_. False)\<rparr>"

definition idle_time :: "nat time" where
  "idle_time = \<lparr>tm_now = (\<lambda>w. Fin 0), tm_sleep = (\<lambda>_. at_once)\<rparr>"

definition hosting :: "on_error \<Rightarrow> restart_policy \<Rightarrow> supervisor" where
  "hosting oe p = sup_enter (snd (add (ADaemon 0 ''d'' ''D'') None (new_supervisor oe (Some p))))"

definition two_retries :: restart_policy where
  "two_retries = \<lparr>rp_base = Fin 1, rp_factor = Fin 2, rp_cap = Fin 3, rp_max_retries = Some 2\<rparr>"

lemma flaky_polite: "daemon_polite n flaky" "time_polite n idle_time"
  by (auto simp: daemon_polite_def polite_def time_polite_def flaky_def idle_time_def at_once_def)

lemma flaky_ends: "daemon_ends flaky" "time_ends idle_time"
  by (auto simp: daemon_ends_def time_ends_def always_ends_def flaky_def idle_time_def at_once_def)

text \<open>A daemon that was added and launched, and has not run yet.\<close>

definition launched :: "string \<Rightarrow> supervisor \<Rightarrow> bool" where
  "launched n s \<longleftrightarrow> hosted n s new_record \<and> su_stop_event s \<noteq> None \<and> su_all_done s \<noteq> None"

lemma hosting_launched: "launched ''d'' (hosting oe p)"
  by (simp add: launched_def hosting_def sup_enter_eq add_def new_supervisor_def hosted_def chosen_name_def
      or_else_def Let_def)

lemma hosting_restart [simp]: "su_restart (hosting oe p) = p"
  by (simp add: hosting_def sup_enter_eq add_def new_supervisor_def chosen_name_def or_else_def Let_def)

lemma launched_run:
  "host tm d n s = Some (x, s') \<Longrightarrow> daemon_polite n d \<Longrightarrow> time_polite n tm \<Longrightarrow> launched n (snd s) \<Longrightarrow>
     \<exists>r ats m. run_leaves d n 0 (rp_base (su_restart (snd s))) (snd s) x (snd s') r ats m \<and> dr_started_event r"
  unfolding launched_def by (blast intro: host_spec)

section \<open>The life of a daemon\<close>

text \<open>C2: A hosted daemon is taken through whole attempts only, whatever the other tasks do meanwhile (the
  owner may leave the block).  In each, either on_start raised and nothing else was called, or on_start
  was cancelled by the daemon's own scope and on_stop was called, or on_start returned and then run was
  called exactly once and after it, however run ended (return, error, cancellation), on_stop exactly
  once.  Every attempt but the last has failed with an Exception; the start barrier is released at the end.\<close>

theorem host_on_stop_owed:
  assumes "host tm d n s = Some (x, s')" "daemon_polite n d" "time_polite n tm" "launched n (snd s)"
  shows "\<exists>ats r. ends_of n (snd s') = ends_of n (snd s) @ concat ats \<and>
    calls_of n (snd s') = calls_of n (snd s) @ map fst (concat ats) \<and> ats \<noteq> [] \<and>
    list_all (\<lambda>a. (\<exists>e. a = [(OnStart, Inl e)]) \<or>
      (\<exists>t z. dm_own_cancel d t \<and> a = [(OnStart, Inl Cancelled), (OnStop, z)]) \<or>
      (\<exists>y z. a = [(OnStart, Inr ()), (OnRun, y), (OnStop, z)])) ats \<and>
    list_all (\<lambda>a. \<exists>p e. (p, Inl e) \<in> set a \<and> is_Exception e) (butlast ats) \<and>
    su_records (snd s') n = Some r \<and> dr_started_event r"
proof -
  from launched_run [OF assms] obtain r ats m where
    l: "run_leaves d n 0 (rp_base (su_restart (snd s))) (snd s) x (snd s') r ats m" "dr_started_event r" by blast
  have eq: "attempt_ok d = (\<lambda>a. (\<exists>e. a = [(OnStart, Inl e)]) \<or>
      (\<exists>t z. dm_own_cancel d t \<and> a = [(OnStart, Inl Cancelled), (OnStop, z)]) \<or>
      (\<exists>y z. a = [(OnStart, Inr ()), (OnRun, y), (OnStop, z)]))"
    "attempt_failed = (\<lambda>a. \<exists>p e. (p, Inl e) \<in> set a \<and> is_Exception e)"
    by (simp_all only: fun_eq_iff attempt_ok_def attempt_failed_def) simp_all
  from l(1) have "list_all attempt_failed (take m ats)" "m = length ats \<or> Suc m = length ats"
    by (auto simp: run_leaves_def)
  then have "list_all attempt_failed (butlast ats)"
  proof (elim disjE)
    assume "list_all attempt_failed (take m ats)" "m = length ats"
    then show ?thesis by (auto simp: list_all_iff dest: in_set_butlastD)
  next
    assume *: "list_all attempt_failed (take m ats)" "Suc m = length ats"
    from *(2) have "length ats - 1 = m" by arith
    with *(1) show ?thesis by (simp add: butlast_conv_take)
  qed
  moreover have "hosted n (snd s') r" "ran n (concat ats) (snd s) (snd s')" "ats \<noteq> []" "list_all (attempt_ok d) ats"
    using l(1) by (simp_all add: run_leaves_def)
  ultimately show ?thesis unfolding eq [symmetric] using l(2)
    by (intro exI [of _ ats] exI [of _ r]) (simp only: ran_def hosted_def simp_thms)
qed

theorem host_on_stop_owed_witness:
  "map_option (\<lambda>(x, s). (x, ends_of ''d'' (snd s))) (host idle_time flaky ''d'' (1, hosting Restart two_retries)) =
     Some (Inr (), [(OnStart, Inr ()), (OnRun, Inl (Raised 1)), (OnStop, Inr ()), (OnStart, Inr ()), (OnRun, Inr ()), (OnStop, Inr ())]) \<and>
   (\<exists>ats :: (failure_phase \<times> (exn + unit)) list list. map fst (concat ats) = [OnStart, OnRun, OnStop, OnStart, OnRun, OnStop])"
proof -
  have *: "map_option (\<lambda>(x, s). (x, ends_of ''d'' (snd s))) (host idle_time flaky ''d'' (1, hosting Restart two_retries)) =
     Some (Inr (), [(OnStart, Inr ()), (OnRun, Inl (Raised 1)), (OnStop, Inr ()), (OnStart, Inr ()), (OnRun, Inr ()), (OnStop, Inr ())])"
    by code_simp
  then obtain x s' where run: "host idle_time flaky ''d'' (1, hosting Restart two_retries) = Some (x, s')"
    and ends: "ends_of ''d'' (snd s') = [(OnStart, Inr ()), (OnRun, Inl (Raised 1)), (OnStop, Inr ()), (OnStart, Inr ()), (OnRun, Inr ()), (OnStop, Inr ())]"
    by (auto split: prod.splits)
  have none: "ends_of ''d'' (hosting Restart two_retries) = []" by code_simp
  from host_on_stop_owed [OF run flaky_polite] hosting_launched obtain ats where
    "ends_of ''d'' (snd s') = ends_of ''d'' (hosting Restart two_retries) @ concat ats" by auto
  with none ends have "concat ats = [(OnStart, Inr ()), (OnRun, Inl (Raised 1)), (OnStop, Inr ()), (OnStart, Inr ()), (OnRun, Inr ()), (OnStop, Inr ())]"
    by simp
  then have "map fst (concat ats) = [OnStart, OnRun, OnStop, OnStart, OnRun, OnStop]" by (simp only: list.map fst_conv)
  with * show ?thesis by (intro conjI exI)
qed

text \<open>C24: When the host ends, the record says how: stopped after a return, failed with the error
  noted after a DaemonError, stopped (or still restarting, if the backoff was interrupted) after a
  cancellation; nothing but DaemonError, cancellation and non-Exception exceptions ever leaves it.
  Unless the policy is restart and no stop was signalled, exactly one attempt is made.\<close>

theorem host_outcome:
  assumes "host tm d n s = Some (x, s')" "daemon_polite n d" "time_polite n tm" "launched n (snd s)"
  shows "\<exists>r. su_records (snd s') n = Some r \<and>
    (case x of Inr _ \<Rightarrow> dr_state r = Stopped
     | Inl e \<Rightarrow> if e = DaemonError then dr_state r = Failed \<and> dr_last_error r \<noteq> None
               else if e = Cancelled then dr_state r = Stopped \<or> dr_state r = Restarting
               else \<not> is_Exception e) \<and>
    (su_on_error (snd s) \<noteq> Restart \<or> stopping (snd s) \<longrightarrow>
       sleeps_of n (snd s') = sleeps_of n (snd s) \<and> length (filter (\<lambda>c. c = OnStart) (calls_of n (snd s'))) =
         length (filter (\<lambda>c. c = OnStart) (calls_of n (snd s))) + 1)"
proof -
  from launched_run [OF assms] obtain r ats m where
    l: "run_leaves d n 0 (rp_base (su_restart (snd s))) (snd s) x (snd s') r ats m" by blast
  have once: "length (filter (\<lambda>c. c = OnStart) (map fst a)) = 1" if "attempt_ok d a" for a
    using that by (auto simp: attempt_ok_def)
  have ends: "su_records (snd s') n = Some r" "run_ends x r" using l by (simp_all add: run_leaves_def hosted_def)
  have "sleeps_of n (snd s') = sleeps_of n (snd s) \<and> length (filter (\<lambda>c. c = OnStart) (calls_of n (snd s'))) =
      length (filter (\<lambda>c. c = OnStart) (calls_of n (snd s))) + 1"
    if "su_on_error (snd s) \<noteq> Restart \<or> stopping (snd s)"
  proof -
    have m: "m = 0" and "length ats = 1" "list_all (attempt_ok d) ats" using l that by (auto simp: run_leaves_def)
    then obtain a where "ats = [a]" "attempt_ok d a" by (auto simp: length_Suc_conv)
    with l m once [of a] show ?thesis by (simp add: run_leaves_def ran_def)
  qed
  with ends show ?thesis unfolding run_ends_def by (intro exI [of _ r]) (simp split: sum.split)
qed

theorem host_outcome_witness:
  "\<exists>r. su_records (snd (snd (the (host idle_time flaky ''d'' (1, hosting Shutdown two_retries))))) ''d'' = Some r \<and>
     dr_state r = Failed"
proof -
  have *: "map_option fst (host idle_time flaky ''d'' (1, hosting Shutdown two_retries)) = Some (Inl DaemonError)"
    by code_simp
  then obtain s' where run: "host idle_time flaky ''d'' (1, hosting Shutdown two_retries) = Some (Inl DaemonError, s')"
    by auto
  from host_outcome [OF run flaky_polite] hosting_launched run show ?thesis by auto
qed

text \<open>C8: With a bound on the retries the host of a daemon whose hooks all end (they return, raise or are
  cancelled, at some time), under a clock whose sleeps end, returns after at most one more attempt than
  the bound (a negative bound allows no retry); the host of a daemon that starts and whose run never
  ends does not return, whatever the bound.\<close>

theorem host_returns:
  assumes "daemon_polite n d" "time_polite n tm" "launched n (snd s)" "rp_max_retries (su_restart (snd s)) = Some M"
  shows "(daemon_ends d \<and> time_ends tm \<longrightarrow>
      (\<exists>x s' ats. host tm d n s = Some (x, s') \<and> calls_of n (snd s') = calls_of n (snd s) @ concat ats \<and>
        list_all attempt_shape ats \<and> int (length ats) \<le> max 0 M + 1)) \<and>
    ((\<forall>t. \<exists>t'. dm_on_start d t = Some (Inr (), t')) \<and> (\<forall>t. dm_run d t = None) \<longrightarrow> host tm d n s = None)"
proof (intro conjI impI)
  assume "daemon_ends d \<and> time_ends tm"
  moreover have h: "hosted n (snd s) new_record" using assms(3) by (simp add: launched_def)
  ultimately have "host_loop tm d n 0 (rp_base (su_restart (snd s))) s \<noteq> None"
    using host_loop_returns [OF _ _ assms(1,2) h _ assms(4)] by (simp add: new_record_def)
  then have "host tm d n s \<noteq> None" by (simp add: host_def)
  then obtain x s' where run: "host tm d n s = Some (x, s')" by auto
  from launched_run [OF this assms(1-3)] obtain r ats m where
    l: "run_leaves d n 0 (rp_base (su_restart (snd s))) (snd s) x (snd s') r ats m" by blast
  then have "int (length ats) \<le> max 0 M + 1" using assms(4) by (auto simp: run_leaves_def)
  with run run_leaves_calls [OF l] show "\<exists>x s' ats. host tm d n s = Some (x, s') \<and>
      calls_of n (snd s') = calls_of n (snd s) @ concat ats \<and> list_all attempt_shape ats \<and> int (length ats) \<le> max 0 M + 1"
    by (intro exI [of _ x] exI [of _ s'] exI [of _ "map (map fst) ats"]) simp
next
  assume "(\<forall>t. \<exists>t'. dm_on_start d t = Some (Inr (), t')) \<and> (\<forall>t. dm_run d t = None)"
  then have "host_loop tm d n 0 (rp_base (su_restart (snd s))) s = None" by (intro host_loop_hangs [OF refl]) blast+
  then show "host tm d n s = None" by (simp add: host_def)
qed

text \<open>A daemon that serves for ever.\<close>

definition endless :: "nat daemon" where
  "endless = flaky\<lparr>dm_run := (\<lambda>_. None)\<rparr>"

theorem host_returns_witness:
  "(\<exists>x s' ats. host idle_time flaky ''d'' (7, hosting Restart two_retries) = Some (x, s') \<and>
     calls_of ''d'' (snd s') = calls_of ''d'' (hosting Restart two_retries) @ concat ats \<and>
     list_all attempt_shape ats \<and> int (length ats) \<le> 3) \<and>
   host idle_time endless ''d'' (7, hosting Restart two_retries) = None"
proof -
  have e: "daemon_polite ''d'' endless" "\<forall>t. \<exists>t'. dm_on_start endless t = Some (Inr (), t')" "\<forall>t. dm_run endless t = None"
    using flaky_polite(1) by (auto simp: endless_def daemon_polite_def polite_def flaky_def at_once_def)
  show ?thesis
    using host_returns [of "''d''" flaky idle_time "(7, hosting Restart two_retries)" 2]
      host_returns [of "''d''" endless idle_time "(7, hosting Restart two_retries)" 2]
      flaky_polite flaky_ends e hosting_launched
    by (simp add: two_retries_def)
qed

text \<open>The delays: never below the first, never above the cap, and growing.\<close>

lemma next_delay_bounds:
  assumes f: "rp_factor p = Fin f" "1 \<le> f" and d: "is_float d" "Fin 0 \<le> d" "d \<le> rp_cap p" and cap: "is_float (rp_cap p)"
  shows "is_float (next_delay p d) \<and> d \<le> next_delay p d \<and> next_delay p d \<le> rp_cap p"
proof -
  have m: "is_float (fmul d (rp_factor p)) \<and> d \<le> fmul d (rp_factor p)"
  proof (cases d)
    case (Fin q)
    with d have q: "0 \<le> q" "round_double q = Fin q" by simp_all
    have "q \<le> q * f" using q(1) f(2) mult_left_mono [of 1 f q] by simp
    then have "round_double q \<le> round_double (q * f)" by (rule round_double_mono)
    with Fin f q show ?thesis by simp
  next
    case PInf
    with f show ?thesis by (simp add: inf_times_def)
  qed (use d in simp_all)
  show ?thesis
  proof (cases "flt (rp_cap p) (fmul d (rp_factor p))")
    case True
    with d cap show ?thesis by (simp add: next_delay_def pymin_def)
  next
    case False
    then have "fmul d (rp_factor p) \<le> rp_cap p" using m cap by (simp add: flt_iff is_float_not_NaN not_less)
    with False m show ?thesis by (simp add: next_delay_def pymin_def)
  qed
qed

lemma delays_bounds:
  assumes f: "rp_factor p = Fin f" "1 \<le> f" and d: "is_float d" "Fin 0 \<le> d" "d \<le> rp_cap p" and cap: "is_float (rp_cap p)"
  shows "is_float ((next_delay p ^^ i) d) \<and> d \<le> (next_delay p ^^ i) d \<and> (next_delay p ^^ i) d \<le> rp_cap p"
proof (induction i)
  case (Suc i)
  with d have "Fin 0 \<le> (next_delay p ^^ i) d" using order_trans by blast
  with Suc next_delay_bounds [OF f _ _ _ cap, of "(next_delay p ^^ i) d"]
  have "is_float ((next_delay p ^^ Suc i) d)" "(next_delay p ^^ i) d \<le> (next_delay p ^^ Suc i) d"
    "(next_delay p ^^ Suc i) d \<le> rp_cap p"
    by simp_all
  with Suc show ?case using order_trans by blast
qed (use d in simp)

lemma delays_sorted:
  assumes f: "rp_factor p = Fin f" "1 \<le> f" and d: "is_float d" "Fin 0 \<le> d" "d \<le> rp_cap p" and cap: "is_float (rp_cap p)"
  shows "sorted (map (\<lambda>i. (next_delay p ^^ i) d) [0..<m])"
proof (induction m)
  case (Suc m)
  have step: "(next_delay p ^^ i) d \<le> (next_delay p ^^ Suc i) d" for i
  proof -
    note b = delays_bounds [OF f d cap, of i]
    with d(2) have "Fin 0 \<le> (next_delay p ^^ i) d" using order_trans by blast
    with b next_delay_bounds [OF f _ _ _ cap, of "(next_delay p ^^ i) d"] show ?thesis by simp
  qed
  have "(next_delay p ^^ i) d \<le> (next_delay p ^^ j) d" if "i \<le> j" for i j
    using step that by (rule lift_Suc_mono_le [of "\<lambda>i. (next_delay p ^^ i) d"])
  with Suc show ?case by (auto simp: sorted_append)
qed simp

text \<open>C26: The backoffs between the attempts of a daemon are the delays of the policy, each the last
  times the factor but at most the cap; with a factor of at least 1 and a base between 0 and the
  cap they never fall, never exceed the cap and are never below the base, also when the
  multiplication rounds or overflows.\<close>

theorem host_backoff:
  assumes "host tm d n s = Some (x, s')" "daemon_polite n d" "time_polite n tm" "launched n (snd s)"
    and "p = su_restart (snd s)" "rp_factor p = Fin f" "1 \<le> f"
    and "is_float (rp_base p)" "Fin 0 \<le> rp_base p" "rp_base p \<le> rp_cap p" "is_float (rp_cap p)"
  shows "\<exists>ds. sleeps_of n (snd s') = sleeps_of n (snd s) @ ds \<and>
    ds = map (\<lambda>i. ((\<lambda>t. pymin (fmul t (rp_factor p)) (rp_cap p)) ^^ i) (rp_base p)) [0..<length ds] \<and>
    sorted ds \<and> list_all (\<lambda>t. rp_base p \<le> t \<and> t \<le> rp_cap p) ds"
proof -
  from launched_run [OF assms(1-4)] obtain r ats m where
    "run_leaves d n 0 (rp_base p) (snd s) x (snd s') r ats m" unfolding assms(5) by blast
  then have "sleeps_of n (snd s') = sleeps_of n (snd s) @ map (\<lambda>i. (next_delay p ^^ i) (rp_base p)) [0..<m]"
    by (simp add: run_leaves_def assms(5))
  moreover have "next_delay p = (\<lambda>t. pymin (fmul t (rp_factor p)) (rp_cap p))"
    by (simp add: fun_eq_iff next_delay_def)
  ultimately show ?thesis
    using delays_sorted [OF assms(6-11), of m] delays_bounds [OF assms(6-11)] by (auto simp: list_all_iff)
qed

theorem host_backoff_witness:
  "map_option (\<lambda>(x, s). (x, sleeps_of ''d'' (snd s))) (host idle_time flaky ''d'' (7, hosting Restart two_retries)) =
     Some (Inl DaemonError, [Fin 1, Fin 2]) \<and> sorted [Fin 1, Fin 2]"
proof -
  have *: "map_option (\<lambda>(x, s). (x, sleeps_of ''d'' (snd s))) (host idle_time flaky ''d'' (7, hosting Restart two_retries)) =
     Some (Inl DaemonError, [Fin 1, Fin 2])"
    by code_simp
  then obtain x s' where run: "host idle_time flaky ''d'' (7, hosting Restart two_retries) = Some (x, s')"
    and sleeps: "sleeps_of ''d'' (snd s') = [Fin 1, Fin 2]"
    by auto
  have "sleeps_of ''d'' (hosting Restart two_retries) = []" by code_simp
  with host_backoff [OF run flaky_polite, of two_retries 2] sleeps hosting_launched * show ?thesis
    by (simp add: two_retries_def)
qed

text \<open>C38: A stop that is signalled during a backoff comes too late to win over the retry: when the sleep is
  over the daemon is started once more, exactly once, although it is stopping; only a stop that was there
  before the backoff prevents it.\<close>

theorem backoff_ignores_stop:
  assumes "daemon_polite n d" "time_polite n tm" "hosted n (snd s) r" "dr_restart_count r = k"
    and "attempt tm d n k s = Some (Retry, s1)" "tm_sleep tm delay (on_sup (log_sleep n delay) s1) = Some (Inr (), s2)"
    and "stopping (snd s2)" "host_loop tm d n k delay s = Some (x, s')"
  shows "\<not> stopping (snd s) \<and> (\<exists>a. calls_of n (snd s') = calls_of n (snd s2) @ a \<and>
    (a = [OnStart] \<or> a = [OnStart, OnStop] \<or> a = [OnStart, OnRun, OnStop]))"
proof -
  from backoff_spec [OF assms(1-6)] obtain r' where h: "hosted n (snd s2) r'" "dr_restart_count r' = k + 1" "\<not> stopping (snd s)"
    by blast
  from assms(5,6,8) have "host_loop tm d n (k + 1) (next_delay (su_restart (snd s2)) delay) s2 = Some (x, s')"
    by (subst (asm) host_loop.simps) simp
  from host_loop_spec [OF this assms(1,2) h(1,2)] obtain r2 ats m where
    l: "run_leaves d n (k + 1) (next_delay (su_restart (snd s2)) delay) (snd s2) x (snd s') r2 ats m" by blast
  with assms(7) have "m = 0" by (auto simp: run_leaves_def)
  with l have "length ats = 1" by (auto simp: run_leaves_def)
  then obtain a where "ats = [a]" by (cases ats) auto
  with run_leaves_calls [OF l] h(3) show ?thesis by (auto simp: attempt_shape_def)
qed

text \<open>A clock during whose sleeps somebody signals the stop.\<close>

definition stopping_time :: "nat time" where
  "stopping_time = \<lparr>tm_now = (\<lambda>w. Fin 0), tm_sleep = (\<lambda>_ s. Some (Inr (), on_sup signal_stop s))\<rparr>"

theorem backoff_ignores_stop_witness:
  "map_option (\<lambda>(x, s). (x, stopping (snd s), calls_of ''d'' (snd s)))
     (host_loop stopping_time flaky ''d'' 0 (Fin 1) (1, hosting Restart two_retries)) =
   Some (Inr (), True, [OnStart, OnRun, OnStop] @ [OnStart, OnRun, OnStop])"
proof -
  let ?s = "(1::nat, hosting Restart two_retries)"
  have run: "map_option (\<lambda>(x, s). (x, stopping (snd s), calls_of ''d'' (snd s))) (host_loop stopping_time flaky ''d'' 0 (Fin 1) ?s) =
      Some (Inr (), True, [OnStart, OnRun, OnStop, OnStart, OnRun, OnStop])"
    by code_simp
  then obtain x s' where loop: "host_loop stopping_time flaky ''d'' 0 (Fin 1) ?s = Some (x, s')" by auto
  have "map_option fst (attempt stopping_time flaky ''d'' 0 ?s) = Some Retry" by code_simp
  then obtain s1 where att: "attempt stopping_time flaky ''d'' 0 ?s = Some (Retry, s1)" by auto
  have polite: "time_polite ''d'' stopping_time"
    by (auto simp: time_polite_def polite_def stopping_time_def on_sup_def intro: other_act.signal)
  have h: "hosted ''d'' (snd ?s) new_record" using hosting_launched by (simp add: launched_def)
  let ?s2 = "on_sup signal_stop (on_sup (log_sleep ''d'' (Fin 1)) s1)"
  have slp: "tm_sleep stopping_time (Fin 1) (on_sup (log_sleep ''d'' (Fin 1)) s1) = Some (Inr (), ?s2)"
    by (simp add: stopping_time_def)
  have c: "dr_restart_count new_record = 0" by (simp add: new_record_def)
  from backoff_spec [OF flaky_polite(1) polite h c att slp]
  have "su_stop_event (snd ?s2) = None \<longleftrightarrow> su_stop_event (snd ?s) = None" by blast
  moreover have "launched ''d'' (hosting Restart two_retries)" by (rule hosting_launched)
  ultimately have "stopping (snd ?s2)" by (auto simp: launched_def stopping_def signal_stop_def split: if_splits)
  from backoff_ignores_stop [OF flaky_polite(1) polite h c att slp this loop]
  have "\<not> stopping (hosting Restart two_retries)" by simp
  with run show ?thesis by simp
qed

section \<open>The health records\<close>

text \<open>C14: Every health record is well formed at every point where another task can look: an error comes
  with its phase, a running daemon has a start time and its uptime is the time since, any other has
  no uptime, a failed or restarting one shows its error, and no count is negative.  A new supervisor is
  so, registration keeps it, and a host called there not only leaves it so: checking all records at
  each of its calls (hooks, sleeps) never finds one ill-formed, since the run is then the same.\<close>

theorem health_typed:
  assumes "host tm d n s = Some (x, s')" "daemon_keeps d" "\<And>t. hook_keeps (\<lambda>s. records_ok (snd s)) (tm_sleep tm t)"
    and "records_ok (snd s)"
  shows "host (checked_time tm) (checked_daemon d) n s = Some (x, s') \<and>
    (\<forall>now m h. snapshot now (snd s') m = Some h \<longrightarrow> health_ok now m h) \<and>
    records_ok (new_supervisor oe rp) \<and> (\<forall>arg name u. records_ok u \<longrightarrow> records_ok (snd (add arg name u)))"
  using well_host [OF assms] by (auto intro: snapshot_ok records_ok_add)

theorem health_typed_witness:
  "map_option (\<lambda>(x, s). (x, map_option dh_state (snapshot (Fin 9) (snd s) ''d''), map_option dh_uptime (snapshot (Fin 9) (snd s) ''d'')))
     (host (checked_time idle_time) (checked_daemon flaky) ''d'' (9, hosting Restart two_retries)) =
   Some (Inl DaemonError, Some Failed, Some None)"
proof -
  have *: "map_option (\<lambda>(x, s). (x, map_option dh_state (snapshot (Fin 9) (snd s) ''d''), map_option dh_uptime (snapshot (Fin 9) (snd s) ''d'')))
     (host idle_time flaky ''d'' (9, hosting Restart two_retries)) = Some (Inl DaemonError, Some Failed, Some None)"
    by code_simp
  then obtain x s' where run: "host idle_time flaky ''d'' (9, hosting Restart two_retries) = Some (x, s')" by auto
  have "daemon_keeps flaky" "\<And>t. hook_keeps (\<lambda>s. records_ok (snd s)) (tm_sleep idle_time t)"
    by (auto simp: daemon_keeps_def hook_keeps_def flaky_def idle_time_def at_once_def)
  moreover have "records_ok (snd (9, hosting Restart two_retries))" by (simp add: hosting_def records_ok_add)
  ultimately have "host (checked_time idle_time) (checked_daemon flaky) ''d'' (9, hosting Restart two_retries) = Some (x, s')"
    using health_typed [OF run, of Ignore None] by blast
  with run * show ?thesis by simp
qed

section \<open>The registry over every sequence of steps\<close>

text \<open>Runs in which nothing is launched once all daemons are done.\<close>

definition orderly :: "supervisor \<times> string list \<Rightarrow> supervisor \<times> string list \<Rightarrow> bool" where
  "orderly t t' \<longleftrightarrow> sys_step t t' \<and> (su_all_done (fst t) = Some True \<longrightarrow> su_active (fst t') \<le> su_active (fst t))"

lemma orderly_sys: "orderly\<^sup>*\<^sup>* t t' \<Longrightarrow> sys_step\<^sup>*\<^sup>* t t'"
  by (erule rtranclp_mono [THEN predicate2D, rotated]) (auto simp: orderly_def)

lemma hosting_orderly: "orderly\<^sup>*\<^sup>* (new_supervisor oe (Some p), []) (signal_stop (hosting oe p), [])"
proof -
  let ?s0 = "new_supervisor oe (Some p)"
  let ?s1 = "snd (add (ADaemon 0 ''d'' ''D'') None ?s0)"
  have ev: "su_all_done ?s0 \<noteq> Some True" "su_all_done ?s1 \<noteq> Some True" "\<not> su_tg ?s1"
    "su_all_done (sup_enter ?s1) \<noteq> Some True"
    by (simp_all add: new_supervisor_def sup_enter_eq add_def Let_def chosen_name_def or_else_def launch_def)
  have "orderly (?s0, []) (?s1, [])" "orderly (?s1, []) (sup_enter ?s1, [])"
    "orderly (sup_enter ?s1, []) (signal_stop (sup_enter ?s1), [])"
    unfolding orderly_def using ev sys_step.add sys_step.enter sys_step.signal by auto
  then show ?thesis unfolding hosting_def by (meson converse_rtranclp_into_rtranclp rtranclp.rtrancl_refl)
qed

text \<open>C6: Whatever is added, entered, left, signalled and finished in whatever order, the registry is
  sound: every accepted name is recorded and is queued or launched exactly once, the active count is
  the number of launched daemons that have not ended (so it is never negative), the end of a host
  never finds the events missing, and \<open>all_done\<close> is set only after the stop signal.\<close>

theorem registry_sound:
  assumes "sys_step\<^sup>*\<^sup>* (new_supervisor oe rp, []) (s, fin)"
  shows "distinct (map snd (su_launched s @ su_pending s)) \<and>
    set (map snd (su_launched s @ su_pending s)) = su_seen s \<and> dom (su_records s) = su_seen s \<and>
    su_active s = int (card (snd ` set (su_launched s) - set fin)) \<and>
    (su_launched s = [] \<or> fst (on_daemon_exit s) = Inr ()) \<and>
    (su_all_done s = Some True \<longrightarrow> su_stop_event s = Some True)"
proof -
  have ok: "registry_ok (s, fin)" using assms by (rule registry_reachable)
  have "su_launched s = [] \<or> fst (on_daemon_exit s) = Inr ()"
    using ok by (cases "su_launched s = []") (auto simp: registry_ok_def on_daemon_exit_def Let_def)
  with ok registry_active [OF ok] show ?thesis by (simp add: registry_ok_def)
qed

theorem registry_sound_witness:
  "map snd (su_launched (signal_stop (hosting Ignore two_retries))) = [''d''] \<and>
   su_active (signal_stop (hosting Ignore two_retries)) = 1"
proof -
  have "map snd (su_launched (signal_stop (hosting Ignore two_retries))) = [''d'']" by code_simp
  with registry_sound [OF orderly_sys [OF hosting_orderly [of Ignore two_retries]]] show ?thesis by (simp add: image_iff flip: set_map)
qed

text \<open>Registration, branch by branch: an uncalled factory and any other object raise TypeError, a
  name already seen raises ValueError, and neither changes anything; the name is the given one, else
  the daemon's own, else its class's, an empty string counting as missing; an accepted daemon gets a
  fresh record and is launched now inside the block and queued outside it.\<close>

theorem add_spec:
  "add AFactory name s = (Inl TypeError, s) \<and> add AOther name s = (Inl TypeError, s) \<and>
   (let c = (if name \<noteq> None \<and> name \<noteq> Some [] then the name else if own \<noteq> [] then own else cls);
        s' = snd (add (ADaemon d own cls) name s) in
    if c \<in> su_seen s then add (ADaemon d own cls) name s = (Inl ValueError, s)
    else fst (add (ADaemon d own cls) name s) = Inr () \<and> su_seen s' = insert c (su_seen s) \<and>
      su_records s' = (su_records s)(c \<mapsto> new_record) \<and>
      (if su_tg s then su_launched s' = su_launched s @ [(d, c)] \<and> su_pending s' = su_pending s \<and> su_active s' = su_active s + 1
       else su_launched s' = su_launched s \<and> su_pending s' = su_pending s @ [(d, c)] \<and> su_active s' = su_active s))"
proof -
  have "chosen_name name own cls = (if name \<noteq> None \<and> name \<noteq> Some [] then the name else if own \<noteq> [] then own else cls)"
    by (simp add: chosen_name_def or_else_def split: option.split)
  then show ?thesis by (auto simp: add_def Let_def launch_def)
qed

section \<open>Stopping\<close>

lemma orderly_done:
  "orderly\<^sup>*\<^sup>* (new_supervisor oe rp, []) t \<Longrightarrow> registry_ok t \<and> (su_all_done (fst t) = Some True \<longrightarrow> su_active (fst t) \<le> 0)"
proof (induction rule: rtranclp_induct)
  case base
  show ?case by (simp add: registry_new) (simp add: new_supervisor_def)
next
  case (step t u)
  then have st: "sys_step t u" and ok: "registry_ok t" by (simp_all add: orderly_def)
  from registry_step [OF st ok] step st show ?case
    by (auto simp: orderly_def elim!: sys_step.cases)
      (auto simp: sup_enter_eq add_def launch_def signal_stop_def touches_def sup_exit_def on_daemon_exit_def Let_def
        split: add_arg.splits if_splits)
qed

lemma orderly_all_done:
  assumes "orderly\<^sup>*\<^sup>* (new_supervisor oe rp, []) (s, fin)" "su_all_done s = Some True \<or> su_active s = 0"
  shows "snd ` set (su_launched s) = set fin"
proof -
  from orderly_done [OF assms(1)] assms(2) have ok: "registry_ok (s, fin)" and le: "su_active s \<le> 0" by auto
  from registry_active [OF ok] le have "card (snd ` set (su_launched s) - set fin) = 0" by simp
  then have "snd ` set (su_launched s) \<subseteq> set fin" by simp
  with ok show ?thesis by (auto simp: registry_ok_def)
qed

lemma orderly_signal: "orderly\<^sup>*\<^sup>* (s, fin) (signal_stop (s\<lparr>su_finalize_timeout := ft\<rparr>), fin)"
proof -
  have "touches s (s\<lparr>su_finalize_timeout := ft\<rparr>)" by (simp add: touches_def)
  then have "orderly (s, fin) (s\<lparr>su_finalize_timeout := ft\<rparr>, fin)"
    by (simp add: orderly_def sys_step.touch)
  moreover have "orderly (s\<lparr>su_finalize_timeout := ft\<rparr>, fin) (signal_stop (s\<lparr>su_finalize_timeout := ft\<rparr>), fin)"
    by (simp add: orderly_def sys_step.signal) (simp add: signal_stop_def)
  ultimately show ?thesis by (rule converse_rtranclp_into_rtranclp [OF _ r_into_rtranclp])
qed

text \<open>C13: Whatever the supervisor went through before and whatever the other tasks do while \<open>stop\<close> waits
  (registrations, exits of daemons, the end of the block), if nothing is added after the daemons have
  all ended, a \<open>stop\<close> called inside the block that returns has left no daemon out of reach: either
  every launched daemon's host has ended, or the task group has been cancelled, or the owner has left
  the block meanwhile.\<close>

theorem stop_leaves_none:
  assumes before: "orderly\<^sup>*\<^sup>* (new_supervisor oe rp, []) (s, fin)" and tg: "su_tg s"
    and meanwhile: "\<forall>t r t'. wait_done grace t = (r, t') \<longrightarrow> orderly\<^sup>*\<^sup>* (snd t, fst t) (snd t', fst t')"
    and stop: "stop wait_done grace ft (fin, s) = (Inr (), (fin', s'))"
  shows "snd ` set (su_launched s') = set fin' \<or> su_cancelled s' \<or> \<not> su_tg s'"
proof -
  define s1 where "s1 = signal_stop (s\<lparr>su_finalize_timeout := ft\<rparr>)"
  have s1: "orderly\<^sup>*\<^sup>* (new_supervisor oe rp, []) (s1, fin)"
    using before orderly_signal [of s fin ft] unfolding s1_def by (rule rtranclp_trans)
  have "su_tg s1" using tg by (simp add: s1_def signal_stop_def)
  moreover from this orderly_done [OF s1] have "su_all_done s1 \<noteq> None" by (auto simp: registry_ok_def)
  ultimately have eq: "stop wait_done grace ft (fin, s) =
      (if su_active s1 = 0 then (Inr (), (fin, s1))
       else andThen (if flt (Fin 0) grace then wait_done grace else ret ())
         (\<lambda>_ t. (Inr (), (fst t, if su_all_done (snd t) \<noteq> Some True \<and> su_tg (snd t)
            then (snd t)\<lparr>su_cancelled := True\<rparr> else snd t))) (fin, s1))"
    by (auto simp: stop_def s1_def [symmetric])
  show ?thesis
  proof (cases "su_active s1 = 0")
    case True
    with eq stop orderly_all_done [OF s1] show ?thesis by simp
  next
    case False
    let ?wait = "if flt (Fin 0) grace then wait_done grace else ret ()"
    obtain r fin2 s2 where w: "?wait (fin, s1) = (r, (fin2, s2))" by (cases "?wait (fin, s1)") auto
    have "orderly\<^sup>*\<^sup>* (s1, fin) (s2, fin2)"
    proof (cases "flt (Fin 0) grace")
      case True
      with w have "wait_done grace (fin, s1) = (r, (fin2, s2))" by simp
      with meanwhile have "orderly\<^sup>*\<^sup>* (snd (fin, s1), fst (fin, s1)) (snd (fin2, s2), fst (fin2, s2))" by blast
      then show ?thesis by simp
    qed (use w in simp)
    with s1 have "orderly\<^sup>*\<^sup>* (new_supervisor oe rp, []) (s2, fin2)" by (rule rtranclp_trans)
    from orderly_all_done [OF this] w eq stop False show ?thesis
      by (cases r) (auto split: if_splits)
  qed
qed

text \<open>A wait during which the one daemon ends, if it runs.\<close>

definition wait_one :: "string list \<times> supervisor \<Rightarrow> (exn + unit) \<times> (string list \<times> supervisor)" where
  "wait_one t =
     (if ''d'' \<in> snd ` set (su_launched (snd t)) \<and> ''d'' \<notin> set (fst t)
      then (Inr (), (''d'' # fst t, snd (on_daemon_exit (snd t)))) else (Inr (), t))"

theorem stop_leaves_none_witness:
  "\<exists>fin s'. stop (\<lambda>_. wait_one) (Fin 5) (Fin 2) ([], signal_stop (hosting Ignore two_retries)) = (Inr (), (fin, s')) \<and>
     snd ` set (su_launched s') = set fin"
proof -
  let ?s = "signal_stop (hosting Ignore two_retries)"
  have wait: "\<forall>t r t'. wait_one t = (r, t') \<longrightarrow> orderly\<^sup>*\<^sup>* (snd t, fst t) (snd t', fst t')"
  proof (intro allI impI)
    fix t r t' assume w: "wait_one t = (r, t')"
    show "orderly\<^sup>*\<^sup>* (snd t, fst t) (snd t', fst t')"
    proof (cases "''d'' \<in> snd ` set (su_launched (snd t)) \<and> ''d'' \<notin> set (fst t)")
      case True
      then have "sys_step (snd t, fst t) (snd (on_daemon_exit (snd t)), ''d'' # fst t)" by (simp add: sys_step.finish)
      moreover have "su_active (snd (on_daemon_exit (snd t))) \<le> su_active (snd t)"
        by (simp add: on_daemon_exit_def Let_def)
      ultimately have "orderly (snd t, fst t) (snd (on_daemon_exit (snd t)), ''d'' # fst t)" by (simp add: orderly_def)
      with True w show ?thesis by (auto simp: wait_one_def)
    qed (use w in \<open>auto simp: wait_one_def\<close>)
  qed
  have tg: "su_tg ?s" by code_simp
  obtain r fin s' where st: "stop (\<lambda>_. wait_one) (Fin 5) (Fin 2) ([], ?s) = (r, (fin, s'))"
    by (cases "stop (\<lambda>_. wait_one) (Fin 5) (Fin 2) ([], ?s)") auto
  have "fst (stop (\<lambda>_. wait_one) (Fin 5) (Fin 2) ([], ?s)) = Inr ()"
    "\<not> su_cancelled (snd (snd (stop (\<lambda>_. wait_one) (Fin 5) (Fin 2) ([], ?s))))"
    "su_tg (snd (snd (stop (\<lambda>_. wait_one) (Fin 5) (Fin 2) ([], ?s))))"
    by code_simp+
  with st have st': "stop (\<lambda>_. wait_one) (Fin 5) (Fin 2) ([], ?s) = (Inr (), (fin, s'))"
    and no: "\<not> su_cancelled s'" "su_tg s'" by simp_all
  from stop_leaves_none [where wait_done = "\<lambda>_. wait_one", OF hosting_orderly tg wait st'] no st' show ?thesis
    by blast
qed




text \<open>C34: A daemon launched after the others have all ended under a stop signal is out of reach of
  \<open>stop\<close>: it is counted as active, but the all-done event stays set, so \<open>stop\<close> returns without
  cancelling it, however long the grace.\<close>

theorem stop_misses_late_daemon:
  assumes "su_tg s" "su_stop_event s = Some True" "su_all_done s = Some True" "chosen_name name own cls \<notin> su_seen s"
    and "su_active s = 0" "\<not> su_cancelled s"
    and "wait_done grace = ret ()"
  shows "\<exists>t. stop wait_done grace ft (w, snd (add (ADaemon d own cls) name s)) = (Inr (), (w, t)) \<and>
    su_active t = 1 \<and> \<not> su_cancelled t \<and> su_launched t = su_launched s @ [(d, chosen_name name own cls)]"
  using assms by (simp add: add_accepted stop_def signal_stop_def Let_def andThen_def)

theorem stop_misses_late_daemon_witness:
  "\<exists>t. stop (\<lambda>_. ret ()) (Fin 5) (Fin 2) ((), snd (add (ADaemon 1 ''late'' ''D'') None
      (snd (on_daemon_exit (signal_stop (hosting Ignore two_retries)))))) = (Inr (), ((), t)) \<and>
     su_active t = 1 \<and> \<not> su_cancelled t"
proof -
  let ?s = "snd (on_daemon_exit (signal_stop (hosting Ignore two_retries)))"
  have "su_tg ?s" "su_stop_event ?s = Some True" "su_all_done ?s = Some True"
    "chosen_name None ''late'' ''D'' \<notin> su_seen ?s" "su_active ?s = 0" "\<not> su_cancelled ?s"
    by code_simp+
  from stop_misses_late_daemon [OF this, of "\<lambda>_. ret ()" "Fin 5" "Fin 2" "()" 1] show ?thesis by blast
qed

text \<open>A daemon that fails at every attempt under a bound of two retries is run three times, with
  two backoffs, and its restart count ends at three: the attempt that was given up is counted as a
  restart that never happened.\<close>

theorem giving_up_overcounts:
  "map_option (\<lambda>(x, s). (x, map_option dr_restart_count (su_records (snd s) ''d''), length (sleeps_of ''d'' (snd s)),
      length (filter (\<lambda>c. c = OnStart) (calls_of ''d'' (snd s)))))
     (host idle_time flaky ''d'' (9, hosting Restart two_retries)) = Some (Inl DaemonError, Some 3, 2, 3)"
  by code_simp

end
