(* ===== verification/Channel.thy ===== *)
theory Channel imports Prelude PyFloat begin

text \<open>
  The in-process channel of \<open>channel.py\<close>: the endpoints \<open>_Send\<close> and \<open>_Recv\<close> around AnyIO's memory
  object stream, which is not under \<open>src/\<close> and enters as arguments (\<open>inner\<close>), and \<open>open_channel\<close>.

  An endpoint's own state is its busy flag.  Its operations act on a pair of that flag and the
  rest of the world, so that an \<open>inner\<close> call which awaits can run other tasks that use the same
  endpoint.  The \<open>SendStream\<close> / \<open>ReceiveStream\<close> protocols are the locale \<open>spsc\<close>; \<open>memory_stream\<close>
  states what AnyIO documents of its streams, and the endpoints turn the one into the other.
\<close>

section \<open>Statistics\<close>

text \<open>The fields of AnyIO's statistics the code reads.\<close>

record anyio_stats =
  as_current_buffer_used :: nat
  as_max_buffer_size :: pyfloat
  as_open_send_streams :: nat
  as_open_receive_streams :: nat
  as_tasks_waiting_send :: nat
  as_tasks_waiting_receive :: nat

record channel_stats =
  current_buffer_used :: int
  max_buffer_size :: pyfloat
  open_send_streams :: int
  open_receive_streams :: int
  waiters_send :: int
  waiters_receive :: int

definition stats_from_anyio :: "anyio_stats \<Rightarrow> channel_stats" where
  "stats_from_anyio s =
     \<lparr>current_buffer_used = int (as_current_buffer_used s), max_buffer_size = as_max_buffer_size s,
      open_send_streams = int (as_open_send_streams s),
      open_receive_streams = int (as_open_receive_streams s),
      waiters_send = int (as_tasks_waiting_send s), waiters_receive = int (as_tasks_waiting_receive s)\<rparr>"

section \<open>Exclusive use of an endpoint\<close>

type_synonym 's endpoint = "bool \<times> 's"

text \<open>
  \<open>if self._busy: raise ChannelInUse\<close>, \<open>self._busy = True\<close>, the inner call with its exceptions
  translated, and the \<open>finally\<close>.
\<close>

definition ep_enter :: "bool \<Rightarrow> exn + bool" where
  "ep_enter busy = (if busy then Inl ChannelInUse else Inr True)"

definition ep_exit :: "bool \<Rightarrow> bool" where
  "ep_exit busy = False"

definition exclusive :: "(exn \<Rightarrow> exn) \<Rightarrow> ('s endpoint, 'a) py \<Rightarrow> ('s endpoint, 'a) py" where
  "exclusive tr inner s = (case ep_enter (fst s) of
     Inl e \<Rightarrow> (Inl e, s)
   | Inr b \<Rightarrow> (case inner (b, snd s) of (r, s') \<Rightarrow> (map_sum tr id r, (ep_exit (fst s'), snd s'))))"

section \<open>\<open>_Send\<close>\<close>

fun send_error :: "exn \<Rightarrow> exn" where
  "send_error AnyioBrokenResource = ChannelClosed"
| "send_error AnyioClosedResource = ChannelClosed"
| "send_error e = e"

definition ch_send :: "('a \<Rightarrow> ('s endpoint, unit) py) \<Rightarrow> 'a \<Rightarrow> ('s endpoint, unit) py" where
  "ch_send inner item = exclusive send_error (inner item)"

fun send_nowait_error :: "exn \<Rightarrow> exn" where
  "send_nowait_error AnyioWouldBlock = WouldBlock"
| "send_nowait_error e = send_error e"

text \<open>An operation with its exceptions translated; \<open>send_nowait\<close> looks at no flag.\<close>

definition translated :: "(exn \<Rightarrow> exn) \<Rightarrow> ('s, 'a) py \<Rightarrow> ('s, 'a) py" where
  "translated tr m s = (case m s of (r, s') \<Rightarrow> (map_sum tr id r, s'))"

definition ch_send_nowait :: "('a \<Rightarrow> ('s, unit) py) \<Rightarrow> 'a \<Rightarrow> ('s, unit) py" where
  "ch_send_nowait inner item = translated send_nowait_error (inner item)"

section \<open>\<open>_Recv\<close>\<close>

fun recv_error :: "exn \<Rightarrow> exn" where
  "recv_error AnyioEndOfStream = EndOfStream"
| "recv_error AnyioClosedResource = EndOfStream"
| "recv_error e = e"

definition ch_receive :: "('s endpoint, 'a) py \<Rightarrow> ('s endpoint, 'a) py" where
  "ch_receive inner = exclusive recv_error inner"

fun recv_nowait_error :: "exn \<Rightarrow> exn" where
  "recv_nowait_error AnyioWouldBlock = WouldBlock"
| "recv_nowait_error e = recv_error e"

definition ch_receive_nowait :: "('s, 'a) py \<Rightarrow> ('s, 'a) py" where
  "ch_receive_nowait inner = translated recv_nowait_error inner"

text \<open>
  \<open>async for item in stream: body(item)\<close> over \<open>__aiter__\<close>: \<open>EndOfStream\<close> from \<open>receive\<close> ends the
  loop, every other exception of it or of the body leaves it.  A loop that never ends is \<open>None\<close>.
\<close>

partial_function (option) for_each ::
  "('s, 'a) py \<Rightarrow> ('a \<Rightarrow> ('s, unit) py) \<Rightarrow> 's \<Rightarrow> ((exn + unit) \<times> 's) option" where
  "for_each recv body s = (case recv s of
     (Inl e, s1) \<Rightarrow> Some (if e = EndOfStream then Inr () else Inl e, s1)
   | (Inr item, s1) \<Rightarrow> (case body item s1 of
       (Inl e, s2) \<Rightarrow> Some (Inl e, s2)
     | (Inr _, s2) \<Rightarrow> for_each recv body s2))"

declare for_each.simps [code]

text \<open>
  \<open>open_channel(maxsize)\<close>: both endpoints free, around the one stream AnyIO makes (an argument).
  The receive endpoint's operations act beside the send endpoint's flag.
\<close>

definition open_channel :: "(int \<Rightarrow> exn + 's) \<Rightarrow> int \<Rightarrow> exn + 's endpoint endpoint" where
  "open_channel create maxsize = (case create maxsize of
     Inl e \<Rightarrow> Inl e | Inr stream \<Rightarrow> Inr (False, (False, stream)))"

definition beside :: "('s, 'a) py \<Rightarrow> ('b \<times> 's, 'a) py" where
  "beside m s = (case m (snd s) of (r, s') \<Rightarrow> (r, (fst s, s')))"

section \<open>Facts on the endpoints\<close>

lemma exclusive_busy: "fst s \<Longrightarrow> exclusive tr inner s = (Inl ChannelInUse, s)"
  by (simp add: exclusive_def ep_enter_def)

lemma exclusive_free:
  "\<not> fst s \<Longrightarrow> inner (True, snd s) = (r, s') \<Longrightarrow> exclusive tr inner s = (map_sum tr id r, (False, snd s'))"
  by (simp add: exclusive_def ep_enter_def ep_exit_def)

text \<open>
  The tasks using one endpoint: a task is in flight between its \<open>ep_enter\<close> and its \<open>ep_exit\<close>; a task
  that is refused leaves no trace.
\<close>

type_synonym in_flight = "bool \<times> nat list"

inductive ep_step :: "in_flight \<Rightarrow> in_flight \<Rightarrow> bool" where
  enter: "ep_enter b = Inr b' \<Longrightarrow> ep_step (b, ts) (b', t # ts)"
| refused: "ep_enter b = Inl e \<Longrightarrow> ep_step (b, ts) (b, ts)"
| leave: "t \<in> set ts \<Longrightarrow> ep_step (b, ts) (ep_exit b, remove1 t ts)"

inductive_cases ep_stepE: "ep_step (b, ts) s'"

lemma ep_exclusive:
  assumes "ep_step\<^sup>*\<^sup>* (False, []) s"
  shows "length (snd s) \<le> 1 \<and> (fst s \<longleftrightarrow> snd s \<noteq> [])"
  using assms
proof (induction rule: rtranclp_induct)
  case base
  show ?case by simp
next
  case (step s s')
  from step.hyps(2) step.IH show ?case
    by cases (auto simp: ep_enter_def ep_exit_def length_Suc_conv le_Suc_eq split: if_splits)
qed

text \<open>What a blocking call can raise, from what AnyIO's can.\<close>

lemma exclusive_errors:
  assumes "\<And>s e s'. inner s = (Inl e, s') \<Longrightarrow> e \<in> E" "exclusive tr inner s = (Inl e, s')"
  shows "e = ChannelInUse \<or> e \<in> tr ` E"
proof (cases "fst s")
  case True
  from exclusive_busy [OF this, of tr inner] assms(2) show ?thesis by simp
next
  case False
  obtain r t where run: "inner (True, snd s) = (r, t)" by (cases "inner (True, snd s)")
  have "exclusive tr inner s = (map_sum tr id r, (False, snd t))"
    using False run by (rule exclusive_free)
  with assms(2) have "map_sum tr id r = Inl e" by simp
  then obtain e' where "r = Inl e'" "e = tr e'" by (cases r) auto
  with assms(1) run show ?thesis by blast
qed

lemma exclusive_releases: "\<not> fst s \<Longrightarrow> \<not> fst (snd (exclusive tr inner s))"
  by (cases "inner (True, snd s)") (simp add: exclusive_free)

section \<open>The protocol\<close>

text \<open>
  The promises of \<open>SendStream\<close> and \<open>ReceiveStream\<close> for the calls that do not block: \<open>items\<close> are the
  items accepted and not yet received, \<open>sending\<close> and \<open>receiving\<close> say that neither side has closed,
  \<open>room\<close> that the buffer takes one more.  \<open>ok\<close> is whatever the provider needs to keep.
\<close>

locale spsc =
  fixes put :: "'a \<Rightarrow> ('s, unit) py"
    and get :: "('s, 'a) py"
    and items :: "'s \<Rightarrow> 'a list"
    and room sending receiving ok :: "'s \<Rightarrow> bool"
  assumes put_closed: "ok s \<Longrightarrow> \<not> sending s \<Longrightarrow>
      \<exists>s'. put x s = (Inl ChannelClosed, s') \<and> ok s' \<and> items s' = items s \<and> \<not> sending s' \<and> receiving s' = receiving s"
    and put_full: "ok s \<Longrightarrow> sending s \<Longrightarrow> \<not> room s \<Longrightarrow>
      \<exists>s'. put x s = (Inl WouldBlock, s') \<and> ok s' \<and> items s' = items s \<and> sending s' \<and> \<not> room s' \<and> receiving s' = receiving s"
    and put_ok: "ok s \<Longrightarrow> sending s \<Longrightarrow> room s \<Longrightarrow>
      \<exists>s'. put x s = (Inr (), s') \<and> ok s' \<and> items s' = items s @ [x] \<and> sending s' \<and> receiving s' = receiving s"
    and get_ok: "ok s \<Longrightarrow> receiving s \<Longrightarrow> items s = x # xs \<Longrightarrow>
      \<exists>s'. get s = (Inr x, s') \<and> ok s' \<and> items s' = xs \<and> sending s' = sending s \<and> receiving s'"
    and get_none: "ok s \<Longrightarrow> \<not> receiving s \<or> items s = [] \<Longrightarrow>
      \<exists>e s'. get s = (Inl e, s') \<and> (e = WouldBlock \<or> e = EndOfStream) \<and> ok s' \<and> items s' = items s \<and>
        sending s' = sending s"

text \<open>With a buffer of \<open>cap\<close> items, as the in-process channel has.\<close>

locale bounded_spsc = spsc put get items room sending receiving ok
  for put :: "'a \<Rightarrow> ('s, unit) py" and get :: "('s, 'a) py" and items :: "'s \<Rightarrow> 'a list"
    and room sending receiving ok :: "'s \<Rightarrow> bool" +
  fixes cap :: nat
  assumes room_cap: "ok s \<Longrightarrow> room s \<longleftrightarrow> length (items s) < cap"
    and items_cap: "ok s \<Longrightarrow> length (items s) \<le> cap"

text \<open>A run of calls by the two owners: what was accepted and what was received, in order.\<close>

datatype 'a call = Put 'a | Get

fun run_calls :: "('a \<Rightarrow> ('s, unit) py) \<Rightarrow> ('s, 'a) py \<Rightarrow> 'a call list \<Rightarrow> 's \<Rightarrow> 'a list \<times> 'a list \<times> 's" where
  "run_calls put get [] s = ([], [], s)"
| "run_calls put get (Put x # cs) s = (case put x s of (r, s1) \<Rightarrow>
     case run_calls put get cs s1 of (acc, rcv, s2) \<Rightarrow> (if r = Inr () then x # acc else acc, rcv, s2))"
| "run_calls put get (Get # cs) s = (case get s of (r, s1) \<Rightarrow>
     case run_calls put get cs s1 of (acc, rcv, s2) \<Rightarrow> (acc, case r of Inr x \<Rightarrow> x # rcv | Inl _ \<Rightarrow> rcv, s2))"

context spsc begin

lemma put_cases:
  assumes "ok s"
  obtains (closed) s' where "put x s = (Inl ChannelClosed, s')" "ok s'" "items s' = items s" "\<not> sending s"
  | (full) s' where "put x s = (Inl WouldBlock, s')" "ok s'" "items s' = items s" "sending s" "\<not> room s"
  | (sent) s' where "put x s = (Inr (), s')" "ok s'" "items s' = items s @ [x]" "sending s" "room s"
proof (cases "sending s")
  case False
  from put_closed [OF assms False, of x] False show thesis by (elim exE conjE) (rule closed)
next
  case True
  note s = this
  show thesis
  proof (cases "room s")
    case False
    from put_full [OF assms s False, of x] s False show thesis by (elim exE conjE) (rule full)
  next
    case True
    from put_ok [OF assms s True, of x] s True show thesis by (elim exE conjE) (rule sent)
  qed
qed

lemma get_cases:
  assumes "ok s"
  obtains (none) e s' where "get s = (Inl e, s')" "ok s'" "items s' = items s"
  | (got) x xs s' where "get s = (Inr x, s')" "ok s'" "items s = x # xs" "items s' = xs"
proof (cases "receiving s \<and> items s \<noteq> []")
  case True
  then obtain x xs where "items s = x # xs" by (cases "items s") auto
  with get_ok [OF assms] True got show thesis by blast
next
  case False
  with get_none [OF assms] none show thesis by blast
qed

text \<open>First in, first out: nothing accepted is lost, doubled or overtaken.\<close>

lemma fifo:
  assumes "ok s" "run_calls put get cs s = (acc, rcv, s')"
  shows "ok s' \<and> rcv @ items s' = items s @ acc"
  using assms
proof (induction cs arbitrary: s acc rcv s')
  case (Cons c cs)
  show ?case
  proof (cases c)
    case (Put x)
    obtain r s1 where r: "put x s = (r, s1)" by (cases "put x s")
    obtain acc1 rcv1 s2 where rest: "run_calls put get cs s1 = (acc1, rcv1, s2)"
      by (cases "run_calls put get cs s1") auto
    have out: "acc = (if r = Inr () then x # acc1 else acc1)" "rcv = rcv1" "s' = s2"
      using Cons.prems(2) Put r rest by auto
    from Cons.prems(1) have "ok s1 \<and> items s1 = items s @ (if r = Inr () then [x] else [])"
      by (cases rule: put_cases [where x = x]) (use r in auto)
    with Cons.IH [OF _ rest] out show ?thesis by auto
  next
    case Get
    obtain r s1 where r: "get s = (r, s1)" by (cases "get s")
    obtain acc1 rcv1 s2 where rest: "run_calls put get cs s1 = (acc1, rcv1, s2)"
      by (cases "run_calls put get cs s1") auto
    from Cons.prems(1) show ?thesis
    proof (cases rule: get_cases)
      case (none e t)
      with Cons.prems(2) Get r rest have "acc = acc1" "rcv = rcv1" "s' = s2" "s1 = t" by auto
      with Cons.IH [OF _ rest] none show ?thesis by auto
    next
      case (got x xs t)
      with Cons.prems(2) Get r rest have "acc = acc1" "rcv = x # rcv1" "s' = s2" "s1 = t" by auto
      with Cons.IH [OF _ rest] got show ?thesis by auto
    qed
  qed
qed simp

end

section \<open>The in-process channel keeps the protocol\<close>

text \<open>
  What AnyIO documents of \<open>send_nowait\<close> and \<open>receive_nowait\<close> of a memory object stream with a
  buffer of \<open>cap\<close> items, while no task is blocked on it (\<open>calm\<close>).
\<close>

locale memory_stream =
  fixes put :: "'a \<Rightarrow> ('s, unit) py"
    and get :: "('s, 'a) py"
    and items :: "'s \<Rightarrow> 'a list"
    and s_open r_open calm :: "'s \<Rightarrow> bool"
    and cap :: nat
  assumes raw_put_closed: "calm s \<Longrightarrow> \<not> s_open s \<Longrightarrow> put x s = (Inl AnyioClosedResource, s)"
    and raw_put_broken: "calm s \<Longrightarrow> s_open s \<Longrightarrow> \<not> r_open s \<Longrightarrow> put x s = (Inl AnyioBrokenResource, s)"
    and raw_put_full: "calm s \<Longrightarrow> s_open s \<Longrightarrow> r_open s \<Longrightarrow> \<not> length (items s) < cap \<Longrightarrow>
      put x s = (Inl AnyioWouldBlock, s)"
    and raw_put_ok: "calm s \<Longrightarrow> s_open s \<Longrightarrow> r_open s \<Longrightarrow> length (items s) < cap \<Longrightarrow>
      \<exists>s'. put x s = (Inr (), s') \<and> calm s' \<and> items s' = items s @ [x] \<and> s_open s' \<and> r_open s'"
    and raw_get_closed: "calm s \<Longrightarrow> \<not> r_open s \<Longrightarrow> get s = (Inl AnyioClosedResource, s)"
    and raw_get_end: "calm s \<Longrightarrow> r_open s \<Longrightarrow> items s = [] \<Longrightarrow> \<not> s_open s \<Longrightarrow> get s = (Inl AnyioEndOfStream, s)"
    and raw_get_empty: "calm s \<Longrightarrow> r_open s \<Longrightarrow> items s = [] \<Longrightarrow> s_open s \<Longrightarrow> get s = (Inl AnyioWouldBlock, s)"
    and raw_get_ok: "calm s \<Longrightarrow> r_open s \<Longrightarrow> items s = x # xs \<Longrightarrow>
      \<exists>s'. get s = (Inr x, s') \<and> calm s' \<and> items s' = xs \<and> s_open s' = s_open s \<and> r_open s'"
    and raw_items_cap: "calm s \<Longrightarrow> length (items s) \<le> cap"

sublocale memory_stream \<subseteq> bounded_spsc "ch_send_nowait put" "ch_receive_nowait get" items
    "\<lambda>s. length (items s) < cap" "\<lambda>s. s_open s \<and> r_open s" r_open calm cap
proof unfold_locales
  fix s x xs
  assume c: "calm s"
  show "length (items s) \<le> cap" using raw_items_cap [OF c] .
  show "\<exists>s'. ch_send_nowait put x s = (Inl ChannelClosed, s') \<and> calm s' \<and> items s' = items s \<and>
      \<not> (s_open s' \<and> r_open s') \<and> r_open s' = r_open s" if "\<not> (s_open s \<and> r_open s)"
    using that c raw_put_closed [OF c, of x] raw_put_broken [OF c, of x]
    by (cases "s_open s") (auto simp: ch_send_nowait_def translated_def)
  show "\<exists>s'. ch_send_nowait put x s = (Inl WouldBlock, s') \<and> calm s' \<and> items s' = items s \<and>
      (s_open s' \<and> r_open s') \<and> \<not> length (items s') < cap \<and> r_open s' = r_open s"
    if "s_open s \<and> r_open s" "\<not> length (items s) < cap"
    using that c raw_put_full [OF c, of x] by (auto simp: ch_send_nowait_def translated_def)
  show "\<exists>s'. ch_send_nowait put x s = (Inr (), s') \<and> calm s' \<and> items s' = items s @ [x] \<and>
      (s_open s' \<and> r_open s') \<and> r_open s' = r_open s"
    if "s_open s \<and> r_open s" "length (items s) < cap"
    using that raw_put_ok [OF c, of x] by (auto simp: ch_send_nowait_def translated_def)
  show "\<exists>s'. ch_receive_nowait get s = (Inr x, s') \<and> calm s' \<and> items s' = xs \<and>
      (s_open s' \<and> r_open s') = (s_open s \<and> r_open s) \<and> r_open s'"
    if "r_open s" "items s = x # xs"
    using that raw_get_ok [OF c, of x xs] by (auto simp: ch_receive_nowait_def translated_def)
  show "\<exists>e s'. ch_receive_nowait get s = (Inl e, s') \<and> (e = WouldBlock \<or> e = EndOfStream) \<and> calm s' \<and>
      items s' = items s \<and> (s_open s' \<and> r_open s') = (s_open s \<and> r_open s)"
    if "\<not> r_open s \<or> items s = []"
    using that c raw_get_closed [OF c] raw_get_end [OF c] raw_get_empty [OF c]
    by (cases "r_open s"; cases "s_open s") (auto simp: ch_receive_nowait_def translated_def)
qed simp_all

context memory_stream begin

lemma endpoints_bounded: "bounded_spsc (ch_send_nowait put) (ch_receive_nowait get) items
    (\<lambda>s. length (items s) < cap) (\<lambda>s. s_open s \<and> r_open s) r_open calm cap"
  by (rule bounded_spsc_axioms)

lemma endpoints_spsc: "spsc (ch_send_nowait put) (ch_receive_nowait get) items
    (\<lambda>s. length (items s) < cap) (\<lambda>s. s_open s \<and> r_open s) r_open calm"
  by (rule spsc_axioms)

end

text \<open>A stream that satisfies what is documented: a list of at most \<open>cap\<close> items and two flags.\<close>

record 'a mem =
  mem_items :: "'a list"
  mem_s_open :: bool
  mem_r_open :: bool

definition mem_new :: "'a mem" where
  "mem_new = \<lparr>mem_items = [], mem_s_open = True, mem_r_open = True\<rparr>"

definition mem_put :: "nat \<Rightarrow> 'a \<Rightarrow> ('a mem, unit) py" where
  "mem_put cap x m =
     (if \<not> mem_s_open m then (Inl AnyioClosedResource, m)
      else if \<not> mem_r_open m then (Inl AnyioBrokenResource, m)
      else if length (mem_items m) < cap then (Inr (), m\<lparr>mem_items := mem_items m @ [x]\<rparr>)
      else (Inl AnyioWouldBlock, m))"

definition mem_get :: "('a mem, 'a) py" where
  "mem_get m =
     (if \<not> mem_r_open m then (Inl AnyioClosedResource, m)
      else case mem_items m of
        x # xs \<Rightarrow> (Inr x, m\<lparr>mem_items := xs\<rparr>)
      | [] \<Rightarrow> (Inl (if mem_s_open m then AnyioWouldBlock else AnyioEndOfStream), m))"

definition mem_calm :: "nat \<Rightarrow> 'a mem \<Rightarrow> bool" where
  "mem_calm cap m \<longleftrightarrow> length (mem_items m) \<le> cap"

interpretation mem: memory_stream "mem_put cap" mem_get mem_items mem_s_open mem_r_open "mem_calm cap" cap
  for cap
  by unfold_locales (auto simp: mem_put_def mem_get_def mem_calm_def)

end
