(* ===== verification/ChannelTasks.thy ===== *)
theory ChannelTasks imports Channel begin

text \<open>
  The in-process channel between tasks that block: what any interleaving of the calls of
  \<open>channel.py\<close> does, when a task may wait inside \<open>send\<close> or \<open>receive\<close>, be cancelled there, or find
  the other side closed.

  AnyIO documents a blocking call of its streams as the non-blocking one, made as soon as it does not
  raise WouldBlock; on a stream without a buffer the item goes from the waiting sender to the
  waiting receiver.  A blocking call of an endpoint is therefore a \<open>begin\<close> (the busy flag), attempts,
  and an end (the \<open>finally\<close>), and the other tasks run between them.
\<close>

section \<open>The calls in parts\<close>

record ('a, 's) stream_ops =
  so_put :: "'a \<Rightarrow> ('s, unit) py"
  so_get :: "('s, 'a) py"
  so_close_send :: "'s \<Rightarrow> 's"
  so_close_recv :: "'s \<Rightarrow> 's"

text \<open>
  Both endpoints of one channel.  \<open>cn_sending\<close> and \<open>cn_receiving\<close> are the tasks between \<open>begin\<close> and
  end (the items of the senders); the last three fields record what was accepted, what was received,
  and whether a blocked receiver was told by AnyIO that the stream has ended (its EndOfStream; the one of
  a receive side that was closed, and those of \<open>receive_nowait\<close>, are not recorded).
\<close>

record ('a, 's) chan =
  cn_s_busy :: bool
  cn_sending :: "'a list"
  cn_r_busy :: bool
  cn_receiving :: nat
  cn_stream :: 's
  cn_accepted :: "'a list"
  cn_received :: "'a list"
  cn_ended :: bool

definition chan_new :: "'s \<Rightarrow> ('a, 's) chan" where
  "chan_new s = \<lparr>cn_s_busy = False, cn_sending = [], cn_r_busy = False, cn_receiving = 0, cn_stream = s,
     cn_accepted = [], cn_received = [], cn_ended = False\<rparr>"

definition send_begin :: "'a \<Rightarrow> ('a, 's) chan \<Rightarrow> exn + ('a, 's) chan" where
  "send_begin x c = (case ep_enter (cn_s_busy c) of
     Inl e \<Rightarrow> Inl e | Inr b \<Rightarrow> Inr (c\<lparr>cn_s_busy := b, cn_sending := cn_sending c @ [x]\<rparr>))"

text \<open>The end of a \<open>send\<close>, however it came: the \<open>finally\<close>.\<close>

definition send_end :: "'a \<Rightarrow> ('a, 's) chan \<Rightarrow> ('a, 's) chan" where
  "send_end x c = c\<lparr>cn_s_busy := ep_exit (cn_s_busy c), cn_sending := remove1 x (cn_sending c)\<rparr>"

text \<open>An attempt; \<open>None\<close>: the task goes on waiting.\<close>

definition send_try :: "('a, 's) stream_ops \<Rightarrow> 'a \<Rightarrow> ('a, 's) chan \<Rightarrow> (exn + unit) option \<times> ('a, 's) chan" where
  "send_try ops x c = (case so_put ops x (cn_stream c) of
     (Inr _, s) \<Rightarrow> (Some (Inr ()), send_end x (c\<lparr>cn_stream := s, cn_accepted := cn_accepted c @ [x]\<rparr>))
   | (Inl e, s) \<Rightarrow>
       if e = AnyioWouldBlock then (None, c\<lparr>cn_stream := s\<rparr>)
       else (Some (Inl (send_error e)), send_end x (c\<lparr>cn_stream := s\<rparr>)))"

definition recv_begin :: "('a, 's) chan \<Rightarrow> exn + ('a, 's) chan" where
  "recv_begin c = (case ep_enter (cn_r_busy c) of
     Inl e \<Rightarrow> Inl e | Inr b \<Rightarrow> Inr (c\<lparr>cn_r_busy := b, cn_receiving := Suc (cn_receiving c)\<rparr>))"

definition recv_end :: "('a, 's) chan \<Rightarrow> ('a, 's) chan" where
  "recv_end c = c\<lparr>cn_r_busy := ep_exit (cn_r_busy c), cn_receiving := cn_receiving c - 1\<rparr>"

definition recv_try :: "('a, 's) stream_ops \<Rightarrow> ('a, 's) chan \<Rightarrow> (exn + 'a) option \<times> ('a, 's) chan" where
  "recv_try ops c = (case so_get ops (cn_stream c) of
     (Inr x, s) \<Rightarrow> (Some (Inr x), recv_end (c\<lparr>cn_stream := s, cn_received := cn_received c @ [x]\<rparr>))
   | (Inl e, s) \<Rightarrow>
       if e = AnyioWouldBlock then (None, c\<lparr>cn_stream := s\<rparr>)
       else (Some (Inl (recv_error e)),
             recv_end (c\<lparr>cn_stream := s, cn_ended := cn_ended c \<or> e = AnyioEndOfStream\<rparr>)))"

text \<open>The calls that do not block.\<close>

definition send_now :: "('a, 's) stream_ops \<Rightarrow> 'a \<Rightarrow> ('a, 's) chan \<Rightarrow> (exn + unit) \<times> ('a, 's) chan" where
  "send_now ops x c = (case ch_send_nowait (so_put ops) x (cn_stream c) of (r, s) \<Rightarrow>
     (r, c\<lparr>cn_stream := s, cn_accepted := (if r = Inr () then cn_accepted c @ [x] else cn_accepted c)\<rparr>))"

definition receive_now :: "('a, 's) stream_ops \<Rightarrow> ('a, 's) chan \<Rightarrow> (exn + 'a) \<times> ('a, 's) chan" where
  "receive_now ops c = (case ch_receive_nowait (so_get ops) (cn_stream c) of (r, s) \<Rightarrow>
     (r, c\<lparr>cn_stream := s, cn_received := (case r of Inr x \<Rightarrow> cn_received c @ [x] | Inl _ \<Rightarrow> cn_received c)\<rparr>))"

lemma send_end_frame [simp]:
  "cn_sending (send_end x c) = remove1 x (cn_sending c)" "cn_receiving (send_end x c) = cn_receiving c"
  "cn_accepted (send_end x c) = cn_accepted c" "cn_received (send_end x c) = cn_received c"
  "cn_ended (send_end x c) = cn_ended c" "cn_stream (send_end x c) = cn_stream c"
  by (simp_all add: send_end_def)

lemma recv_end_frame [simp]:
  "cn_receiving (recv_end c) = cn_receiving c - 1" "cn_sending (recv_end c) = cn_sending c"
  "cn_accepted (recv_end c) = cn_accepted c" "cn_received (recv_end c) = cn_received c"
  "cn_ended (recv_end c) = cn_ended c" "cn_stream (recv_end c) = cn_stream c"
  by (simp_all add: recv_end_def)

text \<open>
  A call whose first attempt decides is the endpoint's \<open>send\<close> (or \<open>receive\<close>) of \<open>Channel\<close>.
\<close>

lemma send_in_parts:
  assumes "send_begin x c = Inr c1" "send_try ops x c1 = (Some r, c2)" "so_put ops x (cn_stream c) = (r0, s)"
  shows "ch_send (\<lambda>x. beside (so_put ops x)) x (cn_s_busy c, cn_stream c) = (r, (cn_s_busy c2, cn_stream c2))"
  using assms
  by (auto simp: send_begin_def ep_enter_def send_try_def send_end_def ch_send_def exclusive_def beside_def ep_exit_def
      split: if_splits sum.splits)

lemma receive_in_parts:
  assumes "recv_begin c = Inr c1" "recv_try ops c1 = (Some r, c2)" "so_get ops (cn_stream c) = (r0, s)"
  shows "ch_receive (beside (so_get ops)) (cn_r_busy c, cn_stream c) = (r, (cn_r_busy c2, cn_stream c2))"
  using assms
  by (auto simp: recv_begin_def ep_enter_def recv_try_def recv_end_def ch_receive_def exclusive_def beside_def ep_exit_def
      split: if_splits sum.splits)

section \<open>The steps\<close>

text \<open>
  \<open>empty s\<close> and \<open>both_open s\<close> are the states in which AnyIO hands an item over from one waiting
  task to the other; a call that is refused or goes on waiting changes nothing that matters here.
\<close>

inductive chan_step ::
  "('a, 's) stream_ops \<Rightarrow> ('s \<Rightarrow> bool) \<Rightarrow> ('s \<Rightarrow> bool) \<Rightarrow> ('a, 's) chan \<Rightarrow> ('a, 's) chan \<Rightarrow> bool"
  for ops empty both_open where
  send_begins: "send_begin x c = Inr c' \<Longrightarrow> chan_step ops empty both_open c c'"
| send_tries: "x \<in> set (cn_sending c) \<Longrightarrow> send_try ops x c = (r, c') \<Longrightarrow> chan_step ops empty both_open c c'"
| send_cancelled: "x \<in> set (cn_sending c) \<Longrightarrow> chan_step ops empty both_open c (send_end x c)"
| recv_begins: "recv_begin c = Inr c' \<Longrightarrow> chan_step ops empty both_open c c'"
| recv_tries: "0 < cn_receiving c \<Longrightarrow> recv_try ops c = (r, c') \<Longrightarrow> chan_step ops empty both_open c c'"
| recv_cancelled: "0 < cn_receiving c \<Longrightarrow> chan_step ops empty both_open c (recv_end c)"
| hand_over: "x \<in> set (cn_sending c) \<Longrightarrow> 0 < cn_receiving c \<Longrightarrow> empty (cn_stream c) \<Longrightarrow> both_open (cn_stream c) \<Longrightarrow>
    chan_step ops empty both_open c
      (recv_end (send_end x (c\<lparr>cn_accepted := cn_accepted c @ [x], cn_received := cn_received c @ [x]\<rparr>)))"
| nowait_send: "send_now ops x c = (r, c') \<Longrightarrow> chan_step ops empty both_open c c'"
| nowait_handed: "0 < cn_receiving c \<Longrightarrow> empty (cn_stream c) \<Longrightarrow> both_open (cn_stream c) \<Longrightarrow>
    chan_step ops empty both_open c
      (recv_end (c\<lparr>cn_accepted := cn_accepted c @ [x], cn_received := cn_received c @ [x]\<rparr>))"
| nowait_receive: "receive_now ops c = (r, c') \<Longrightarrow> chan_step ops empty both_open c c'"
| nowait_taken: "x \<in> set (cn_sending c) \<Longrightarrow> empty (cn_stream c) \<Longrightarrow> both_open (cn_stream c) \<Longrightarrow>
    chan_step ops empty both_open c
      (send_end x (c\<lparr>cn_accepted := cn_accepted c @ [x], cn_received := cn_received c @ [x]\<rparr>))"
| close_send: "chan_step ops empty both_open c (c\<lparr>cn_stream := so_close_send ops (cn_stream c)\<rparr>)"
| close_recv: "chan_step ops empty both_open c (c\<lparr>cn_stream := so_close_recv ops (cn_stream c)\<rparr>)"

section \<open>What every run keeps\<close>

text \<open>AnyIO's stream with its two \<open>aclose\<close>, which never discard what is buffered.\<close>

locale closable_stream = memory_stream put get items s_open r_open calm cap
  for put :: "'a \<Rightarrow> ('s, unit) py" and get :: "('s, 'a) py" and items :: "'s \<Rightarrow> 'a list"
    and s_open r_open calm :: "'s \<Rightarrow> bool" and cap :: nat +
  fixes close_send close_recv :: "'s \<Rightarrow> 's"
  assumes raw_close_send: "calm s \<Longrightarrow> calm (close_send s) \<and> items (close_send s) = items s \<and>
      \<not> s_open (close_send s) \<and> r_open (close_send s) = r_open s"
    and raw_close_recv: "calm s \<Longrightarrow> calm (close_recv s) \<and> items (close_recv s) = items s \<and>
      s_open (close_recv s) = s_open s \<and> \<not> r_open (close_recv s)"
begin

definition chan_ok :: "('a, 's) chan \<Rightarrow> bool" where
  "chan_ok c \<longleftrightarrow> calm (cn_stream c) \<and> cn_received c @ items (cn_stream c) = cn_accepted c \<and>
     length (cn_sending c) \<le> 1 \<and> (cn_s_busy c \<longleftrightarrow> cn_sending c \<noteq> []) \<and>
     cn_receiving c \<le> 1 \<and> (cn_r_busy c \<longleftrightarrow> cn_receiving c \<noteq> 0) \<and>
     (cn_ended c \<longrightarrow> \<not> s_open (cn_stream c) \<and> items (cn_stream c) = [])"

lemma chan_ok_new: "calm s \<Longrightarrow> items s = [] \<Longrightarrow> chan_ok (chan_new s)"
  by (simp add: chan_ok_def chan_new_def)

text \<open>The raw calls, case by case.\<close>

lemma raw_put_cases:
  assumes "calm s"
  obtains (ok) s' where "put x s = (Inr (), s')" "calm s'" "items s' = items s @ [x]" "s_open s" "r_open s" "s_open s'"
      "r_open s'" "length (items s) < cap"
  | (full) "put x s = (Inl AnyioWouldBlock, s)" "s_open s" "r_open s" "\<not> length (items s) < cap"
  | (refused) e where "put x s = (Inl e, s)" "e = AnyioClosedResource \<or> e = AnyioBrokenResource" "\<not> (s_open s \<and> r_open s)"
  using raw_put_ok [OF assms, of x] raw_put_full [OF assms, of x] raw_put_broken [OF assms, of x]
    raw_put_closed [OF assms, of x] by blast

lemma raw_get_cases:
  assumes "calm s"
  obtains (ok) x xs s' where "get s = (Inr x, s')" "calm s'" "items s = x # xs" "items s' = xs" "s_open s' = s_open s" "r_open s'"
  | (none) "get s = (Inl AnyioWouldBlock, s)" "items s = []" "s_open s" "r_open s"
  | (ended) "get s = (Inl AnyioEndOfStream, s)" "items s = []" "\<not> s_open s" "r_open s"
  | (closed) "get s = (Inl AnyioClosedResource, s)" "\<not> r_open s"
proof (cases "r_open s")
  case True
  then show thesis
    using raw_get_ok [OF assms True] raw_get_end [OF assms True] raw_get_empty [OF assms True] ok none ended
    by (cases "items s") blast+
next
  case False
  from raw_get_closed [OF assms False] False show thesis by (rule closed)
qed

lemma send_end_sim [simp]: "send_end x (c\<lparr>cn_stream := s, cn_accepted := as\<rparr>) =
    c\<lparr>cn_stream := s, cn_accepted := as, cn_s_busy := False, cn_sending := remove1 x (cn_sending c)\<rparr>"
  by (simp add: send_end_def ep_exit_def)

lemma ok_send_end:
  assumes "chan_ok c" "x \<in> set (cn_sending c)"
  shows "chan_ok (send_end x c)" "cn_sending (send_end x c) = []"
proof -
  from assms have "cn_sending c = [x]" by (cases "cn_sending c") (auto simp: chan_ok_def)
  with assms show "chan_ok (send_end x c)" "cn_sending (send_end x c) = []"
    by (auto simp: chan_ok_def send_end_def ep_exit_def)
qed

lemma ok_recv_end: "chan_ok c \<Longrightarrow> 0 < cn_receiving c \<Longrightarrow> chan_ok (recv_end c)"
  by (auto simp: chan_ok_def recv_end_def ep_exit_def)

text \<open>Moving the stream and the records together.\<close>

lemma ok_put: "chan_ok c \<Longrightarrow> calm s \<Longrightarrow> items s = items (cn_stream c) @ [x] \<Longrightarrow> \<not> cn_ended c \<Longrightarrow>
    chan_ok (c\<lparr>cn_stream := s, cn_accepted := cn_accepted c @ [x]\<rparr>)"
  by (auto simp: chan_ok_def)

lemma ok_get: "chan_ok c \<Longrightarrow> calm s \<Longrightarrow> items (cn_stream c) = x # items s \<Longrightarrow>
    chan_ok (c\<lparr>cn_stream := s, cn_received := cn_received c @ [x]\<rparr>)"
  by (auto simp: chan_ok_def)

lemma ok_handed: "chan_ok c \<Longrightarrow> items (cn_stream c) = [] \<Longrightarrow>
    chan_ok (c\<lparr>cn_accepted := cn_accepted c @ [x], cn_received := cn_received c @ [x]\<rparr>)"
  by (auto simp: chan_ok_def)

lemma ok_not_ended: "chan_ok c \<Longrightarrow> s_open (cn_stream c) \<Longrightarrow> \<not> cn_ended c"
  by (simp add: chan_ok_def)

abbreviation ops :: "('a, 's) stream_ops" where
  "ops \<equiv> \<lparr>so_put = put, so_get = get, so_close_send = close_send, so_close_recv = close_recv\<rparr>"

lemma ok_send_try:
  assumes ok: "chan_ok c" and x: "x \<in> set (cn_sending c)" and run: "send_try ops x c = (r, c')"
  shows "chan_ok c'"
proof -
  have calm: "calm (cn_stream c)" using ok by (simp add: chan_ok_def)
  from calm show ?thesis
  proof (cases rule: raw_put_cases [where x = x])
    case (ok s')
    from ok_put [OF assms(1) ok(2,3) ok_not_ended [OF assms(1) ok(4)]]
    have "chan_ok (send_end x (c\<lparr>cn_stream := s', cn_accepted := cn_accepted c @ [x]\<rparr>))"
      by (rule ok_send_end) (use x in simp)
    with run ok show ?thesis by (simp add: send_try_def)
  next
    case full
    with run assms(1) show ?thesis by (simp add: send_try_def)
  next
    case (refused e)
    with run ok_send_end [OF assms(1) x] show ?thesis by (auto simp: send_try_def)
  qed
qed

lemma ok_recv_try:
  assumes ok: "chan_ok c" and n: "0 < cn_receiving c" and run: "recv_try ops c = (r, c')"
  shows "chan_ok c'"
proof -
  have calm: "calm (cn_stream c)" using ok by (simp add: chan_ok_def)
  from calm show ?thesis
  proof (cases rule: raw_get_cases)
    case (ok x xs s')
    from ok_get [OF assms(1) ok(2)] ok(3,4) have "chan_ok (c\<lparr>cn_stream := s', cn_received := cn_received c @ [x]\<rparr>)" by simp
    from ok_recv_end [OF this] n run ok show ?thesis by (simp add: recv_try_def)
  next
    case none
    with run assms(1) show ?thesis by (simp add: recv_try_def)
  next
    case ended
    then have "chan_ok (c\<lparr>cn_ended := True\<rparr>)" using assms(1) by (simp add: chan_ok_def)
    from ok_recv_end [OF this] n run ended show ?thesis by (simp add: recv_try_def)
  next
    case closed
    with run ok_recv_end [OF assms(1) n] show ?thesis by (simp add: recv_try_def)
  qed
qed

lemma ok_send_now:
  assumes ok: "chan_ok c" and run: "send_now ops x c = (r, c')"
  shows "chan_ok c'"
proof -
  have calm: "calm (cn_stream c)" using ok by (simp add: chan_ok_def)
  from calm show ?thesis
  proof (cases rule: raw_put_cases [where x = x])
    case (ok s')
    from ok_put [OF assms(1) ok(2,3) ok_not_ended [OF assms(1) ok(4)]] run ok show ?thesis
      by (auto simp: send_now_def ch_send_nowait_def translated_def)
  qed (use run assms(1) in \<open>auto simp: send_now_def ch_send_nowait_def translated_def\<close>)
qed

lemma ok_receive_now:
  assumes ok: "chan_ok c" and run: "receive_now ops c = (r, c')"
  shows "chan_ok c'"
proof -
  have calm: "calm (cn_stream c)" using ok by (simp add: chan_ok_def)
  from calm show ?thesis
  proof (cases rule: raw_get_cases)
    case (ok x xs s')
    from ok_get [OF assms(1) ok(2), of x] run ok show ?thesis
      by (auto simp: receive_now_def ch_receive_nowait_def translated_def)
  qed (use run assms(1) in \<open>auto simp: receive_now_def ch_receive_nowait_def translated_def\<close>)
qed

abbreviation chan_steps :: "('a, 's) chan \<Rightarrow> ('a, 's) chan \<Rightarrow> bool" where
  "chan_steps \<equiv> chan_step ops (\<lambda>s. items s = []) (\<lambda>s. s_open s \<and> r_open s)"

lemma chan_ok_step: "chan_steps c c' \<Longrightarrow> chan_ok c \<Longrightarrow> chan_ok c'"
proof (induction rule: chan_step.induct)
  case (send_begins x c c')
  then show ?case by (auto simp: send_begin_def ep_enter_def chan_ok_def split: if_splits)
next
  case (recv_begins c c')
  then show ?case by (auto simp: recv_begin_def ep_enter_def chan_ok_def split: if_splits)
next
  case (hand_over x c)
  from ok_send_end(1) [OF ok_handed [OF hand_over.prems hand_over.hyps(3), of x], of x] hand_over.hyps
  show ?case by (intro ok_recv_end) (simp_all add: send_end_def)
next
  case (nowait_handed c x)
  from ok_recv_end [OF ok_handed [OF nowait_handed.prems nowait_handed.hyps(2), of x]] nowait_handed.hyps
  show ?case by simp
next
  case (nowait_taken x c)
  from ok_send_end(1) [OF ok_handed [OF nowait_taken.prems nowait_taken.hyps(2), of x], of x] nowait_taken.hyps
  show ?case by simp
next
  case (close_send c)
  with raw_close_send [of "cn_stream c"] show ?case by (auto simp: chan_ok_def)
next
  case (close_recv c)
  with raw_close_recv [of "cn_stream c"] show ?case by (auto simp: chan_ok_def)
qed (auto intro: ok_send_end ok_recv_end ok_send_try ok_recv_try ok_send_now ok_receive_now)

lemma chan_ok_reachable:
  assumes "chan_steps\<^sup>*\<^sup>* (chan_new s) c" "calm s" "items s = []"
  shows "chan_ok c"
  using assms(1) by (induction rule: rtranclp_induct) (auto intro: chan_ok_step chan_ok_new assms(2,3))

text \<open>What a call changes besides the stream.\<close>

lemma send_begin_frame:
  assumes "chan_ok c" "cn_sending c = []"
  shows "\<exists>c'. send_begin x c = Inr c' \<and> chan_ok c' \<and> cn_sending c' = [x] \<and> cn_receiving c' = cn_receiving c \<and>
    cn_accepted c' = cn_accepted c \<and> cn_received c' = cn_received c \<and> cn_ended c' = cn_ended c \<and> cn_stream c' = cn_stream c"
  using assms by (auto simp: send_begin_def ep_enter_def chan_ok_def)

lemma recv_begin_frame:
  assumes "chan_ok c" "cn_receiving c = 0"
  shows "\<exists>c'. recv_begin c = Inr c' \<and> chan_ok c' \<and> cn_sending c' = cn_sending c \<and> cn_receiving c' = 1 \<and>
    cn_accepted c' = cn_accepted c \<and> cn_received c' = cn_received c \<and> cn_ended c' = cn_ended c \<and> cn_stream c' = cn_stream c"
  using assms by (auto simp: recv_begin_def ep_enter_def chan_ok_def)

lemma send_try_frame:
  assumes ok: "chan_ok c" and x: "cn_sending c = [x]" and run: "send_try ops x c = (r, c')"
  shows "chan_ok c' \<and> cn_receiving c' = cn_receiving c \<and> cn_received c' = cn_received c \<and> cn_ended c' = cn_ended c \<and>
    cn_sending c' = (if r = None then [x] else []) \<and>
    cn_accepted c' = (if r = Some (Inr ()) then cn_accepted c @ [x] else cn_accepted c)"
proof -
  have "chan_ok c'" by (rule ok_send_try [OF ok _ run]) (simp add: x)
  with run x show ?thesis by (auto simp: send_try_def send_end_def split: prod.splits sum.splits if_splits)
qed

lemma recv_try_frame:
  assumes ok: "chan_ok c" and n: "cn_receiving c = 1" and run: "recv_try ops c = (r, c')"
  shows "chan_ok c' \<and> cn_sending c' = cn_sending c \<and> cn_accepted c' = cn_accepted c \<and>
    cn_receiving c' = (if r = None then 1 else 0) \<and>
    cn_received c' = (case r of Some (Inr x) \<Rightarrow> cn_received c @ [x] | _ \<Rightarrow> cn_received c) \<and>
    (cn_ended c' \<longrightarrow> cn_ended c \<or> (\<exists>e. r = Some (Inl e)))"
proof -
  have "chan_ok c'" by (rule ok_recv_try [OF ok _ run]) (simp add: n)
  with run n show ?thesis
    by (auto simp: recv_try_def recv_end_def split: prod.splits sum.splits if_splits)
qed

lemma ok_close_send: "chan_ok c \<Longrightarrow> chan_ok (c\<lparr>cn_stream := close_send (cn_stream c)\<rparr>)"
  using raw_close_send [of "cn_stream c"] by (auto simp: chan_ok_def)

text \<open>What the next attempt of a waiting task gives.\<close>

lemma send_try_room:
  "chan_ok c \<Longrightarrow> s_open (cn_stream c) \<Longrightarrow> r_open (cn_stream c) \<Longrightarrow> length (items (cn_stream c)) < cap \<Longrightarrow>
    fst (send_try ops x c) = Some (Inr ())"
  using raw_put_ok [of "cn_stream c" x] by (auto simp: send_try_def chan_ok_def)

lemma send_try_closed:
  "chan_ok c \<Longrightarrow> \<not> (s_open (cn_stream c) \<and> r_open (cn_stream c)) \<Longrightarrow> fst (send_try ops x c) = Some (Inl ChannelClosed)"
  using raw_put_closed [of "cn_stream c" x] raw_put_broken [of "cn_stream c" x]
  by (cases "s_open (cn_stream c)") (auto simp: send_try_def chan_ok_def)

lemma recv_try_item:
  "chan_ok c \<Longrightarrow> r_open (cn_stream c) \<Longrightarrow> items (cn_stream c) = x # xs \<Longrightarrow> fst (recv_try ops c) = Some (Inr x)"
  using raw_get_ok [of "cn_stream c" x xs] by (auto simp: recv_try_def chan_ok_def)

lemma recv_try_closed:
  "chan_ok c \<Longrightarrow> \<not> r_open (cn_stream c) \<or> (items (cn_stream c) = [] \<and> \<not> s_open (cn_stream c)) \<Longrightarrow>
    fst (recv_try ops c) = Some (Inl EndOfStream)"
  using raw_get_closed [of "cn_stream c"] raw_get_end [of "cn_stream c"]
  by (cases "r_open (cn_stream c)") (auto simp: recv_try_def chan_ok_def)

end

text \<open>The reference stream with its closes.\<close>

definition mem_close_send :: "'a mem \<Rightarrow> 'a mem" where
  "mem_close_send m = m\<lparr>mem_s_open := False\<rparr>"

definition mem_close_recv :: "'a mem \<Rightarrow> 'a mem" where
  "mem_close_recv m = m\<lparr>mem_r_open := False\<rparr>"

interpretation mem_tasks: closable_stream "mem_put cap" mem_get mem_items mem_s_open mem_r_open "mem_calm cap" cap
    mem_close_send mem_close_recv
  for cap
  by unfold_locales (auto simp: mem_close_send_def mem_close_recv_def mem_calm_def)

end
