(* ===== verification/Lossy.thy ===== *)
theory Lossy imports Channel begin

text \<open>
  The recipes around one channel: the lossy senders of \<open>recipes/state/lossy.py\<close>, the one-slot cache
  of \<open>latest.py\<close>, and \<open>send_when_ready\<close> and \<open>SendGate\<close> of \<open>recipes/_flow.py\<close>.

  A wrapper's state is its counter beside the channel's.  The channel's calls are arguments; what
  the wrappers do to any channel that keeps the protocol is proved in \<open>bounded_spsc\<close>.
\<close>

section \<open>\<open>DropNewestSend\<close>\<close>

type_synonym 's lossy = "nat \<times> 's"

definition lossy_new :: "'s \<Rightarrow> 's lossy" where
  "lossy_new s = (0, s)"

definition lossy_dropped :: "'s lossy \<Rightarrow> nat" where
  "lossy_dropped s = fst s"

text \<open>Closing and the statistics are the wrapped stream's.\<close>

definition lossy_aclose :: "('s, unit) py \<Rightarrow> ('s lossy, unit) py" where
  "lossy_aclose aclose = beside aclose"

definition lossy_statistics :: "('s \<Rightarrow> channel_stats) \<Rightarrow> 's lossy \<Rightarrow> channel_stats" where
  "lossy_statistics stats s = stats (snd s)"

definition drop_newest_send :: "('a \<Rightarrow> ('s, unit) py) \<Rightarrow> 'a \<Rightarrow> ('s lossy, unit) py" where
  "drop_newest_send put item s = (case put item (snd s) of
     (Inl e, s1) \<Rightarrow> if e = WouldBlock then (Inr (), (Suc (fst s), s1)) else (Inl e, (fst s, s1))
   | (Inr _, s1) \<Rightarrow> (Inr (), (fst s, s1)))"

section \<open>\<open>DropOldestSend\<close> and \<open>CoalesceSend\<close>\<close>

text \<open>The second half of \<open>_send_with_drop\<close>: one item is taken out, then the send is tried again.\<close>

definition drop_one :: "('s, 'a) py \<Rightarrow> ('s lossy, unit) py" where
  "drop_one get s = (case get (snd s) of
     (Inr _, s1) \<Rightarrow> (Inr (), (Suc (fst s), s1))
   | (Inl e, s1) \<Rightarrow> if e = WouldBlock \<or> e = EndOfStream then (Inr (), (fst s, s1)) else (Inl e, (fst s, s1)))"

definition drop_oldest_send :: "('a \<Rightarrow> ('s, unit) py) \<Rightarrow> ('s, 'a) py \<Rightarrow> 'a \<Rightarrow> ('s lossy, unit) py" where
  "drop_oldest_send put get item s = (case put item (snd s) of
     (Inr _, s1) \<Rightarrow> (Inr (), (fst s, s1))
   | (Inl e, s1) \<Rightarrow>
       if e = WouldBlock then andThen (drop_one get) (\<lambda>_. drop_newest_send put item) (fst s, s1)
       else (Inl e, (fst s, s1)))"

section \<open>\<open>Latest\<close>\<close>

type_synonym 'a latest_value = "'a option"

definition latest_new :: "'a latest_value" where
  "latest_new = None"

definition latest_get :: "'a latest_value \<Rightarrow> 'a option" where
  "latest_get v = v"

definition latest_set :: "'a \<Rightarrow> 'a latest_value \<Rightarrow> 'a latest_value" where
  "latest_set value v = Some value"

section \<open>\<open>send_when_ready\<close>\<close>

text \<open>\<open>checkpoint\<close> is what the other tasks do meanwhile; a poll that never succeeds is \<open>None\<close>.\<close>

partial_function (option) send_when_ready ::
  "('a \<Rightarrow> ('s, unit) py) \<Rightarrow> ('s, unit) py \<Rightarrow> 'a \<Rightarrow> 's \<Rightarrow> ((exn + unit) \<times> 's) option" where
  "send_when_ready put checkpoint item s = (case put item s of
     (Inr _, s1) \<Rightarrow> Some (Inr (), s1)
   | (Inl e, s1) \<Rightarrow>
       if e = WouldBlock then
         (case checkpoint s1 of
            (Inl e', s2) \<Rightarrow> Some (Inl e', s2)
          | (Inr _, s2) \<Rightarrow> send_when_ready put checkpoint item s2)
       else Some (Inl e, s1))"

declare send_when_ready.simps [code]

section \<open>\<open>SendGate\<close>\<close>

text \<open>
  The tasks sending through one gate: those waiting for its lock in order, the one that holds it
  (with whether it has entered the endpoint's \<open>send\<close>), and the endpoint's busy flag.  AnyIO's lock
  is one step: a waiter gets it when nobody holds it.
\<close>

type_synonym gate = "(nat \<times> bool) option \<times> nat list \<times> bool"

inductive gate_step :: "gate \<Rightarrow> gate \<Rightarrow> bool" where
  request: "gate_step (h, ws, b) (h, ws @ [t], b)"
| acquire: "gate_step (None, t # ws, b) (Some (t, False), ws, b)"
| send: "ep_enter b = Inr b' \<Longrightarrow> gate_step (Some (t, False), ws, b) (Some (t, True), ws, b')"
| refused: "ep_enter b = Inl e \<Longrightarrow> gate_step (Some (t, False), ws, b) (None, ws, b)"
| release: "gate_step (Some (t, True), ws, b) (None, ws, ep_exit b)"

lemma gate_free:
  assumes "gate_step\<^sup>*\<^sup>* (None, [], False) g"
  shows "snd (snd g) \<longleftrightarrow> (\<exists>t. fst g = Some (t, True))"
  using assms
proof (induction rule: rtranclp_induct)
  case (step g g')
  from step.hyps(2) step.IH show ?case
    by cases (auto simp: ep_enter_def ep_exit_def split: if_splits)
qed simp

section \<open>What the wrappers do to a channel\<close>

text \<open>A producer's sends one after the other; an exception ends it.\<close>

fun feed :: "('a \<Rightarrow> ('s, unit) py) \<Rightarrow> 'a list \<Rightarrow> ('s, unit) py" where
  "feed send [] = ret ()"
| "feed send (x # xs) = andThen (send x) (\<lambda>_. feed send xs)"

context bounded_spsc begin

lemma drop_newest_one:
  assumes "ok s" "sending s"
  shows "\<exists>s'. drop_newest_send put x (d, s) = (Inr (), (d + (if length (items s) < cap then 0 else 1), s')) \<and>
    ok s' \<and> sending s' \<and> items s' = take cap (items s @ [x]) \<and> receiving s' = receiving s"
proof (cases "room s")
  case True
  obtain s' where "put x s = (Inr (), s')" "ok s'" "items s' = items s @ [x]" "sending s'"
    "receiving s' = receiving s" using put_ok [OF assms True] by blast
  with True room_cap [OF assms(1)] show ?thesis by (auto simp: drop_newest_send_def)
next
  case False
  obtain s' where "put x s = (Inl WouldBlock, s')" "ok s'" "items s' = items s" "sending s'"
    "receiving s' = receiving s" using put_full [OF assms False] by blast
  with False room_cap [OF assms(1)] items_cap [OF assms(1)] show ?thesis
    by (auto simp: drop_newest_send_def)
qed

lemma drop_newest_feed:
  assumes "ok s" "sending s"
  shows "\<exists>s'. feed (drop_newest_send put) xs (d, s) =
      (Inr (), (d + (length (items s @ xs) - cap), s')) \<and>
    ok s' \<and> sending s' \<and> items s' = take cap (items s @ xs) \<and> receiving s' = receiving s"
  using assms
proof (induction xs arbitrary: s d)
  case Nil
  with items_cap show ?case by auto
next
  case (Cons x xs)
  obtain s1 where one: "drop_newest_send put x (d, s) = (Inr (), (d + (if length (items s) < cap then 0 else 1), s1))"
    "ok s1" "sending s1" "items s1 = take cap (items s @ [x])" "receiving s1 = receiving s"
    using drop_newest_one [OF Cons.prems] by blast
  have "take cap (items s1 @ xs) = take cap (items s @ x # xs)"
    unfolding one(4) by (cases "length (items s) < cap") (auto simp: min_def)
  moreover have "(if length (items s) < cap then 0 else 1) + (length (items s1 @ xs) - cap) =
      length (items s @ x # xs) - cap"
    using items_cap [OF Cons.prems(1)] one(4) by auto
  ultimately show ?case using Cons.IH [OF one(2,3), of "d + (if length (items s) < cap then 0 else 1)"] one
    by (auto simp: andThen_def add.assoc)
qed

lemma drop_oldest_one:
  assumes "ok s" "sending s" "receiving s" "0 < cap"
  shows "\<exists>s'. drop_oldest_send put get x (d, s) = (Inr (), (d + (if length (items s) < cap then 0 else 1), s')) \<and>
    ok s' \<and> sending s' \<and> receiving s' \<and> items s' = drop (Suc (length (items s)) - cap) (items s @ [x])"
proof (cases "room s")
  case True
  obtain s' where "put x s = (Inr (), s')" "ok s'" "items s' = items s @ [x]" "sending s'"
    "receiving s' = receiving s" using put_ok [OF assms(1,2) True] by blast
  with True room_cap [OF assms(1)] assms(3) show ?thesis by (auto simp: drop_oldest_send_def)
next
  case False
  then have len: "length (items s) = cap" using room_cap [OF assms(1)] items_cap [OF assms(1)] by simp
  obtain s1 where s1: "put x s = (Inl WouldBlock, s1)" "ok s1" "items s1 = items s" "sending s1"
    "receiving s1 = receiving s" using put_full [OF assms(1,2) False] by blast
  obtain y ys where y: "items s = y # ys" using len assms(4) by (cases "items s") auto
  have r1: "receiving s1" "items s1 = y # ys" using s1 assms(3) y by simp_all
  from get_ok [OF s1(2) r1] obtain s2 where s2: "get s1 = (Inr y, s2)" "ok s2" "items s2 = ys"
    "sending s2 = sending s1" "receiving s2" by blast
  have lt: "length (items s2) < cap" using s2(3) y len by simp
  obtain s3 where s3: "drop_newest_send put x (Suc d, s2) = (Inr (), (Suc d, s3))"
    "ok s3" "sending s3" "items s3 = take cap (items s2 @ [x])" "receiving s3 = receiving s2"
    using drop_newest_one [OF s2(2), of x "Suc d"] s2(4) s1(4) lt by auto
  have "drop_oldest_send put get x (d, s) = (Inr (), (Suc d, s3))"
    using s1 s2 s3 by (simp add: drop_oldest_send_def drop_one_def andThen_def)
  moreover have "items s3 = drop (Suc (length (items s)) - cap) (items s @ [x])"
    using s3(4) s2(3) y len by simp
  ultimately show ?thesis using s3 s2 len by auto
qed

lemma drop_oldest_feed:
  assumes "ok s" "sending s" "receiving s" "0 < cap"
  shows "\<exists>s'. feed (drop_oldest_send put get) xs (d, s) =
      (Inr (), (d + (length (items s @ xs) - cap), s')) \<and>
    ok s' \<and> sending s' \<and> items s' = drop (length (items s @ xs) - cap) (items s @ xs)"
  using assms(1-3)
proof (induction xs arbitrary: s d)
  case Nil
  with items_cap show ?case by auto
next
  case (Cons x xs)
  obtain s1 where one: "drop_oldest_send put get x (d, s) = (Inr (), (d + (if length (items s) < cap then 0 else 1), s1))"
    "ok s1" "sending s1" "receiving s1" "items s1 = drop (Suc (length (items s)) - cap) (items s @ [x])"
    using drop_oldest_one [OF Cons.prems assms(4)] by blast
  have full: "length (items s) < cap \<or> length (items s) = cap" using items_cap [OF Cons.prems(1)] by auto
  have "drop (length (items s1 @ xs) - cap) (items s1 @ xs) = drop (length (items s @ x # xs) - cap) (items s @ x # xs)"
    using full
  proof
    assume "length (items s) < cap"
    then show ?thesis using one(5) by simp
  next
    assume eq: "length (items s) = cap"
    then obtain y ys where "items s = y # ys" using assms(4) by (cases "items s") auto
    with eq one(5) show ?thesis by (auto simp: Suc_diff_le)
  qed
  moreover have "(if length (items s) < cap then 0 else 1) + (length (items s1 @ xs) - cap) =
      length (items s @ x # xs) - cap"
    using full one(5) by auto
  ultimately show ?case using Cons.IH [OF one(2-4), of "d + (if length (items s) < cap then 0 else 1)"] one
    by (auto simp: andThen_def add.assoc)
qed

end

section \<open>Polling\<close>

text \<open>Other tasks that make room sooner or later, and meanwhile keep the channel open.\<close>

inductive room_soon :: "('s \<Rightarrow> bool) \<Rightarrow> ('s \<Rightarrow> bool) \<Rightarrow> ('s, unit) py \<Rightarrow> 's \<Rightarrow> bool"
  for open_ok room checkpoint where
  now: "open_ok s \<Longrightarrow> room s \<Longrightarrow> room_soon open_ok room checkpoint s"
| later: "open_ok s \<Longrightarrow> checkpoint s = (Inr (), s') \<Longrightarrow> room_soon open_ok room checkpoint s' \<Longrightarrow>
    room_soon open_ok room checkpoint s"

context memory_stream begin

abbreviation both_open :: "'s \<Rightarrow> bool" where
  "both_open s \<equiv> calm s \<and> s_open s \<and> r_open s"

lemma send_when_ready_returns:
  assumes "room_soon both_open (\<lambda>s. length (items s) < cap) checkpoint s"
  shows "\<exists>k t s'. send_when_ready (ch_send_nowait put) checkpoint x s = Some (Inr (), s') \<and>
    t = ((\<lambda>s. snd (checkpoint s)) ^^ k) s \<and> items s' = items t @ [x]"
  using assms
proof (induction rule: room_soon.induct)
  case (now s)
  obtain s' where "ch_send_nowait put x s = (Inr (), s')" "items s' = items s @ [x]"
    using raw_put_ok [of s x] now by (auto simp: ch_send_nowait_def translated_def)
  then show ?case
    by (intro exI [of _ 0] exI [of _ s] exI [of _ s'], subst send_when_ready.simps) simp
next
  case (later s s1)
  show ?case
  proof (cases "length (items s) < cap")
    case True
    obtain s' where "ch_send_nowait put x s = (Inr (), s')" "items s' = items s @ [x]"
      using raw_put_ok [of s x] later.hyps(1) True by (auto simp: ch_send_nowait_def translated_def)
    then show ?thesis
      by (intro exI [of _ 0] exI [of _ s] exI [of _ s'], subst send_when_ready.simps) simp
  next
    case False
    have "ch_send_nowait put x s = (Inl WouldBlock, s)"
      using raw_put_full [of s x] later.hyps(1) False by (simp add: ch_send_nowait_def translated_def)
    then have step: "send_when_ready (ch_send_nowait put) checkpoint x s =
        send_when_ready (ch_send_nowait put) checkpoint x s1"
      using later.hyps(2) by (subst send_when_ready.simps) simp
    from later.IH obtain k t s' where
      "send_when_ready (ch_send_nowait put) checkpoint x s1 = Some (Inr (), s')"
      "t = ((\<lambda>s. snd (checkpoint s)) ^^ k) s1" "items s' = items t @ [x]" by blast
    then show ?thesis using step later.hyps(2)
      by (intro exI [of _ "Suc k"] exI [of _ t] exI [of _ s']) (simp add: funpow_Suc_right del: funpow.simps)
  qed
qed

end

end
