(* ===== verification/ChannelProps.thy ===== *)
theory ChannelProps imports ChannelTasks Lossy begin

text \<open>
  The properties of the in-process channel and of the wrappers around it.  They hold for every
  stream that does what AnyIO documents (\<open>memory_stream\<close>); the witnesses run the code's model on one.
\<close>

section \<open>The endpoints\<close>

text \<open>An endpoint has one active user at a time: whatever tasks enter, are refused and leave in
  whatever order, at most one is inside and the busy flag says exactly whether one is; while one is, a
  blocking send or receive by another raises ChannelInUse and changes nothing.\<close>

theorem endpoint_exclusive:
  assumes "ep_step\<^sup>*\<^sup>* (False, []) (busy, inside)"
  shows "length inside \<le> 1 \<and> (busy \<longleftrightarrow> inside \<noteq> []) \<and>
    (inside \<noteq> [] \<longrightarrow> ch_send put item (busy, s) = (Inl ChannelInUse, (busy, s)) \<and>
       ch_receive get (busy, s) = (Inl ChannelInUse, (busy, s)))"
  using ep_exclusive [OF assms] by (simp add: ch_send_def ch_receive_def exclusive_busy)

theorem endpoint_exclusive_witness:
  "ch_send (\<lambda>item. ret ()) (3::nat) (True, ()) = (Inl ChannelInUse, (True, ()))"
proof -
  have "ep_step (False, []) (True, [7])" by (rule ep_step.enter) (simp add: ep_enter_def)
  then have "ep_step\<^sup>*\<^sup>* (False, []) (True, [7])" by (rule r_into_rtranclp)
  from endpoint_exclusive [OF this, of "\<lambda>item. ret ()" "3::nat" "()" "ret ()"] show ?thesis by simp
qed

text \<open>C25: If the inner stream raises only what AnyIO documents (closed, broken, end of stream,
  cancellation), a send raises only ChannelInUse, ChannelClosed or the cancellation, a receive only
  ChannelInUse, EndOfStream or the cancellation, and a free endpoint is free again afterwards, also
  when the call raised.\<close>

theorem endpoint_errors:
  assumes "\<And>s e s'. put item s = (Inl e, s') \<Longrightarrow> e \<in> {AnyioBrokenResource, AnyioClosedResource, Cancelled}"
    and "\<And>s e s'. get s = (Inl e, s') \<Longrightarrow> e \<in> {AnyioEndOfStream, AnyioClosedResource, Cancelled}"
  shows "(\<forall>e s'. ch_send put item (busy, s) = (Inl e, s') \<longrightarrow> e \<in> {ChannelInUse, ChannelClosed, Cancelled}) \<and>
    (\<forall>e s'. ch_receive get (busy, s) = (Inl e, s') \<longrightarrow> e \<in> {ChannelInUse, EndOfStream, Cancelled}) \<and>
    (\<not> busy \<longrightarrow> \<not> fst (snd (ch_send put item (busy, s))) \<and> \<not> fst (snd (ch_receive get (busy, s))))"
proof (intro conjI allI impI)
  fix e s' assume "ch_send put item (busy, s) = (Inl e, s')"
  from exclusive_errors [OF assms(1) this [unfolded ch_send_def]]
  show "e \<in> {ChannelInUse, ChannelClosed, Cancelled}" by auto
next
  fix e s' assume "ch_receive get (busy, s) = (Inl e, s')"
  from exclusive_errors [OF assms(2) this [unfolded ch_receive_def]]
  show "e \<in> {ChannelInUse, EndOfStream, Cancelled}" by auto
qed (simp_all add: ch_send_def ch_receive_def exclusive_releases)

theorem endpoint_errors_witness:
  "ch_send (\<lambda>item. raise AnyioBrokenResource) (3::nat) (False, ()) = (Inl ChannelClosed, (False, ())) \<and>
   \<not> fst (snd (ch_send (\<lambda>item. raise AnyioBrokenResource) (3::nat) (False, ())))"
  using endpoint_errors [of "\<lambda>item. raise AnyioBrokenResource" "3::nat" "raise AnyioEndOfStream :: (bool \<times> unit, nat) py" False "()"]
  by (simp add: ch_send_def exclusive_def ep_enter_def ep_exit_def)

section \<open>The channel\<close>

text \<open>The in-process channel is a bounded queue: over any sequence of non-blocking sends and
  receives, what was received followed by what is still buffered is what was buffered followed by
  what was accepted, in order; the buffer never holds more than its size, so nothing is lost,
  doubled, reordered or taken beyond the bound.\<close>

theorem channel_fifo:
  assumes "memory_stream put get items s_open r_open calm cap" "calm s"
    and "run_calls (ch_send_nowait put) (ch_receive_nowait get) calls s = (accepted, received, s')"
  shows "received @ items s' = items s @ accepted \<and> length (items s') \<le> cap \<and> calm s'"
  using spsc.fifo [OF memory_stream.endpoints_spsc [OF assms(1)] assms(2,3)]
    bounded_spsc.items_cap [OF memory_stream.endpoints_bounded [OF assms(1)]] by blast

text \<open>The stream the witnesses run on.\<close>

lemma mem_stream: "memory_stream (mem_put cap) mem_get mem_items mem_s_open mem_r_open (mem_calm cap) cap"
  by (rule mem.memory_stream_axioms)

lemma mem_new_open: "mem_calm cap mem_new" "mem_s_open mem_new" "mem_r_open mem_new" "mem_items mem_new = []"
  by (simp_all add: mem_calm_def mem_new_def)

theorem channel_fifo_witness:
  "fst (run_calls (ch_send_nowait (mem_put 2)) (ch_receive_nowait mem_get) [Put (1::nat), Put 2, Put 3, Get, Put 4, Get, Get] mem_new)
     = [1, 2, 4] \<and> fst (snd (run_calls (ch_send_nowait (mem_put 2)) (ch_receive_nowait mem_get)
       [Put (1::nat), Put 2, Put 3, Get, Put 4, Get, Get] mem_new)) = [1, 2, 4]"
proof -
  let ?run = "run_calls (ch_send_nowait (mem_put 2)) (ch_receive_nowait mem_get) [Put (1::nat), Put 2, Put 3, Get, Put 4, Get, Get] mem_new"
  have acc: "fst ?run = [1, 2, 4]" "mem_items (snd (snd ?run)) = []" by code_simp+
  have "?run = (fst ?run, fst (snd ?run), snd (snd ?run))" by simp
  from channel_fifo [OF mem_stream mem_new_open(1) this] acc show ?thesis by (simp add: mem_new_open)
qed

section \<open>The channel between tasks that block\<close>

text \<open>C10: Whatever tasks begin, wait in, are cancelled in and finish blocking sends and receives, mixed with
  the calls that do not block and with closes of either side, in whatever order: what was received
  followed by what is buffered is what was accepted, so nothing is lost, doubled or reordered, by a
  cancellation neither; the buffer keeps its bound; each endpoint has at most one task inside and its
  flag says whether; and a receiver that was told of the end has received everything accepted, from a
  sender that is closed.\<close>

theorem channel_tasks_fifo:
  assumes "closable_stream put get items s_open r_open calm cap close_send close_recv" "calm s" "items s = []"
    and "(chan_step \<lparr>so_put = put, so_get = get, so_close_send = close_send, so_close_recv = close_recv\<rparr>
      (\<lambda>s. items s = []) (\<lambda>s. s_open s \<and> r_open s))\<^sup>*\<^sup>* (chan_new s) c"
  shows "cn_received c @ items (cn_stream c) = cn_accepted c \<and> length (items (cn_stream c)) \<le> cap \<and>
    length (cn_sending c) \<le> 1 \<and> (cn_s_busy c \<longleftrightarrow> cn_sending c \<noteq> []) \<and>
    cn_receiving c \<le> 1 \<and> (cn_r_busy c \<longleftrightarrow> cn_receiving c \<noteq> 0) \<and>
    (cn_ended c \<longrightarrow> cn_received c = cn_accepted c \<and> \<not> s_open (cn_stream c))"
proof -
  have ok: "closable_stream.chan_ok items s_open calm c"
    using closable_stream.chan_ok_reachable [OF assms(1,4,2,3)] .
  with memory_stream.raw_items_cap [OF closable_stream.axioms(1) [OF assms(1)], of "cn_stream c"]
  show ?thesis by (auto simp: closable_stream.chan_ok_def [OF assms(1)])
qed

text \<open>A task waits only while it must: a waiting sender is not served at once only while both sides are
  open and the buffer is full, a waiting receiver only while both are open and it is empty, so a task
  parked when the other side closes gets ChannelClosed or EndOfStream at its next attempt; and if both
  wait, the channel is a rendezvous, on which the item can go from one to the other.\<close>

theorem channel_tasks_wait:
  assumes "closable_stream put get items s_open r_open calm cap close_send close_recv" "calm s" "items s = []"
    and "ops = \<lparr>so_put = put, so_get = get, so_close_send = close_send, so_close_recv = close_recv\<rparr>"
    and "(chan_step ops (\<lambda>s. items s = []) (\<lambda>s. s_open s \<and> r_open s))\<^sup>*\<^sup>* (chan_new s) c"
  shows "(fst (send_try ops x c) = None \<longrightarrow> s_open (cn_stream c) \<and> r_open (cn_stream c) \<and> length (items (cn_stream c)) = cap) \<and>
    (fst (recv_try ops c) = None \<longrightarrow> s_open (cn_stream c) \<and> r_open (cn_stream c) \<and> items (cn_stream c) = []) \<and>
    (\<not> r_open (cn_stream c) \<longrightarrow> fst (send_try ops x c) = Some (Inl ChannelClosed)) \<and>
    (\<not> s_open (cn_stream c) \<and> items (cn_stream c) = [] \<longrightarrow> fst (recv_try ops c) = Some (Inl EndOfStream)) \<and>
    (x \<in> set (cn_sending c) \<and> 0 < cn_receiving c \<and> fst (send_try ops x c) = None \<and> fst (recv_try ops c) = None \<longrightarrow>
      cap = 0 \<and> (\<exists>c'. chan_step ops (\<lambda>s. items s = []) (\<lambda>s. s_open s \<and> r_open s) c c' \<and>
        cn_received c' = cn_received c @ [x] \<and> cn_sending c' = [] \<and> cn_receiving c' = 0))"
proof -
  note loc = assms(1)
  note run = assms(5) [unfolded assms(4)]
  have ok: "closable_stream.chan_ok items s_open calm c"
    using closable_stream.chan_ok_reachable [OF loc run assms(2,3)] .
  have cap: "length (items (cn_stream c)) \<le> cap"
    using memory_stream.raw_items_cap [OF closable_stream.axioms(1) [OF loc], of "cn_stream c"] ok
    by (simp add: closable_stream.chan_ok_def [OF loc])
  have send: "s_open (cn_stream c) \<and> r_open (cn_stream c) \<and> length (items (cn_stream c)) = cap"
    if "fst (send_try ops x c) = None"
    using that closable_stream.send_try_closed [OF loc ok, of x] closable_stream.send_try_room [OF loc ok, of x] cap
    unfolding assms(4) by fastforce
  have recv: "s_open (cn_stream c) \<and> r_open (cn_stream c) \<and> items (cn_stream c) = []"
    if "fst (recv_try ops c) = None"
    using that closable_stream.recv_try_closed [OF loc ok] closable_stream.recv_try_item [OF loc ok]
    unfolding assms(4) by (cases "items (cn_stream c)") fastforce+
  have both: "cap = 0 \<and> (\<exists>c'. chan_step ops (\<lambda>s. items s = []) (\<lambda>s. s_open s \<and> r_open s) c c' \<and>
        cn_received c' = cn_received c @ [x] \<and> cn_sending c' = [] \<and> cn_receiving c' = 0)"
    if w: "x \<in> set (cn_sending c)" "0 < cn_receiving c" "fst (send_try ops x c) = None" "fst (recv_try ops c) = None"
  proof -
    have one: "cn_sending c = [x]" "cn_receiving c = 1"
      using ok w(1,2) by (auto simp: closable_stream.chan_ok_def [OF loc] length_Suc_conv le_Suc_eq)
    with chan_step.hand_over [OF w(1,2), where empty = "\<lambda>s. items s = []" and both_open = "\<lambda>s. s_open s \<and> r_open s"]
      send [OF w(3)] recv [OF w(4)] show ?thesis by (auto simp: recv_end_def send_end_def intro!: exI)
  qed
  show ?thesis
    using send recv both closable_stream.send_try_closed [OF loc ok] closable_stream.recv_try_closed [OF loc ok]
    unfolding assms(4) by blast
qed

text \<open>A channel for one item: a second sender is parked, then the receiver closes; and a rendezvous.\<close>

lemma mem_closable: "closable_stream (mem_put cap) mem_get mem_items mem_s_open mem_r_open (mem_calm cap) cap
    mem_close_send mem_close_recv"
  by (rule mem_tasks.closable_stream_axioms)

definition mem_ops :: "nat \<Rightarrow> (nat, nat mem) stream_ops" where
  "mem_ops cap = \<lparr>so_put = mem_put cap, so_get = mem_get, so_close_send = mem_close_send, so_close_recv = mem_close_recv\<rparr>"

definition waiting_pair :: "(nat, nat mem) chan" where
  "waiting_pair = (chan_new mem_new)\<lparr>cn_s_busy := True, cn_sending := [7], cn_r_busy := True, cn_receiving := 1\<rparr>"

lemma waiting_pair_steps:
  "(chan_step (mem_ops cap) (\<lambda>s. mem_items s = []) (\<lambda>s. mem_s_open s \<and> mem_r_open s))\<^sup>*\<^sup>* (chan_new mem_new) waiting_pair"
proof -
  let ?c = "(chan_new mem_new :: (nat, nat mem) chan)\<lparr>cn_s_busy := True, cn_sending := [7]\<rparr>"
  have "send_begin (7::nat) (chan_new (mem_new :: nat mem)) = Inr ?c" "recv_begin ?c = Inr waiting_pair"
    by (simp_all add: send_begin_def recv_begin_def ep_enter_def chan_new_def waiting_pair_def)
  then show ?thesis by (meson chan_step.send_begins chan_step.recv_begins r_into_rtranclp rtranclp.rtrancl_into_rtrancl)
qed

theorem channel_tasks_fifo_witness:
  "\<exists>c. (chan_step (mem_ops 1) (\<lambda>s. mem_items s = []) (\<lambda>s. mem_s_open s \<and> mem_r_open s))\<^sup>*\<^sup>* (chan_new mem_new) c \<and>
     mem_items (cn_stream c) = [7] \<and> cn_received c @ mem_items (cn_stream c) = cn_accepted c"
proof -
  let ?c = "snd (send_try (mem_ops 1) 7 waiting_pair)"
  have "chan_step (mem_ops 1) (\<lambda>s. mem_items s = []) (\<lambda>s. mem_s_open s \<and> mem_r_open s) waiting_pair ?c"
    by (rule chan_step.send_tries [where x = 7 and r = "fst (send_try (mem_ops 1) 7 waiting_pair)"])
      (simp_all add: waiting_pair_def)
  with waiting_pair_steps have run: "(chan_step (mem_ops 1) (\<lambda>s. mem_items s = []) (\<lambda>s. mem_s_open s \<and> mem_r_open s))\<^sup>*\<^sup>*
      (chan_new mem_new) ?c" by (rule rtranclp.rtrancl_into_rtrancl)
  have "mem_items (cn_stream ?c) = [7]" by code_simp
  with channel_tasks_fifo [OF mem_closable mem_new_open(1,4) run [unfolded mem_ops_def]] run show ?thesis
    by (auto simp: mem_ops_def)
qed

theorem channel_tasks_wait_witness:
  "\<exists>c'. chan_step (mem_ops 0) (\<lambda>s. mem_items s = []) (\<lambda>s. mem_s_open s \<and> mem_r_open s) waiting_pair c' \<and>
     cn_received c' = [7]"
proof -
  have "7 \<in> set (cn_sending waiting_pair)" "0 < cn_receiving waiting_pair" "cn_received waiting_pair = []"
    "fst (send_try (mem_ops 0) 7 waiting_pair) = None" "fst (recv_try (mem_ops 0) waiting_pair) = None"
    by code_simp+
  with channel_tasks_wait [OF mem_closable mem_new_open(1,4) mem_ops_def waiting_pair_steps, of 0 7] show ?thesis by auto
qed

section \<open>The lossy wrappers\<close>

text \<open>C27: On a channel of positive size with both sides open, a producer behind DropNewestSend leaves the
  oldest items, as many as fit, one behind DropOldestSend the newest; both never block or raise, and
  their counter grows by exactly the number of items lost.\<close>

theorem lossy_keeps:
  assumes "memory_stream put get items s_open r_open calm cap" "calm s" "s_open s" "r_open s" "0 < cap"
  shows "(\<exists>s'. feed (drop_newest_send (ch_send_nowait put)) xs (d, s) = (Inr (), (d + (length (items s @ xs) - cap), s')) \<and>
      items s' = take cap (items s @ xs)) \<and>
    (\<exists>s'. feed (drop_oldest_send (ch_send_nowait put) (ch_receive_nowait get)) xs (d, s) =
        (Inr (), (d + (length (items s @ xs) - cap), s')) \<and>
      items s' = drop (length (items s @ xs) - cap) (items s @ xs))"
proof -
  note bounded = memory_stream.endpoints_bounded [OF assms(1)]
  show ?thesis
    using bounded_spsc.drop_newest_feed [OF bounded assms(2), of xs d]
      bounded_spsc.drop_oldest_feed [OF bounded assms(2) _ assms(4,5), of xs d] assms(3,4) by blast
qed

theorem lossy_keeps_witness:
  "(\<exists>s'. feed (drop_oldest_send (ch_send_nowait (mem_put 2)) (ch_receive_nowait mem_get)) [1, 2, 3, 4::nat] (0, mem_new) =
     (Inr (), (2, s')) \<and> mem_items s' = [3, 4]) \<and>
   (\<exists>s'. feed (drop_newest_send (ch_send_nowait (mem_put 2))) [1, 2, 3, 4::nat] (0, mem_new) = (Inr (), (2, s')) \<and>
     mem_items s' = [1, 2])"
  using lossy_keeps [OF mem_stream mem_new_open(1-3), of 2 "[1, 2, 3, 4::nat]" 0]
  by (simp add: mem_new_open numeral_2_eq_2)

text \<open>C28: CoalesceSend on a channel of size one refines Latest: after any non-empty series of sends the one
  buffered item is the value a Latest cell holds after being set to the same values, so the next
  receive returns it.\<close>

theorem coalesce_refines_latest:
  assumes "memory_stream put get items s_open r_open calm 1" "calm s" "s_open s" "r_open s" "xs \<noteq> []"
  shows "\<exists>d' s'. feed (drop_oldest_send (ch_send_nowait put) (ch_receive_nowait get)) xs (d, s) = (Inr (), (d', s')) \<and>
    latest_get (fold latest_set xs latest_new) = Some (hd (items s')) \<and> length (items s') = 1 \<and>
    fst (ch_receive_nowait get s') = Inr (hd (items s'))"
proof -
  note bounded = memory_stream.endpoints_bounded [OF assms(1)]
  obtain s' where run: "feed (drop_oldest_send (ch_send_nowait put) (ch_receive_nowait get)) xs (d, s) =
      (Inr (), (d + (length (items s @ xs) - 1), s'))" and ok: "calm s'" "s_open s' \<and> r_open s'"
    and it: "items s' = drop (length (items s @ xs) - 1) (items s @ xs)"
    using bounded_spsc.drop_oldest_feed [OF bounded assms(2) _ assms(4), of xs d] assms(3,4) by auto
  have last: "items s' = [last xs]" using it assms(5) by (cases xs rule: rev_cases) auto
  have "fold latest_set xs v = Some (last xs)" for v
    using assms(5) by (induction xs arbitrary: v) (auto simp: latest_set_def)
  moreover have "fst (ch_receive_nowait get s') = Inr (last xs)" 
    using spsc.get_ok [OF memory_stream.endpoints_spsc [OF assms(1)] ok(1) _ last] ok(2) by auto
  ultimately show ?thesis using run last by (auto simp: latest_get_def)
qed

theorem coalesce_refines_latest_witness:
  "\<exists>d' s'. feed (drop_oldest_send (ch_send_nowait (mem_put 1)) (ch_receive_nowait mem_get)) [5, 6, 7::nat] (0, mem_new) =
     (Inr (), (d', s')) \<and> latest_get (fold latest_set [5, 6, 7::nat] latest_new) = Some (hd (mem_items s'))"
  using coalesce_refines_latest [OF mem_stream mem_new_open(1-3), of "[5, 6, 7::nat]" 0] by blast

section \<open>Fan-in\<close>

text \<open>\<open>send_when_ready\<close> returns as soon as the other tasks make room, having sent its item exactly
  once, behind what the buffer then holds; until then it only waits.\<close>

theorem send_when_ready_sends:
  assumes "memory_stream put get items s_open r_open calm cap"
    and "room_soon (\<lambda>s. calm s \<and> s_open s \<and> r_open s) (\<lambda>s. length (items s) < cap) checkpoint s"
  shows "\<exists>k t s'. send_when_ready (ch_send_nowait put) checkpoint x s = Some (Inr (), s') \<and>
    t = ((\<lambda>s. snd (checkpoint s)) ^^ k) s \<and> items s' = items t @ [x]"
  using memory_stream.send_when_ready_returns [OF assms] .

theorem send_when_ready_sends_witness:
  "\<exists>s'. send_when_ready (ch_send_nowait (mem_put 1)) (\<lambda>s. (Inr (), s\<lparr>mem_items := tl (mem_items s)\<rparr>)) (9::nat)
     (mem_new\<lparr>mem_items := [1]\<rparr>) = Some (Inr (), s')"
proof -
  let ?cp = "\<lambda>s::nat mem. (Inr () :: exn + unit, s\<lparr>mem_items := tl (mem_items s)\<rparr>)"
  have "room_soon (\<lambda>s. mem_calm 1 s \<and> mem_s_open s \<and> mem_r_open s) (\<lambda>s. length (mem_items s) < 1) ?cp
      (mem_new\<lparr>mem_items := [1::nat]\<rparr>)"
    by (rule room_soon.later) (auto simp: mem_calm_def mem_new_def intro: room_soon.now)
  from send_when_ready_sends [OF mem_stream this, of 9] show ?thesis by auto
qed

text \<open>Sends that go through one SendGate are never refused: in every reachable state of the tasks
  queueing for its lock, the endpoint is busy exactly while the lock's holder is inside \<open>send\<close>, so a
  holder that is about to enter finds it free.\<close>

theorem gate_never_refused:
  assumes "gate_step\<^sup>*\<^sup>* (None, [], False) (holder, waiting, busy)"
  shows "(busy \<longleftrightarrow> (\<exists>t. holder = Some (t, True))) \<and> (holder = Some (t, False) \<longrightarrow> ep_enter busy = Inr True)"
  using gate_free [OF assms] by (auto simp: ep_enter_def)

theorem gate_never_refused_witness:
  "ep_enter False = Inr True"
proof -
  have "gate_step (None, [], False) (None, [] @ [4], False)" by (rule gate_step.request)
  moreover have "gate_step (None, [4], False) (Some (4, False), [], False)" by (rule gate_step.acquire)
  ultimately have "gate_step\<^sup>*\<^sup>* (None, [], False) (Some (4, False), [], False)" by simp
  from gate_never_refused [OF this, of 4] show ?thesis by simp
qed

end
