(* ===== verification/Zmq.thy ===== *)
theory Zmq imports Channel "HOL-Library.Word" begin

text \<open>
  The ZeroMQ transport of \<open>transports/zmq.py\<close>: tagged frames, the socket settings and the two
  endpoints.  The socket, the serializer and the scheduler's checkpoint are not under \<open>src/\<close> and
  enter as the record \<open>zmq_io\<close>; its calls that await act on the endpoint too, since other tasks may
  use it meanwhile.  \<open>zmq.Again\<close> is \<open>ZmqAgain\<close>, every other \<open>ZMQError\<close> is \<open>ZmqError\<close>.  A loop over
  the frames of a socket may not end, which is \<open>None\<close>.
\<close>

section \<open>Frames\<close>

type_synonym bytes = "8 word list"

definition DATA :: bytes where "DATA = [68]"
definition EOF :: bytes where "EOF = [69]"
definition CLOSE :: bytes where "CLOSE = [67]"

section \<open>Settings\<close>

record zmq_config =
  zc_maxsize :: int
  zc_linger_ms :: int

definition zmq_config_new :: "int \<Rightarrow> int \<Rightarrow> exn + zmq_config" where
  "zmq_config_new maxsize linger_ms =
     (if maxsize < 0 then Inl ValueError
      else if linger_ms < - 1 then Inl ValueError
      else Inr \<lparr>zc_maxsize = maxsize, zc_linger_ms = linger_ms\<rparr>)"

definition hwm :: "zmq_config \<Rightarrow> int" where
  "hwm cfg = max 2 (zc_maxsize cfg + 1)"

section \<open>Endpoints\<close>

text \<open>The flags of \<open>_ZmqSend\<close> and of \<open>_ZmqReceive\<close>.\<close>

record zmq_end =
  ze_busy :: bool
  ze_closed :: bool
  ze_peer_closed :: bool

definition zmq_end_new :: zmq_end where
  "zmq_end_new = \<lparr>ze_busy = False, ze_closed = False, ze_peer_closed = False\<rparr>"

type_synonym 's zst = "zmq_end \<times> 's"

record ('a, 's) zmq_io =
  io_recv_nowait :: "('s, bytes) py"
  io_send_nowait :: "bytes \<Rightarrow> ('s, unit) py"
  io_recv :: "('s zst, bytes) py"
  io_send :: "bytes \<Rightarrow> ('s zst, unit) py"
  io_close :: "int \<Rightarrow> 's \<Rightarrow> 's"
  io_checkpoint :: "('s zst, unit) py"
  io_encode :: "'a \<Rightarrow> exn + bytes"
  io_decode :: "bytes \<Rightarrow> exn + 'a"

definition is_zmq_error :: "exn \<Rightarrow> bool" where
  "is_zmq_error e \<longleftrightarrow> e = ZmqAgain \<or> e = ZmqError"

definition zmq_recv_nowait :: "('s, bytes) py \<Rightarrow> ('s, bytes) py" where
  "zmq_recv_nowait rx = translated (\<lambda>e. if e = ZmqAgain then WouldBlock else e) rx"

definition send_control_nowait :: "(bytes \<Rightarrow> ('s, unit) py) \<Rightarrow> bytes \<Rightarrow> ('s, unit) py" where
  "send_control_nowait tx frame s = (case tx frame s of
     (Inl e, s') \<Rightarrow> (if is_zmq_error e then Inr () else Inl e, s')
   | (Inr _, s') \<Rightarrow> (Inr (), s'))"

section \<open>\<open>_ZmqSend\<close>\<close>

partial_function (option) drain_control :: "('s, bytes) py \<Rightarrow> 's zst \<Rightarrow> ((exn + unit) \<times> 's zst) option" where
  "drain_control rx s = (case zmq_recv_nowait rx (snd s) of
     (Inl e, w) \<Rightarrow> Some (if e = WouldBlock then Inr () else Inl e, (fst s, w))
   | (Inr frame, w) \<Rightarrow>
       drain_control rx
         (if take 1 frame = CLOSE \<or> take 1 frame = EOF then (fst s)\<lparr>ze_peer_closed := True\<rparr> else fst s, w))"

declare drain_control.simps [code]

text \<open>The sequence of \<open>andThen\<close> for an operation that may not return.\<close>

definition thenO ::
  "((exn + 'a) \<times> 's) option \<Rightarrow> ('a \<Rightarrow> 's \<Rightarrow> ((exn + 'b) \<times> 's) option) \<Rightarrow> ((exn + 'b) \<times> 's) option" where
  "thenO m f = Option.bind m (\<lambda>(r, s). case r of Inl e \<Rightarrow> Some (Inl e, s) | Inr a \<Rightarrow> f a s)"

definition zs_send_body :: "('a, 's) zmq_io \<Rightarrow> 'a \<Rightarrow> 's zst \<Rightarrow> ((exn + unit) \<times> 's zst) option" where
  "zs_send_body io item s =
     thenO (Some (io_checkpoint io s)) (\<lambda>_ s1.
     thenO (drain_control (io_recv_nowait io) s1) (\<lambda>_ s2.
       if ze_peer_closed (fst s2) then Some (Inl ChannelClosed, s2)
       else case io_encode io item of Inl e \<Rightarrow> Some (Inl e, s2)
            | Inr b \<Rightarrow> Some (io_send io (DATA @ b) s2)))"

definition release :: "(exn \<Rightarrow> exn) \<Rightarrow> (exn + 'a) \<times> 's zst \<Rightarrow> (exn + 'a) \<times> 's zst" where
  "release tr out = (case out of (r, s) \<Rightarrow> (map_sum tr id r, ((fst s)\<lparr>ze_busy := False\<rparr>, snd s)))"

definition zs_send :: "('a, 's) zmq_io \<Rightarrow> 'a \<Rightarrow> 's zst \<Rightarrow> ((exn + unit) \<times> 's zst) option" where
  "zs_send io item s =
     (if ze_busy (fst s) then Some (Inl ChannelInUse, s)
      else if ze_closed (fst s) then Some (Inl ChannelClosed, s)
      else map_option (release (\<lambda>e. if is_zmq_error e then ChannelClosed else e))
             (zs_send_body io item ((fst s)\<lparr>ze_busy := True\<rparr>, snd s)))"

definition zs_send_nowait :: "('a, 's) zmq_io \<Rightarrow> 'a \<Rightarrow> 's zst \<Rightarrow> ((exn + unit) \<times> 's zst) option" where
  "zs_send_nowait io item s =
     (if ze_busy (fst s) then Some (Inl ChannelInUse, s)
      else if ze_closed (fst s) then Some (Inl ChannelClosed, s)
      else thenO (drain_control (io_recv_nowait io) s) (\<lambda>_ s1.
        if ze_peer_closed (fst s1) then Some (Inl ChannelClosed, s1)
        else case io_encode io item of Inl e \<Rightarrow> Some (Inl e, s1)
             | Inr b \<Rightarrow> Some (beside (translated (\<lambda>e. if e = ZmqAgain then WouldBlock
                   else if e = ZmqError then ChannelClosed else e) (io_send_nowait io (DATA @ b))) s1)))"

text \<open>The \<open>finally\<close> of both \<open>aclose\<close>.\<close>

definition closing :: "('a, 's) zmq_io \<Rightarrow> zmq_config \<Rightarrow> (exn + unit) \<times> 's zst \<Rightarrow> (exn + unit) \<times> 's zst" where
  "closing io cfg out = (case out of (r, s) \<Rightarrow> (r, (fst s, io_close io (zc_linger_ms cfg) (snd s))))"

definition zs_aclose :: "('a, 's) zmq_io \<Rightarrow> zmq_config \<Rightarrow> 's zst \<Rightarrow> ((exn + unit) \<times> 's zst) option" where
  "zs_aclose io cfg s =
     (if ze_closed (fst s) then Some (Inr (), s)
      else map_option (closing io cfg)
        (thenO (drain_control (io_recv_nowait io) ((fst s)\<lparr>ze_closed := True\<rparr>, snd s)) (\<lambda>_ s1.
           if ze_peer_closed (fst s1) then Some (Inr (), s1)
           else thenO (Some (beside (send_control_nowait (io_send_nowait io) EOF) s1))
                  (\<lambda>_ s2. Some (io_checkpoint io s2)))))"

definition zs_statistics :: "zmq_config \<Rightarrow> zmq_end \<Rightarrow> channel_stats" where
  "zs_statistics cfg e =
     \<lparr>current_buffer_used = - 1, max_buffer_size = Fin (of_int (zc_maxsize cfg)),
      open_send_streams = (if ze_closed e then 0 else 1),
      open_receive_streams = (if ze_peer_closed e then 0 else - 1),
      waiters_send = (if ze_busy e then 1 else 0), waiters_receive = - 1\<rparr>"

section \<open>\<open>_ZmqReceive\<close>\<close>

text \<open>\<open>None\<close> is \<open>_SKIP\<close>.\<close>

definition decode_frame :: "('a, 's) zmq_io \<Rightarrow> bytes \<Rightarrow> zmq_end \<Rightarrow> (exn + 'a option) \<times> zmq_end" where
  "decode_frame io frame e =
     (let tag = take 1 frame in
      if tag = DATA then (map_sum id Some (io_decode io (drop 1 frame)), e)
      else if tag = EOF then (Inl EndOfStream, e\<lparr>ze_peer_closed := True\<rparr>)
      else if tag = CLOSE then (Inr None, e)
      else (Inl ChannelClosed, e))"

text \<open>The \<open>while True\<close> of both receives, over the call that gets a frame.\<close>

partial_function (option) recv_loop ::
  "('a, 's) zmq_io \<Rightarrow> ('s zst, bytes) py \<Rightarrow> 's zst \<Rightarrow> ((exn + 'a) \<times> 's zst) option" where
  "recv_loop io recv s = (case recv s of
     (Inl e, s1) \<Rightarrow> Some (Inl e, s1)
   | (Inr frame, s1) \<Rightarrow>
       (case decode_frame io frame (fst s1) of
          (Inl e, z) \<Rightarrow> Some (Inl e, (z, snd s1))
        | (Inr (Some item), z) \<Rightarrow> Some (Inr item, (z, snd s1))
        | (Inr None, z) \<Rightarrow> recv_loop io recv (z, snd s1)))"

declare recv_loop.simps [code]

definition zr_receive :: "('a, 's) zmq_io \<Rightarrow> 's zst \<Rightarrow> ((exn + 'a) \<times> 's zst) option" where
  "zr_receive io s =
     (if ze_busy (fst s) then Some (Inl ChannelInUse, s)
      else if ze_closed (fst s) \<or> ze_peer_closed (fst s) then Some (Inl EndOfStream, s)
      else map_option (release (\<lambda>e. if is_zmq_error e then EndOfStream else e))
             (recv_loop io (io_recv io) ((fst s)\<lparr>ze_busy := True\<rparr>, snd s)))"

definition zr_receive_nowait :: "('a, 's) zmq_io \<Rightarrow> 's zst \<Rightarrow> ((exn + 'a) \<times> 's zst) option" where
  "zr_receive_nowait io s =
     (if ze_busy (fst s) then Some (Inl ChannelInUse, s)
      else if ze_closed (fst s) \<or> ze_peer_closed (fst s) then Some (Inl EndOfStream, s)
      else map_option (\<lambda>(r, s'). (map_sum (\<lambda>e. if is_zmq_error e then EndOfStream else e) id r, s'))
             (recv_loop io (beside (zmq_recv_nowait (io_recv_nowait io))) s))"

definition zr_aclose :: "('a, 's) zmq_io \<Rightarrow> zmq_config \<Rightarrow> 's zst \<Rightarrow> (exn + unit) \<times> 's zst" where
  "zr_aclose io cfg s =
     (if ze_closed (fst s) then (Inr (), s)
      else closing io cfg
        (andThen (beside (send_control_nowait (io_send_nowait io) CLOSE)) (\<lambda>_. io_checkpoint io)
           ((fst s)\<lparr>ze_closed := True\<rparr>, snd s)))"

definition zr_statistics :: "zmq_config \<Rightarrow> zmq_end \<Rightarrow> channel_stats" where
  "zr_statistics cfg e =
     \<lparr>current_buffer_used = - 1, max_buffer_size = Fin (of_int (zc_maxsize cfg)),
      open_send_streams = (if ze_peer_closed e then 0 else - 1),
      open_receive_streams = (if ze_closed e then 0 else 1),
      waiters_send = - 1, waiters_receive = (if ze_busy e then 1 else 0)\<rparr>"

section \<open>Opening\<close>

text \<open>The calls on a new PAIR socket, each of which may raise; the first that does ends the opening.\<close>

datatype socket_call = SetSndHwm int | SetRcvHwm int | SetLinger int | Bind string | Connect string

definition open_pair_calls :: "string \<Rightarrow> bool \<Rightarrow> zmq_config \<Rightarrow> socket_call list" where
  "open_pair_calls address bind cfg =
     [SetSndHwm (hwm cfg), SetRcvHwm (hwm cfg), SetLinger (zc_linger_ms cfg),
      if bind then Bind address else Connect address]"

fun in_turn :: "('c \<Rightarrow> ('s, unit) py) \<Rightarrow> 'c list \<Rightarrow> ('s, unit) py" where
  "in_turn call [] = ret ()"
| "in_turn call (c # cs) = andThen (call c) (\<lambda>_. in_turn call cs)"

text \<open>\<open>create\<close> makes a socket, which is \<open>'k\<close>; \<open>call\<close> acts on it.\<close>

definition open_pair_socket ::
  "('s, 'k) py \<Rightarrow> ('k \<Rightarrow> socket_call \<Rightarrow> ('s, unit) py) \<Rightarrow> string \<Rightarrow> bool \<Rightarrow> zmq_config \<Rightarrow> ('s, 'k) py" where
  "open_pair_socket create call address bind cfg =
     andThen create (\<lambda>k. andThen (in_turn (call k) (open_pair_calls address bind cfg)) (\<lambda>_. ret k))"

text \<open>\<open>open_zmq_send\<close> and \<open>open_zmq_receive\<close>: an endpoint with its flags, socket and settings.\<close>

definition open_zmq_end ::
  "('s, 'k) py \<Rightarrow> ('k \<Rightarrow> socket_call \<Rightarrow> ('s, unit) py) \<Rightarrow> string \<Rightarrow> bool \<Rightarrow> int \<Rightarrow> int \<Rightarrow>
   ('s, zmq_end \<times> 'k \<times> zmq_config) py" where
  "open_zmq_end create call address bind maxsize linger_ms = (case zmq_config_new maxsize linger_ms of
     Inl e \<Rightarrow> raise e
   | Inr cfg \<Rightarrow> andThen (open_pair_socket create call address bind cfg) (\<lambda>k. ret (zmq_end_new, k, cfg)))"

definition open_zmq_channel ::
  "('s, 'k) py \<Rightarrow> ('k \<Rightarrow> socket_call \<Rightarrow> ('s, unit) py) \<Rightarrow> string \<Rightarrow> bool \<Rightarrow> int \<Rightarrow> int \<Rightarrow>
   ('s, (zmq_end \<times> 'k \<times> zmq_config) \<times> (zmq_end \<times> 'k \<times> zmq_config)) py" where
  "open_zmq_channel create call address bind_receive maxsize linger_ms =
     andThen (open_zmq_end create call address bind_receive maxsize linger_ms) (\<lambda>recv.
     andThen (open_zmq_end create call address (\<not> bind_receive) maxsize linger_ms) (\<lambda>send.
       ret (send, recv)))"

end
