(* ===== verification/ZmqLink.thy ===== *)
theory ZmqLink imports Zmq begin

text \<open>
  Both endpoints over one pair of sockets.  \<open>frame_link\<close> states what ZeroMQ documents of the frames of a
  PAIR connection: they arrive whole, at most once and in order, and a call that raises sends or takes
  nothing.  \<open>lingering_link\<close> adds the closes, which may drop the frames that were not delivered within
  the linger, and a serializer that gives back what it was given.  A link may lose its peer, be full or
  be empty at any time.
\<close>

section \<open>One endpoint\<close>

text \<open>The end of the control frames: what the drain has read decides \<open>peer_closed\<close>.\<close>

lemma drain_control_induct [consumes 1, case_names stopped frame]:
  assumes "drain_control rx s = Some (r, s')"
    and "\<And>z w e w'. zmq_recv_nowait rx w = (Inl e, w') \<Longrightarrow>
      P (z, w) (if e = WouldBlock then Inr () else Inl e) (z, w')"
    and "\<And>z w f w' r s'. zmq_recv_nowait rx w = (Inr f, w') \<Longrightarrow>
      P (if take 1 f = CLOSE \<or> take 1 f = EOF then z\<lparr>ze_peer_closed := True\<rparr> else z, w') r s' \<Longrightarrow> P (z, w) r s'"
  shows "P s r s'"
proof -
  let ?Q = "\<lambda>rx' s y. rx' = rx \<longrightarrow> P s (fst y) (snd y)"
  have "?Q rx s (r, s')"
  proof (rule drain_control.raw_induct [where P = ?Q, OF _ assms(1)], intro impI)
    fix drain rx' and s :: "zmq_end \<times> 'a" and y
    assume IH: "\<And>rx s y. drain rx s = Some y \<Longrightarrow> ?Q rx s y" and eq: "rx' = rx"
      and body: "(case zmq_recv_nowait rx' (snd s) of
         (Inl e, w) \<Rightarrow> Some (if e = WouldBlock then Inr () else Inl e, (fst s, w))
       | (Inr frame, w) \<Rightarrow> drain rx'
           (if take 1 frame = CLOSE \<or> take 1 frame = EOF then (fst s)\<lparr>ze_peer_closed := True\<rparr> else fst s, w)) = Some y"
    obtain x w' where x: "zmq_recv_nowait rx (snd s) = (x, w')" by (cases "zmq_recv_nowait rx (snd s)")
    show "P s (fst y) (snd y)"
    proof (cases x)
      case (Inl e)
      with body x eq have "y = (if e = WouldBlock then Inr () else Inl e, (fst s, w'))" by simp
      with assms(2) [of "snd s" e w' "fst s"] x Inl show ?thesis by simp
    next
      case (Inr f)
      with body x eq have "drain rx (if take 1 f = CLOSE \<or> take 1 f = EOF then (fst s)\<lparr>ze_peer_closed := True\<rparr> else fst s, w') = Some y"
        by simp
      from IH [OF this] assms(3) [of "snd s" f w' "fst s"] x Inr show ?thesis by simp
    qed
  qed
  then show ?thesis by simp
qed

lemma recv_loop_induct [consumes 1, case_names stopped item skip]:
  assumes "recv_loop io recv s = Some (r, s')"
    and "\<And>s e s1. recv s = (Inl e, s1) \<Longrightarrow> P s (Inl e) s1"
    and "\<And>s f s1 x z. recv s = (Inr f, s1) \<Longrightarrow> decode_frame io f (fst s1) = (x, z) \<Longrightarrow> x \<noteq> Inr None \<Longrightarrow>
      P s (map_sum id the x) (z, snd s1)"
    and "\<And>s f s1 z r s'. recv s = (Inr f, s1) \<Longrightarrow> decode_frame io f (fst s1) = (Inr None, z) \<Longrightarrow>
      P (z, snd s1) r s' \<Longrightarrow> P s r s'"
  shows "P s r s'"
proof -
  let ?Q = "\<lambda>io' recv' s y. io' = io \<longrightarrow> recv' = recv \<longrightarrow> P s (fst y) (snd y)"
  have "?Q io recv s (r, s')"
  proof (rule recv_loop.raw_induct [where P = ?Q, OF _ assms(1)], intro impI)
    fix loop io' recv' and s :: "zmq_end \<times> 'b" and y
    assume IH: "\<And>io recv s y. loop io recv s = Some y \<Longrightarrow> ?Q io recv s y" and eq: "io' = io" "recv' = recv"
      and body: "(case recv' s of
         (Inl e, s1) \<Rightarrow> Some (Inl e, s1)
       | (Inr frame, s1) \<Rightarrow>
           (case decode_frame io' frame (fst s1) of
              (Inl e, z) \<Rightarrow> Some (Inl e, (z, snd s1))
            | (Inr (Some item), z) \<Rightarrow> Some (Inr item, (z, snd s1))
            | (Inr None, z) \<Rightarrow> loop io' recv' (z, snd s1))) = Some y"
    obtain x s1 where x: "recv s = (x, s1)" by (cases "recv s")
    show "P s (fst y) (snd y)"
    proof (cases x)
      case (Inl e)
      with body x eq have "y = (Inl e, s1)" by simp
      with assms(2) x Inl show ?thesis by simp
    next
      case (Inr f)
      obtain d z where d: "decode_frame io f (fst s1) = (d, z)" by (cases "decode_frame io f (fst s1)")
      show ?thesis
      proof (cases "d = Inr None")
        case True
        with body x Inr d eq have "loop io recv (z, snd s1) = Some y" by simp
        from IH [OF this] assms(4) [of s f s1 z] x Inr d True show ?thesis by simp
      next
        case False
        with body x Inr d eq have "y = (map_sum id the d, (z, snd s1))" by (auto split: sum.splits option.splits)
        with assms(3) [of s f s1 d z] x Inr d False show ?thesis by simp
      qed
    qed
  qed
  then show ?thesis by simp
qed

lemma zmq_recv_nowait_Inl: "zmq_recv_nowait rx w = (Inl e, w') \<Longrightarrow> \<exists>e'. rx w = (Inl e', w')"
  by (cases "rx w"; cases "fst (rx w)") (auto simp: zmq_recv_nowait_def translated_def)

lemma zmq_recv_nowait_Inr: "zmq_recv_nowait rx w = (Inr f, w') \<longleftrightarrow> rx w = (Inr f, w')"
  by (cases "rx w"; cases "fst (rx w)") (auto simp: zmq_recv_nowait_def translated_def)

lemma beside_eq: "beside m s = (x, s') \<longleftrightarrow> m (snd s) = (x, snd s') \<and> fst s' = fst s"
  by (cases s'; cases "m (snd s)") (auto simp: beside_def)

section \<open>The link\<close>

locale frame_link =
  fixes sio rio :: "('a, 's) zmq_io"
    and down up :: "'s \<Rightarrow> bytes list"
  assumes tx: "io_send_nowait sio f w = (r, w') \<Longrightarrow>
      down w' = (if r = Inr () then down w @ [f] else down w) \<and> up w' = up w"
    and rx: "io_recv_nowait rio w = (y, w') \<Longrightarrow>
      (case y of Inr f \<Rightarrow> down w = f # down w' | Inl _ \<Rightarrow> down w' = down w) \<and> up w' = up w"
    and control_tx: "io_send_nowait rio f w = (r, w') \<Longrightarrow>
      up w' = (if r = Inr () then up w @ [f] else up w) \<and> down w' = down w"
    and control_rx: "io_recv_nowait sio w = (y, w') \<Longrightarrow>
      (case y of Inr f \<Rightarrow> up w = f # up w' | Inl _ \<Rightarrow> up w' = up w) \<and> down w' = down w"

locale lingering_link = frame_link sio rio down up
  for sio rio :: "('a, 's) zmq_io" and down up :: "'s \<Rightarrow> bytes list" +
  assumes linger: "(\<exists>lost. down w = down (io_close sio l w) @ lost) \<and> up (io_close sio l w) = up w"
    and recv_closed: "up (io_close rio l w) = up w"
    and checkpoint: "io_checkpoint io s = (r, s') \<Longrightarrow> io = sio \<or> io = rio \<Longrightarrow>
      fst s' = fst s \<and> down (snd s') = down (snd s) \<and> up (snd s') = up (snd s)"
    and serde: "io_encode sio x = Inr b \<Longrightarrow> io_decode rio b = Inr x"

text \<open>A linger that is long enough loses nothing.\<close>

locale pair_link = lingering_link sio rio down up
  for sio rio :: "('a, 's) zmq_io" and down up :: "'s \<Rightarrow> bytes list" +
  assumes send_closed: "down (io_close sio l w) = down w"

text \<open>A run of the two owners: what was accepted, what was received, both endpoints and the link.\<close>

type_synonym ('a, 's) link_st = "'a list \<times> 'a list \<times> zmq_end \<times> zmq_end \<times> 's"

inductive link_step :: "('a, 's) zmq_io \<Rightarrow> ('a, 's) zmq_io \<Rightarrow> zmq_config \<Rightarrow> ('a, 's) link_st \<Rightarrow> ('a, 's) link_st \<Rightarrow> bool"
  for sio rio cfg where
  send: "zs_send_nowait sio x (zs, w) = Some (r, (zs', w')) \<Longrightarrow>
    link_step sio rio cfg (acc, rcv, zs, zr, w) (if r = Inr () then acc @ [x] else acc, rcv, zs', zr, w')"
| receive: "zr_receive_nowait rio (zr, w) = Some (r, (zr', w')) \<Longrightarrow>
    link_step sio rio cfg (acc, rcv, zs, zr, w) (acc, case r of Inr x \<Rightarrow> rcv @ [x] | Inl _ \<Rightarrow> rcv, zs, zr', w')"
| close_send: "zs_aclose sio cfg (zs, w) = Some (r, (zs', w')) \<Longrightarrow>
    link_step sio rio cfg (acc, rcv, zs, zr, w) (acc, rcv, zs', zr, w')"
| close_receive: "zr_aclose rio cfg (zr, w) = (r, (zr', w')) \<Longrightarrow>
    link_step sio rio cfg (acc, rcv, zs, zr, w) (acc, rcv, zs, zr', w')"

context frame_link begin

text \<open>The drain takes frames off the control direction only, and moves no flag but \<open>peer_closed\<close>.\<close>

lemma drain_spec:
  assumes "drain_control (io_recv_nowait sio) s = Some (r, s')"
  shows "down (snd s') = down (snd s) \<and> ze_closed (fst s') = ze_closed (fst s) \<and> ze_busy (fst s') = ze_busy (fst s) \<and>
    set (up (snd s')) \<subseteq> set (up (snd s))"
  using assms
proof (induction rule: drain_control_induct)
  case (stopped z w e w')
  from zmq_recv_nowait_Inl [OF stopped] obtain e' where "io_recv_nowait sio w = (Inl e', w')" ..
  from control_rx [OF this] show ?case by simp
next
  case (frame z w f w' r s')
  have "io_recv_nowait sio w = (Inr f, w')" using frame.hyps by (simp add: zmq_recv_nowait_Inr)
  from control_rx [OF this] frame.IH show ?case by auto
qed

lemma control_spec:
  assumes "send_control_nowait (io_send_nowait sio) f w = (r, w')"
  shows "(down w' = down w \<or> down w' = down w @ [f])"
proof -
  obtain y w2 where t: "io_send_nowait sio f w = (y, w2)" by (cases "io_send_nowait sio f w")
  with assms have "w' = w2" by (auto simp: send_control_nowait_def split: sum.splits)
  with tx [OF t] show ?thesis by auto
qed

text \<open>A send that does not block puts one frame on the link or leaves it as it was.\<close>

lemma send_nowait_cases:
  assumes "zs_send_nowait sio x (zs, w) = Some (r, (zs', w'))"
  obtains (accepted) b where "r = Inr ()" "\<not> ze_closed zs" "\<not> ze_busy zs" "ze_closed zs' = ze_closed zs" "ze_busy zs' = ze_busy zs"
      "io_encode sio x = Inr b" "down w' = down w @ [DATA @ b]"
  | (refused) "r \<noteq> Inr ()" "ze_closed zs' = ze_closed zs" "ze_busy zs' = ze_busy zs" "down w' = down w"
proof (cases "ze_busy zs \<or> ze_closed zs")
  case True
  with assms refused show thesis by (auto simp: zs_send_nowait_def split: if_splits)
next
  case False
  obtain r1 s1 where d: "drain_control (io_recv_nowait sio) (zs, w) = Some (r1, s1)"
    using assms False by (cases "drain_control (io_recv_nowait sio) (zs, w)") (auto simp: zs_send_nowait_def thenO_def)
  note ds = drain_spec [OF d, simplified]
  show thesis
  proof (cases "r1 = Inr () \<and> \<not> ze_peer_closed (fst s1) \<and> (\<exists>b. io_encode sio x = Inr b)")
    case True
    then obtain b where b: "r1 = Inr ()" "\<not> ze_peer_closed (fst s1)" "io_encode sio x = Inr b" by blast
    obtain y w2 where t: "io_send_nowait sio (DATA @ b) (snd s1) = (y, w2)"
      by (cases "io_send_nowait sio (DATA @ b) (snd s1)")
    have "r = Inr () \<longleftrightarrow> y = Inr ()" "w' = w2" "zs' = fst s1"
      using assms False d b t by (auto simp: zs_send_nowait_def thenO_def beside_def translated_def map_sum_def split: sum.splits)
    with tx [OF t] ds b(3) False accepted refused show thesis by (cases "r = Inr ()") auto
  next
    case stopped: False
    then have "r \<noteq> Inr ()" "w' = snd s1" "zs' = fst s1" using assms False d
      by (cases r1; auto simp: zs_send_nowait_def thenO_def split: if_splits sum.splits)+
    with ds refused show thesis by simp
  qed
qed

end

section \<open>A series of items\<close>

text \<open>Sends that do not block, all of which are accepted, and as many receives, with how each ended.\<close>

fun send_all :: "('a, 's) zmq_io \<Rightarrow> 'a list \<Rightarrow> 's zst \<Rightarrow> 's zst option" where
  "send_all io [] s = Some s"
| "send_all io (x # xs) s = (case zs_send_nowait io x s of
     Some (Inr _, s1) \<Rightarrow> send_all io xs s1 | _ \<Rightarrow> None)"

fun receive_many :: "('a, 's) zmq_io \<Rightarrow> nat \<Rightarrow> 's zst \<Rightarrow> ((exn + 'a) list \<times> 's zst) option" where
  "receive_many io 0 s = Some ([], s)"
| "receive_many io (Suc n) s = (case zr_receive_nowait io s of
     None \<Rightarrow> None
   | Some (r, s1) \<Rightarrow> map_option (\<lambda>(rs, s2). (r # rs, s2)) (receive_many io n s1))"

text \<open>A data frame is taken off the link and decoded, whatever the bytes of its payload.\<close>

lemma receive_data:
  assumes "\<not> ze_busy z \<and> \<not> ze_closed z \<and> \<not> ze_peer_closed z" "io_recv_nowait io w = (Inr (DATA @ b), w')"
    and "\<forall>e. io_decode io b = Inl e \<longrightarrow> \<not> is_zmq_error e"
  shows "zr_receive_nowait io (z, w) = Some (io_decode io b, (z, w'))"
proof -
  have "beside (zmq_recv_nowait (io_recv_nowait io)) (z, w) = (Inr (DATA @ b), (z, w'))"
    using assms(2) by (simp add: beside_eq zmq_recv_nowait_Inr)
  moreover have "decode_frame io (DATA @ b) z = (map_sum id Some (io_decode io b), z)"
    by (simp add: decode_frame_def DATA_def)
  ultimately have "recv_loop io (beside (zmq_recv_nowait (io_recv_nowait io))) (z, w) = Some (io_decode io b, (z, w'))"
    by (subst recv_loop.simps) (cases "io_decode io b"; simp)
  with assms(1,3) show ?thesis by (cases "io_decode io b") (auto simp: zr_receive_nowait_def)
qed

context frame_link begin

lemma send_all_frames:
  assumes "send_all sio xs (zs, w) = Some (zs', w')"
  shows "\<exists>bs. list_all2 (\<lambda>x b. io_encode sio x = Inr b) xs bs \<and> down w' = down w @ map (\<lambda>b. DATA @ b) bs"
  using assms
proof (induction xs arbitrary: zs w)
  case (Cons x xs)
  then obtain zs1 w1 where one: "zs_send_nowait sio x (zs, w) = Some (Inr (), (zs1, w1))"
    and rest: "send_all sio xs (zs1, w1) = Some (zs', w')"
    by (auto split: option.splits sum.splits prod.splits)
  from Cons.IH [OF rest] obtain bs where bs: "list_all2 (\<lambda>x b. io_encode sio x = Inr b) xs bs"
    "down w' = down w1 @ map (\<lambda>b. DATA @ b) bs" by blast
  from one show ?case
  proof (cases rule: send_nowait_cases)
    case (accepted b)
    with bs show ?thesis by (intro exI [of _ "b # bs"]) simp
  qed simp
qed simp

lemma receive_many_frames:
  assumes prompt: "\<forall>v. down v \<noteq> [] \<longrightarrow> (\<exists>f v'. io_recv_nowait rio v = (Inr f, v'))"
    and dec: "\<forall>b e. io_decode rio b = Inl e \<longrightarrow> \<not> is_zmq_error e"
    and z: "\<not> ze_busy z \<and> \<not> ze_closed z \<and> \<not> ze_peer_closed z" and w: "down w = map (\<lambda>b. DATA @ b) bs"
  shows "\<exists>w'. receive_many rio (length bs) (z, w) = Some (map (io_decode rio) bs, (z, w')) \<and> down w' = []"
  using w
proof (induction bs arbitrary: w)
  case (Cons b bs)
  have "down w \<noteq> []" using Cons.prems by simp
  with prompt obtain f w1 where get: "io_recv_nowait rio w = (Inr f, w1)" by blast
  from rx [OF get] Cons.prems have f: "f = DATA @ b" and w1: "down w1 = map (\<lambda>b. DATA @ b) bs" by simp_all
  from dec have "\<forall>e. io_decode rio b = Inl e \<longrightarrow> \<not> is_zmq_error e" by blast
  from receive_data [OF z get [unfolded f] this] Cons.IH [OF w1] show ?case by fastforce
qed simp

end

section \<open>Calls that do not block, and closes\<close>

context pair_link begin

definition link_inv :: "('a, 's) link_st \<Rightarrow> bool" where
  "link_inv t \<longleftrightarrow> (case t of (acc, rcv, zs, zr, w) \<Rightarrow>
     (\<exists>pending. acc = rcv @ pending \<and>
       (ze_peer_closed zr \<longrightarrow> pending = [] \<and> ze_closed zs) \<and>
       (\<not> ze_closed zr \<and> \<not> ze_peer_closed zr \<longrightarrow>
          (\<exists>ps tail. down w = map (\<lambda>b. DATA @ b) ps @ tail \<and> list_all2 (\<lambda>b x. io_encode sio x = Inr b) ps pending \<and>
             (tail = [] \<or> tail = [EOF] \<and> ze_closed zs)))))"

lemma inv_send:
  assumes inv: "link_inv (acc, rcv, zs, zr, w)" and run: "zs_send_nowait sio x (zs, w) = Some (r, (zs', w'))"
  shows "link_inv (if r = Inr () then acc @ [x] else acc, rcv, zs', zr, w')"
  using run
proof (cases rule: send_nowait_cases)
  case refused
  with inv show ?thesis by (simp add: link_inv_def)
next
  case (accepted b)
  from inv obtain pending where p: "acc = rcv @ pending" "ze_peer_closed zr \<longrightarrow> pending = [] \<and> ze_closed zs"
    "\<not> ze_closed zr \<and> \<not> ze_peer_closed zr \<longrightarrow> (\<exists>ps tail. down w = map (\<lambda>b. DATA @ b) ps @ tail \<and>
       list_all2 (\<lambda>b x. io_encode sio x = Inr b) ps pending \<and> (tail = [] \<or> tail = [EOF] \<and> ze_closed zs))"
    unfolding link_inv_def prod.case by blast
  have "\<exists>ps tail. down w' = map (\<lambda>b. DATA @ b) ps @ tail \<and>
      list_all2 (\<lambda>b x. io_encode sio x = Inr b) ps (pending @ [x]) \<and> (tail = [] \<or> tail = [EOF] \<and> ze_closed zs')"
    if "\<not> ze_closed zr \<and> \<not> ze_peer_closed zr"
  proof -
    from p(3) that accepted obtain ps where "down w = map (\<lambda>b. DATA @ b) ps"
      "list_all2 (\<lambda>b x. io_encode sio x = Inr b) ps pending" by auto
    with accepted show ?thesis
      by (intro exI [of _ "ps @ [b]"] exI [of _ "[]"]) (simp add: list_all2_appendI)
  qed
  with p(1,2) accepted show ?thesis
    unfolding link_inv_def by (auto intro!: exI [of _ "pending @ [x]"])
qed

text \<open>A frame that arrives at an open receiver is the next pending item, or the end after the last one.\<close>

lemma next_frame:
  assumes inv: "link_inv (acc, rcv, zs, fst s, snd s)" and opened: "\<not> ze_closed (fst s) \<and> \<not> ze_peer_closed (fst s)"
    and get: "beside (zmq_recv_nowait (io_recv_nowait rio)) s = (Inr f, s1)"
  obtains (data) b y ys ps tail where "f = DATA @ b" "io_decode rio b = Inr y" "acc = (rcv @ [y]) @ ys" "fst s1 = fst s"
      "down (snd s1) = map (\<lambda>b. DATA @ b) ps @ tail" "list_all2 (\<lambda>b x. io_encode sio x = Inr b) ps ys"
      "tail = [] \<or> tail = [EOF] \<and> ze_closed zs"
  | (eof) "f = EOF" "acc = rcv" "ze_closed zs" "fst s1 = fst s"
proof -
  from get have s1: "fst s1 = fst s" "io_recv_nowait rio (snd s) = (Inr f, snd s1)"
    by (simp_all add: beside_eq zmq_recv_nowait_Inr)
  from rx [OF s1(2)] have d: "down (snd s) = f # down (snd s1)" by simp
  from inv opened obtain pending ps tail where p: "acc = rcv @ pending" "down (snd s) = map (\<lambda>b. DATA @ b) ps @ tail"
    "list_all2 (\<lambda>b x. io_encode sio x = Inr b) ps pending" "tail = [] \<or> tail = [EOF] \<and> ze_closed zs"
    unfolding link_inv_def prod.case by blast
  show thesis
  proof (cases ps)
    case Nil
    with p d have "f = EOF" "ze_closed zs" "acc = rcv" by auto
    with eof s1 show thesis by blast
  next
    case (Cons b qs)
    with p(3) obtain y ys where y: "pending = y # ys" "io_encode sio y = Inr b" "list_all2 (\<lambda>b x. io_encode sio x = Inr b) qs ys"
      by (auto simp: list_all2_Cons1)
    show thesis
      by (rule data [of b y ys qs tail]) (use Cons p d y s1 serde [OF y(2)] in auto)
  qed
qed

text \<open>Receiving.\<close>

lemma inv_receive:
  assumes inv: "link_inv (acc, rcv, zs, zr, w)" and run: "zr_receive_nowait rio (zr, w) = Some (r, (zr', w'))"
  shows "link_inv (acc, case r of Inr x \<Rightarrow> rcv @ [x] | Inl _ \<Rightarrow> rcv, zs, zr', w')"
proof (cases "ze_busy zr \<or> ze_closed zr \<or> ze_peer_closed zr")
  case True
  with run have "zr' = zr" "w' = w" "\<exists>e. r = Inl e" by (auto simp: zr_receive_nowait_def split: if_splits)
  with inv show ?thesis by auto
next
  case False
  then obtain r1 where loop: "recv_loop rio (beside (zmq_recv_nowait (io_recv_nowait rio))) (zr, w) = Some (r1, (zr', w'))"
    and r: "r = map_sum (\<lambda>e. if is_zmq_error e then EndOfStream else e) id r1"
    using run by (auto simp: zr_receive_nowait_def)
  have "link_inv (acc, case r1 of Inr x \<Rightarrow> rcv @ [x] | Inl _ \<Rightarrow> rcv, zs, fst (zr', w'), snd (zr', w'))"
    if "link_inv (acc, rcv, zs, fst (zr, w), snd (zr, w))" "\<not> ze_closed (fst (zr, w)) \<and> \<not> ze_peer_closed (fst (zr, w))"
    using loop that
  proof (induction rule: recv_loop_induct)
    case (stopped s e s1)
    from stopped.hyps have s1: "fst s1 = fst s" "zmq_recv_nowait (io_recv_nowait rio) (snd s) = (Inl e, snd s1)"
      by (simp_all add: beside_eq)
    from zmq_recv_nowait_Inl [OF s1(2)] obtain e' where "io_recv_nowait rio (snd s) = (Inl e', snd s1)" ..
    from rx [OF this] s1 stopped.prems show ?case by (cases s) (simp add: link_inv_def)
  next
    case (item s f s1 x z)
    show ?case
    proof (cases rule: next_frame [OF item.prems item.hyps(1), case_names data eof])
      case (data b y ys ps tail)
      with item.hyps(2) have "x = Inr (Some y)" "z = fst s" by (auto simp: decode_frame_def DATA_def)
      with data item.prems show ?thesis
        by (simp add: link_inv_def) blast
    next
      case eof
      with item.hyps(2) have "x = Inl EndOfStream" "z = (fst s)\<lparr>ze_peer_closed := True\<rparr>"
        by (auto simp: decode_frame_def DATA_def EOF_def)
      with eof show ?thesis by (simp add: link_inv_def)
    qed
  next
    case (skip s f s1 z r s')
    show ?case
    proof (cases rule: next_frame [OF skip.prems skip.hyps(1), case_names data eof])
      case (data b y ys ps tail)
      with skip.hyps(2) show ?thesis by (auto simp: decode_frame_def DATA_def)
    next
      case eof
      with skip.hyps(2) show ?thesis by (auto simp: decode_frame_def DATA_def EOF_def)
    qed
  qed
  with inv False have "link_inv (acc, case r1 of Inr x \<Rightarrow> rcv @ [x] | Inl _ \<Rightarrow> rcv, zs, zr', w')" by simp
  with r show ?thesis by (cases r1) simp_all
qed

text \<open>Closing.\<close>

lemma inv_close_send:
  assumes inv: "link_inv (acc, rcv, zs, zr, w)" and run: "zs_aclose sio cfg (zs, w) = Some (r, (zs', w'))"
  shows "link_inv (acc, rcv, zs', zr, w')"
proof (cases "ze_closed zs")
  case True
  with run inv show ?thesis by (simp add: zs_aclose_def)
next
  case False
  let ?zs = "zs\<lparr>ze_closed := True\<rparr>"
  obtain r1 s1 where d: "drain_control (io_recv_nowait sio) (?zs, w) = Some (r1, s1)"
    using run False by (cases "drain_control (io_recv_nowait sio) (?zs, w)") (auto simp: zs_aclose_def thenO_def)
  note ds = drain_spec [OF d, simplified]
  have "ze_closed zs' \<and> (down w' = down w \<or> down w' = down w @ [EOF])"
  proof (cases "r1 = Inr () \<and> \<not> ze_peer_closed (fst s1)")
    case False
    then have "w' = io_close sio (zc_linger_ms cfg) (snd s1)" "zs' = fst s1"
      using run \<open>\<not> ze_closed zs\<close> d by (cases r1; auto simp: zs_aclose_def thenO_def closing_def)+
    with ds send_closed show ?thesis by simp
  next
    case True
    obtain y w2 where c: "send_control_nowait (io_send_nowait sio) EOF (snd s1) = (y, w2)"
      by (cases "send_control_nowait (io_send_nowait sio) EOF (snd s1)")
    obtain q s3 where q: "io_checkpoint sio (fst s1, w2) = (q, s3)" by (cases "io_checkpoint sio (fst s1, w2)")
    have "\<exists>s4. (zs', w') = (fst s4, io_close sio (zc_linger_ms cfg) (snd s4)) \<and> (s4 = (fst s1, w2) \<or> s4 = s3)"
      using run \<open>\<not> ze_closed zs\<close> d True c q
      by (cases y) (auto simp: zs_aclose_def thenO_def closing_def beside_def)
    then obtain s4 where s4: "zs' = fst s4" "w' = io_close sio (zc_linger_ms cfg) (snd s4)" "s4 = (fst s1, w2) \<or> s4 = s3"
      by auto
    with checkpoint [OF q] have "fst s4 = fst s1 \<and> down (snd s4) = down w2" by auto
    with s4 ds send_closed control_spec [OF c] show ?thesis by simp
  qed
  then have closed: "ze_closed zs'" and w': "down w' = down w \<or> down w' = down w @ [EOF]" by simp_all
  from inv obtain pending where p: "acc = rcv @ pending" "ze_peer_closed zr \<longrightarrow> pending = [] \<and> ze_closed zs"
    "\<not> ze_closed zr \<and> \<not> ze_peer_closed zr \<longrightarrow> (\<exists>ps tail. down w = map (\<lambda>b. DATA @ b) ps @ tail \<and>
       list_all2 (\<lambda>b x. io_encode sio x = Inr b) ps pending \<and> (tail = [] \<or> tail = [EOF] \<and> ze_closed zs))"
    unfolding link_inv_def prod.case by blast
  have "\<exists>ps tail. down w' = map (\<lambda>b. DATA @ b) ps @ tail \<and>
      list_all2 (\<lambda>b x. io_encode sio x = Inr b) ps pending \<and> (tail = [] \<or> tail = [EOF] \<and> ze_closed zs')"
    if "\<not> ze_closed zr \<and> \<not> ze_peer_closed zr"
  proof -
    from p(3) that False obtain ps where ps: "down w = map (\<lambda>b. DATA @ b) ps"
      "list_all2 (\<lambda>b x. io_encode sio x = Inr b) ps pending" by auto
    from w' show ?thesis
    proof
      assume "down w' = down w"
      with ps show ?thesis by (intro exI [of _ ps] exI [of _ "[]"]) simp
    next
      assume "down w' = down w @ [EOF]"
      with ps closed show ?thesis by (intro exI [of _ ps] exI [of _ "[EOF]"]) simp
    qed
  qed
  with p closed show ?thesis unfolding link_inv_def prod.case by blast
qed

lemma inv_close_receive:
  assumes inv: "link_inv (acc, rcv, zs, zr, w)" and run: "zr_aclose rio cfg (zr, w) = (r, (zr', w'))"
  shows "link_inv (acc, rcv, zs, zr', w')"
proof (cases "ze_closed zr")
  case True
  with run inv show ?thesis by (simp add: zr_aclose_def)
next
  case False
  let ?zr = "zr\<lparr>ze_closed := True\<rparr>"
  obtain y w2 where c: "beside (send_control_nowait (io_send_nowait rio) CLOSE) (?zr, w) = (y, (?zr, w2))"
    by (cases "send_control_nowait (io_send_nowait rio) CLOSE w") (simp add: beside_def)
  obtain q s3 where q: "io_checkpoint rio (?zr, w2) = (q, s3)" by (cases "io_checkpoint rio (?zr, w2)")
  have "zr' = ?zr \<or> zr' = fst s3" using run False c q
    by (cases y) (auto simp: zr_aclose_def closing_def split: prod.splits)
  with checkpoint [OF q] have "zr' = ?zr" by auto
  with inv show ?thesis unfolding link_inv_def prod.case by auto
qed

lemma link_reachable:
  assumes "(link_step sio rio cfg)\<^sup>*\<^sup>* ([], [], zmq_end_new, zmq_end_new, w) t" "down w = []"
  shows "link_inv t"
  using assms(1)
proof (induction rule: rtranclp_induct)
  case base
  with assms(2) show ?case by (simp add: link_inv_def zmq_end_new_def)
next
  case (step t u)
  from step.hyps(2) show ?case
  proof cases
    case (send x zs w r zs' w' acc rcv zr)
    with step.IH inv_send show ?thesis by blast
  next
    case (receive zr w r zr' w' acc rcv zs)
    with step.IH inv_receive show ?thesis by blast
  next
    case (close_send zs w r zs' w' acc rcv zr)
    with step.IH inv_close_send show ?thesis by blast
  next
    case (close_receive zr w r zr' w' acc rcv zs)
    with step.IH inv_close_receive show ?thesis by blast
  qed
qed

end

section \<open>A link that does what is documented\<close>

text \<open>Two lists of at most \<open>cap\<close> frames; items are bytes already.\<close>

record pipe =
  pp_down :: "bytes list"
  pp_up :: "bytes list"

definition pipe_new :: pipe where
  "pipe_new = \<lparr>pp_down = [], pp_up = []\<rparr>"

definition pipe_sio :: "nat \<Rightarrow> (bytes, pipe) zmq_io" where
  "pipe_sio cap = \<lparr>
     io_recv_nowait = (\<lambda>w. case pp_up w of [] \<Rightarrow> (Inl ZmqAgain, w) | f # fs \<Rightarrow> (Inr f, w\<lparr>pp_up := fs\<rparr>)),
     io_send_nowait = (\<lambda>f w. if length (pp_down w) < cap then (Inr (), w\<lparr>pp_down := pp_down w @ [f]\<rparr>) else (Inl ZmqAgain, w)),
     io_recv = (\<lambda>s. case pp_up (snd s) of [] \<Rightarrow> (Inl Cancelled, s) | f # fs \<Rightarrow> (Inr f, (fst s, (snd s)\<lparr>pp_up := fs\<rparr>))),
     io_send = (\<lambda>f s. if length (pp_down (snd s)) < cap then (Inr (), (fst s, (snd s)\<lparr>pp_down := pp_down (snd s) @ [f]\<rparr>)) else (Inl Cancelled, s)),
     io_close = (\<lambda>l w. w), io_checkpoint = ret (), io_encode = Inr, io_decode = Inr\<rparr>"

definition pipe_rio :: "nat \<Rightarrow> (bytes, pipe) zmq_io" where
  "pipe_rio cap = \<lparr>
     io_recv_nowait = (\<lambda>w. case pp_down w of [] \<Rightarrow> (Inl ZmqAgain, w) | f # fs \<Rightarrow> (Inr f, w\<lparr>pp_down := fs\<rparr>)),
     io_send_nowait = (\<lambda>f w. if length (pp_up w) < cap then (Inr (), w\<lparr>pp_up := pp_up w @ [f]\<rparr>) else (Inl ZmqAgain, w)),
     io_recv = (\<lambda>s. case pp_down (snd s) of [] \<Rightarrow> (Inl Cancelled, s) | f # fs \<Rightarrow> (Inr f, (fst s, (snd s)\<lparr>pp_down := fs\<rparr>))),
     io_send = (\<lambda>f s. if length (pp_up (snd s)) < cap then (Inr (), (fst s, (snd s)\<lparr>pp_up := pp_up (snd s) @ [f]\<rparr>)) else (Inl Cancelled, s)),
     io_close = (\<lambda>l w. w), io_checkpoint = ret (), io_encode = Inr, io_decode = Inr\<rparr>"

interpretation pipe: pair_link "pipe_sio cap" "pipe_rio cap" pp_down pp_up for cap
  by unfold_locales (auto simp: pipe_sio_def pipe_rio_def split: if_splits list.splits)

end
