(* ===== verification/ZmqTasks.thy ===== *)
theory ZmqTasks imports ZmqLink "HOL-Library.Sublist" begin

text \<open>
  The ZeroMQ channel between tasks that block: the calls of \<open>transports/zmq.py\<close> taken apart at their
  awaits, so that other tasks send, receive, are cancelled and close in between.

  A blocking \<open>send\<close> has three parts: the guards, the drain of the control frames after the
  checkpoint, and the socket's \<open>send\<close>, which pyzmq documents as the non-blocking one made as soon as it
  does not raise Again.  A \<open>receive\<close> waits for frames.  An \<open>aclose\<close> writes its frame at once and closes
  the socket after a checkpoint; on a closed socket every call raises.
\<close>

section \<open>The calls in parts\<close>

text \<open>Where the task inside \<open>send\<close> is: at the checkpoint, or waiting for the socket with its frame.\<close>

datatype 'a outgoing = NoSend | Entered 'a | Queued 'a bytes

text \<open>
  \<open>zl_s_open\<close> and \<open>zl_r_open\<close>: the socket has not been closed.  The last three fields are auxiliary:
  the items whose \<open>send\<close> succeeded before the sender's \<open>aclose\<close> was called, those after, and what was
  received.
\<close>

record ('a, 's) zlink =
  zl_send :: zmq_end
  zl_recv :: zmq_end
  zl_sending :: "'a outgoing"
  zl_receiving :: bool
  zl_s_open :: bool
  zl_r_open :: bool
  zl_world :: 's
  zl_accepted :: "'a list"
  zl_late :: "'a list"
  zl_received :: "'a list"

definition zl_new :: "'s \<Rightarrow> ('a, 's) zlink" where
  "zl_new w = \<lparr>zl_send = zmq_end_new, zl_recv = zmq_end_new, zl_sending = NoSend, zl_receiving = False,
     zl_s_open = True, zl_r_open = True, zl_world = w, zl_accepted = [], zl_late = [], zl_received = []\<rparr>"

definition zt_accept :: "'a \<Rightarrow> ('a, 's) zlink \<Rightarrow> ('a, 's) zlink" where
  "zt_accept x z = (if ze_closed (zl_send z) then z\<lparr>zl_late := zl_late z @ [x]\<rparr>
     else z\<lparr>zl_accepted := zl_accepted z @ [x]\<rparr>)"

definition zt_send_begin :: "'a \<Rightarrow> ('a, 's) zlink \<Rightarrow> exn + ('a, 's) zlink" where
  "zt_send_begin x z =
     (if ze_busy (zl_send z) then Inl ChannelInUse
      else if ze_closed (zl_send z) then Inl ChannelClosed
      else Inr (z\<lparr>zl_send := (zl_send z)\<lparr>ze_busy := True\<rparr>, zl_sending := Entered x\<rparr>))"

definition zt_send_end :: "('a, 's) zlink \<Rightarrow> ('a, 's) zlink" where
  "zt_send_end z = z\<lparr>zl_send := (zl_send z)\<lparr>ze_busy := False\<rparr>, zl_sending := NoSend\<rparr>"

definition zt_send_error :: "exn \<Rightarrow> exn" where
  "zt_send_error e = (if is_zmq_error e then ChannelClosed else e)"

text \<open>After the checkpoint; the inner \<open>None\<close>: the task goes on to the socket's \<open>send\<close>.\<close>

definition zt_send_go :: "('a, 's) zmq_io \<Rightarrow> 'a \<Rightarrow> ('a, 's) zlink \<Rightarrow> ((exn + unit) option \<times> ('a, 's) zlink) option" where
  "zt_send_go io x z = map_option (\<lambda>(r, zs, w).
     let z1 = z\<lparr>zl_send := zs, zl_world := w\<rparr> in
     case r of
       Inl e \<Rightarrow> (Some (Inl (zt_send_error e)), zt_send_end z1)
     | Inr _ \<Rightarrow>
         if ze_peer_closed zs then (Some (Inl ChannelClosed), zt_send_end z1)
         else case io_encode io x of
           Inl e \<Rightarrow> (Some (Inl (zt_send_error e)), zt_send_end z1)
         | Inr b \<Rightarrow> (None, z1\<lparr>zl_sending := Queued x (DATA @ b)\<rparr>))
     (drain_control (io_recv_nowait io) (zl_send z, zl_world z))"

text \<open>An attempt of the socket; \<open>None\<close>: the task goes on waiting.\<close>

definition zt_send_try ::
  "('a, 's) zmq_io \<Rightarrow> 'a \<Rightarrow> bytes \<Rightarrow> ('a, 's) zlink \<Rightarrow> (exn + unit) option \<times> ('a, 's) zlink" where
  "zt_send_try io x f z = (case io_send_nowait io f (zl_world z) of
     (Inr _, w) \<Rightarrow> (Some (Inr ()), zt_send_end (zt_accept x (z\<lparr>zl_world := w\<rparr>)))
   | (Inl e, w) \<Rightarrow>
       if e = ZmqAgain then (None, z\<lparr>zl_world := w\<rparr>)
       else (Some (Inl (zt_send_error e)), zt_send_end (z\<lparr>zl_world := w\<rparr>)))"

definition zt_recv_begin :: "('a, 's) zlink \<Rightarrow> exn + ('a, 's) zlink" where
  "zt_recv_begin z =
     (if ze_busy (zl_recv z) then Inl ChannelInUse
      else if ze_closed (zl_recv z) \<or> ze_peer_closed (zl_recv z) then Inl EndOfStream
      else Inr (z\<lparr>zl_recv := (zl_recv z)\<lparr>ze_busy := True\<rparr>, zl_receiving := True\<rparr>))"

definition zt_recv_end :: "('a, 's) zlink \<Rightarrow> ('a, 's) zlink" where
  "zt_recv_end z = z\<lparr>zl_recv := (zl_recv z)\<lparr>ze_busy := False\<rparr>, zl_receiving := False\<rparr>"

definition zt_recv_error :: "exn \<Rightarrow> exn" where
  "zt_recv_error e = (if is_zmq_error e then EndOfStream else e)"

definition zt_recv_try :: "('a, 's) zmq_io \<Rightarrow> ('a, 's) zlink \<Rightarrow> (exn + 'a) option \<times> ('a, 's) zlink" where
  "zt_recv_try io z = (case io_recv_nowait io (zl_world z) of
     (Inl e, w) \<Rightarrow>
       if e = ZmqAgain then (None, z\<lparr>zl_world := w\<rparr>)
       else (Some (Inl (zt_recv_error e)), zt_recv_end (z\<lparr>zl_world := w\<rparr>))
   | (Inr frame, w) \<Rightarrow>
       (case decode_frame io frame (zl_recv z) of
          (Inl e, zr) \<Rightarrow> (Some (Inl (zt_recv_error e)), zt_recv_end (z\<lparr>zl_recv := zr, zl_world := w\<rparr>))
        | (Inr (Some x), zr) \<Rightarrow>
            (Some (Inr x), zt_recv_end (z\<lparr>zl_recv := zr, zl_world := w, zl_received := zl_received z @ [x]\<rparr>))
        | (Inr None, zr) \<Rightarrow> (None, z\<lparr>zl_recv := zr, zl_world := w\<rparr>)))"

text \<open>The calls that do not block.\<close>

definition zt_send_now :: "('a, 's) zmq_io \<Rightarrow> 'a \<Rightarrow> ('a, 's) zlink \<Rightarrow> ((exn + unit) \<times> ('a, 's) zlink) option" where
  "zt_send_now io x z = map_option (\<lambda>(r, zs, w).
     (r, (if r = Inr () then zt_accept x else id) (z\<lparr>zl_send := zs, zl_world := w\<rparr>)))
     (zs_send_nowait io x (zl_send z, zl_world z))"

definition zt_receive_now :: "('a, 's) zmq_io \<Rightarrow> ('a, 's) zlink \<Rightarrow> ((exn + 'a) \<times> ('a, 's) zlink) option" where
  "zt_receive_now io z = map_option (\<lambda>(r, zr, w).
     (r, z\<lparr>zl_recv := zr, zl_world := w,
           zl_received := (case r of Inr x \<Rightarrow> zl_received z @ [x] | Inl _ \<Rightarrow> zl_received z)\<rparr>))
     (zr_receive_nowait io (zl_recv z, zl_world z))"

text \<open>The first part of each \<open>aclose\<close>; the second closes the socket.\<close>

definition zt_close_send :: "('a, 's) zmq_io \<Rightarrow> ('a, 's) zlink \<Rightarrow> ('a, 's) zlink option" where
  "zt_close_send io z =
     (if ze_closed (zl_send z) then Some z
      else map_option (\<lambda>(r, zs, w).
        z\<lparr>zl_send := zs,
          zl_world := (if r = Inr () \<and> \<not> ze_peer_closed zs
             then snd (send_control_nowait (io_send_nowait io) EOF w) else w)\<rparr>)
        (drain_control (io_recv_nowait io) ((zl_send z)\<lparr>ze_closed := True\<rparr>, zl_world z)))"

definition zt_close_recv :: "('a, 's) zmq_io \<Rightarrow> ('a, 's) zlink \<Rightarrow> ('a, 's) zlink" where
  "zt_close_recv io z =
     (if ze_closed (zl_recv z) then z
      else z\<lparr>zl_recv := (zl_recv z)\<lparr>ze_closed := True\<rparr>,
             zl_world := snd (send_control_nowait (io_send_nowait io) CLOSE (zl_world z))\<rparr>)"

section \<open>The steps\<close>

inductive zt_step ::
  "('a, 's) zmq_io \<Rightarrow> ('a, 's) zmq_io \<Rightarrow> zmq_config \<Rightarrow> ('a, 's) zlink \<Rightarrow> ('a, 's) zlink \<Rightarrow> bool"
  for sio rio cfg where
  send_begins: "zt_send_begin x z = Inr z' \<Longrightarrow> zt_step sio rio cfg z z'"
| send_goes: "zl_sending z = Entered x \<Longrightarrow> zl_s_open z \<Longrightarrow> zt_send_go sio x z = Some (r, z') \<Longrightarrow> zt_step sio rio cfg z z'"
| send_tries: "zl_sending z = Queued x f \<Longrightarrow> zl_s_open z \<Longrightarrow> zt_send_try sio x f z = (r, z') \<Longrightarrow> zt_step sio rio cfg z z'"
| send_fails: "zl_sending z \<noteq> NoSend \<Longrightarrow> zt_step sio rio cfg z (zt_send_end z)"
| recv_begins: "zt_recv_begin z = Inr z' \<Longrightarrow> zt_step sio rio cfg z z'"
| recv_tries: "zl_receiving z \<Longrightarrow> zl_r_open z \<Longrightarrow> zt_recv_try rio z = (r, z') \<Longrightarrow> zt_step sio rio cfg z z'"
| recv_fails: "zl_receiving z \<Longrightarrow> zt_step sio rio cfg z (zt_recv_end z)"
| nowait_send: "zt_send_now sio x z = Some (r, z') \<Longrightarrow> zt_step sio rio cfg z z'"
| nowait_receive: "zt_receive_now rio z = Some (r, z') \<Longrightarrow> zt_step sio rio cfg z z'"
| closes_send: "zt_close_send sio z = Some z' \<Longrightarrow> zt_step sio rio cfg z z'"
| socket_send: "ze_closed (zl_send z) \<Longrightarrow> zl_s_open z \<Longrightarrow>
    zt_step sio rio cfg z (z\<lparr>zl_s_open := False, zl_world := io_close sio (zc_linger_ms cfg) (zl_world z)\<rparr>)"
| closes_recv: "zt_step sio rio cfg z (zt_close_recv rio z)"
| socket_recv: "ze_closed (zl_recv z) \<Longrightarrow> zl_r_open z \<Longrightarrow>
    zt_step sio rio cfg z (z\<lparr>zl_r_open := False, zl_world := io_close rio (zc_linger_ms cfg) (zl_world z)\<rparr>)"

text \<open>\<open>send_fails\<close> and \<open>recv_fails\<close> are a cancellation, or a closed socket.\<close>

section \<open>The parts make up the call\<close>

lemma zt_send_in_parts:
  assumes "zt_send_begin x z = Inr z1" "zt_send_go io x z1 = Some (q, z2)"
    and "q = None \<Longrightarrow> zl_sending z2 = Queued x f \<and> zt_send_try io x f z2 = (Some r, z3)"
    and "q \<noteq> None \<Longrightarrow> q = Some r \<and> z3 = z2"
  shows "zs_send (io\<lparr>io_checkpoint := ret (), io_send := \<lambda>f. beside (io_send_nowait io f)\<rparr>) x (zl_send z, zl_world z) =
    Some (r, (zl_send z3, zl_world z3))"
proof -
  let ?zs = "(zl_send z)\<lparr>ze_busy := True\<rparr>"
  from assms(1) have free: "\<not> ze_busy (zl_send z)" "\<not> ze_closed (zl_send z)"
    and z1: "z1 = z\<lparr>zl_send := ?zs, zl_sending := Entered x\<rparr>"
    by (auto simp: zt_send_begin_def split: if_splits)
  from assms(2) z1 obtain d zs w where d: "drain_control (io_recv_nowait io) (?zs, zl_world z) = Some (d, (zs, w))"
    by (auto simp: zt_send_go_def)
  show ?thesis
    using assms(2-4) free d z1
    by (cases d; cases "io_encode io x"; cases "io_send_nowait io f w"; cases "fst (io_send_nowait io f w)")
      (auto simp: zt_send_go_def zs_send_def zs_send_body_def thenO_def release_def zt_send_try_def zt_send_end_def
        zt_send_error_def zt_accept_def beside_def Let_def split: if_splits)
qed

lemma zt_receive_in_parts:
  assumes "zt_recv_begin z = Inr z1" "zt_recv_try io z1 = (Some r, z2)"
  shows "zr_receive (io\<lparr>io_recv := beside (io_recv_nowait io)\<rparr>) (zl_recv z, zl_world z) =
    Some (r, (zl_recv z2, zl_world z2))"
proof -
  let ?zr = "(zl_recv z)\<lparr>ze_busy := True\<rparr>"
  let ?io = "io\<lparr>io_recv := beside (io_recv_nowait io)\<rparr>"
  from assms(1) have free: "\<not> ze_busy (zl_recv z)" "\<not> ze_closed (zl_recv z)" "\<not> ze_peer_closed (zl_recv z)"
    and z1: "z1 = z\<lparr>zl_recv := ?zr, zl_receiving := True\<rparr>"
    by (auto simp: zt_recv_begin_def split: if_splits)
  have dec: "decode_frame ?io f e = decode_frame io f e" for f e by (simp add: decode_frame_def Let_def split: if_split)
  have "map_option (release zt_recv_error) (recv_loop ?io (beside (io_recv_nowait io)) (?zr, zl_world z)) =
      Some (r, (zl_recv z2, zl_world z2))"
    using assms(2) z1
    by (subst recv_loop.simps)
      (auto simp: zt_recv_try_def zt_recv_end_def beside_def release_def dec split: sum.splits prod.splits option.splits if_splits)
  with free show ?thesis by (simp add: zr_receive_def zt_recv_error_def [abs_def])
qed

section \<open>What is under way\<close>

context lingering_link begin

definition frames :: "'a list \<Rightarrow> bytes list" where
  "frames xs = map (\<lambda>x. DATA @ projr (io_encode sio x)) xs"

text \<open>What the link carries; after the sender's socket was closed its end may be missing.\<close>

definition carried :: "bool \<Rightarrow> 's \<Rightarrow> bytes list \<Rightarrow> bool" where
  "carried s_open w fs \<longleftrightarrow> prefix (down w) fs \<and> (s_open \<longrightarrow> down w = fs)"

text \<open>Either the items only, or the end of stream between those accepted before and after the close.\<close>

definition transit :: "'a list \<Rightarrow> 'a list \<Rightarrow> 'a list \<Rightarrow> bool \<Rightarrow> bool \<Rightarrow> 's \<Rightarrow> bool" where
  "transit acc late rcv c s_open w \<longleftrightarrow>
     (\<exists>ys. acc @ late = rcv @ ys \<and> carried s_open w (frames ys)) \<or>
     c \<and> (\<exists>ys. acc = rcv @ ys \<and> carried s_open w (frames ys @ EOF # frames late))"

lemma frames_simps [simp]:
  "frames [] = []" "frames (xs @ ys) = frames xs @ frames ys"
  "frames (x # xs) = (DATA @ projr (io_encode sio x)) # frames xs"
  by (simp_all add: frames_def)

lemma carried_open [simp]: "carried True w fs \<longleftrightarrow> down w = fs"
  by (auto simp: carried_def)

lemma transit_cong: "down w' = down w \<Longrightarrow> transit acc late rcv c b w' = transit acc late rcv c b w"
  by (simp add: transit_def carried_def)

lemma carried_next:
  assumes "io_recv_nowait rio w = (Inr f, w')" "carried b w fs"
  obtains rest where "fs = f # rest" "carried b w' rest"
  using assms(2) rx [OF assms(1)] that by (cases fs) (auto simp: carried_def)

text \<open>What arrives is the next item, or the end after all that was accepted before it.\<close>

lemma arrives:
  assumes "io_recv_nowait rio w = (Inr f, w')" "transit acc late rcv c b w"
    and enc: "\<forall>x \<in> set (acc @ late). \<exists>b. io_encode sio x = Inr b"
  obtains (item) x b' where "f = DATA @ b'" "io_decode rio b' = Inr x" "transit acc late (rcv @ [x]) c b w'"
      "\<exists>ys. acc @ late = (rcv @ [x]) @ ys"
  | (ended) "f = EOF" "c" "rcv = acc"
proof -
  from assms(2) consider (items) ys where "acc @ late = rcv @ ys" "carried b w (frames ys)"
    | (eof) ys where "c" "acc = rcv @ ys" "carried b w (frames ys @ EOF # frames late)"
    unfolding transit_def by blast
  then show thesis
  proof cases
    case items
    from carried_next [OF assms(1) items(2)] obtain rest where r: "frames ys = f # rest" "carried b w' rest" .
    then obtain x xs where x: "ys = x # xs" by (cases ys) auto
    with items(1) enc have "x \<in> set (acc @ late)" by simp
    with enc obtain b' where b': "io_encode sio x = Inr b'" by blast
    have "acc @ late = (rcv @ [x]) @ xs" using items(1) x by simp
    moreover have "carried b w' (frames xs)" using r x by simp
    ultimately have "transit acc late (rcv @ [x]) c b w'" unfolding transit_def by blast
    moreover have "f = DATA @ b'" using r x b' by simp
    ultimately show thesis using item serde [OF b'] items(1) x by simp
  next
    case eof
    from carried_next [OF assms(1) eof(3)] obtain rest where
      r: "frames ys @ EOF # frames late = f # rest" "carried b w' rest" .
    show thesis
    proof (cases ys)
      case Nil
      with r eof ended show thesis by simp
    next
      case (Cons x xs)
      with eof(2) enc obtain b' where b': "io_encode sio x = Inr b'" by auto
      have "acc = (rcv @ [x]) @ xs" using eof(2) Cons by simp
      moreover have "carried b w' (frames xs @ EOF # frames late)" using r Cons by simp
      ultimately have "transit acc late (rcv @ [x]) c b w'" using eof(1) unfolding transit_def by blast
      moreover have "f = DATA @ b'" using r Cons b' by simp
      ultimately show thesis using item serde [OF b'] eof(2) Cons by simp
    qed
  qed
qed

text \<open>An accepted frame joins the end of it.\<close>

lemma transit_accept:
  assumes "transit acc late rcv c True w" "io_encode sio x = Inr b" "down w' = down w @ [DATA @ b]"
  shows "c \<Longrightarrow> transit acc (late @ [x]) rcv c True w'"
    and "\<not> c \<Longrightarrow> late = [] \<Longrightarrow> transit (acc @ [x]) [] rcv c True w'"
proof -
  have snoc: "down w' = fs @ [DATA @ b] \<and> frames (ys @ [x]) = frames ys @ [DATA @ b]" if "down w = fs" for fs ys
    using assms(2,3) that by simp
  show "transit acc (late @ [x]) rcv c True w'" if c
  proof -
    from assms(1) consider (items) ys where "acc @ late = rcv @ ys" "down w = frames ys"
      | (eof) ys where "acc = rcv @ ys" "down w = frames ys @ EOF # frames late"
      unfolding transit_def carried_open by blast
    then show ?thesis
    proof cases
      case items
      with snoc [of "frames ys" ys] have "acc @ late @ [x] = rcv @ (ys @ [x])" "down w' = frames (ys @ [x])" by simp_all
      then show ?thesis unfolding transit_def carried_open by blast
    next
      case eof
      with snoc [of "frames ys @ EOF # frames late" late] have "down w' = frames ys @ EOF # frames (late @ [x])" by simp
      with eof(1) that show ?thesis unfolding transit_def carried_open by blast
    qed
  qed
  show "transit (acc @ [x]) [] rcv c True w'" if "\<not> c" "late = []"
  proof -
    from assms(1) that obtain ys where ys: "acc = rcv @ ys" "down w = frames ys" by (auto simp: transit_def)
    with snoc [of "frames ys" ys] have "(acc @ [x]) @ [] = rcv @ (ys @ [x])" "down w' = frames (ys @ [x])" by simp_all
    then show ?thesis unfolding transit_def carried_open by blast
  qed
qed

lemma transit_drop:
  assumes "transit acc late rcv c b w" "\<exists>lost. down w = down w' @ lost"
  shows "transit acc late rcv c False w'"
proof -
  have "carried False w' fs" if "carried b w fs" for fs
    using that assms(2) by (auto simp: carried_def prefix_def)
  with assms(1) show ?thesis unfolding transit_def by blast
qed

section \<open>The invariant\<close>

definition flow_ok :: "('a, 's) zlink \<Rightarrow> bool" where
  "flow_ok z \<longleftrightarrow> (\<exists>ys. zl_accepted z @ zl_late z = zl_received z @ ys) \<and>
     (ze_peer_closed (zl_recv z) \<longrightarrow> ze_closed (zl_send z) \<and> zl_received z = zl_accepted z) \<and>
     (zl_r_open z \<and> \<not> ze_peer_closed (zl_recv z) \<longrightarrow>
        transit (zl_accepted z) (zl_late z) (zl_received z) (ze_closed (zl_send z)) (zl_s_open z) (zl_world z)) \<and>
     (\<forall>x \<in> set (zl_accepted z @ zl_late z). \<exists>b. io_encode sio x = Inr b)"

definition sides_ok :: "('a, 's) zlink \<Rightarrow> bool" where
  "sides_ok z \<longleftrightarrow> (ze_busy (zl_send z) \<longleftrightarrow> zl_sending z \<noteq> NoSend) \<and> (ze_busy (zl_recv z) \<longleftrightarrow> zl_receiving z) \<and>
     (zl_late z \<noteq> [] \<longrightarrow> ze_closed (zl_send z) \<and> zl_sending z = NoSend \<and> length (zl_late z) = 1) \<and>
     (\<not> zl_s_open z \<longrightarrow> ze_closed (zl_send z)) \<and> (\<not> zl_r_open z \<longrightarrow> ze_closed (zl_recv z)) \<and>
     (zl_receiving z \<longrightarrow> \<not> ze_peer_closed (zl_recv z)) \<and>
     (\<forall>x f. zl_sending z = Queued x f \<longrightarrow> (\<exists>b. io_encode sio x = Inr b \<and> f = DATA @ b))"

definition zl_ok :: "('a, 's) zlink \<Rightarrow> bool" where
  "zl_ok z \<longleftrightarrow> flow_ok z \<and> sides_ok z"

lemmas zl_defs = zl_ok_def flow_ok_def sides_ok_def

lemma zl_ok_new: "down w = [] \<Longrightarrow> zl_ok (zl_new w)"
  by (simp add: zl_defs zl_new_def zmq_end_new_def transit_def)

text \<open>A step of the sender that puts nothing on the link.\<close>

lemma zl_ok_sender:
  assumes "zl_ok z" "down w = down (zl_world z)" "ze_closed zs = ze_closed (zl_send z)" "ze_busy zs \<longleftrightarrow> q \<noteq> NoSend"
    "\<forall>x f. q = Queued x f \<longrightarrow> (\<exists>b. io_encode sio x = Inr b \<and> f = DATA @ b)" "zl_late z \<noteq> [] \<longrightarrow> q = NoSend"
  shows "zl_ok (z\<lparr>zl_send := zs, zl_world := w, zl_sending := q\<rparr>)"
  using assms transit_cong [OF assms(2)] by (simp add: zl_defs)

lemma zl_ok_send_end: "zl_ok z \<Longrightarrow> zl_ok (zt_send_end z)"
  by (simp add: zl_defs zt_send_end_def)

lemma zl_ok_recv_end: "zl_ok z \<Longrightarrow> zl_ok (zt_recv_end z)"
  by (simp add: zl_defs zt_recv_end_def)

lemma zl_ok_send_begin: "zl_ok z \<Longrightarrow> zt_send_begin x z = Inr z' \<Longrightarrow> zl_ok z'"
  by (auto simp: zl_defs zt_send_begin_def split: if_splits)

lemma zl_ok_recv_begin: "zl_ok z \<Longrightarrow> zt_recv_begin z = Inr z' \<Longrightarrow> zl_ok z'"
  by (auto simp: zl_defs zt_recv_begin_def split: if_splits)

lemma zl_ok_send_go:
  assumes ok: "zl_ok z" and pc: "zl_sending z = Entered x" and run: "zt_send_go sio x z = Some (r, z')"
  shows "zl_ok z'"
proof -
  from run obtain d zs w where d: "drain_control (io_recv_nowait sio) (zl_send z, zl_world z) = Some (d, (zs, w))"
    by (auto simp: zt_send_go_def)
  let ?z = "z\<lparr>zl_send := zs, zl_world := w\<rparr>"
  from drain_spec [OF d] have same: "down w = down (zl_world z)" "ze_closed zs = ze_closed (zl_send z)"
    "ze_busy zs = ze_busy (zl_send z)" by simp_all
  have late: "zl_late z = []" "ze_busy (zl_send z)" using ok pc by (auto simp: zl_defs)
  have "zl_ok (z\<lparr>zl_send := zs, zl_world := w, zl_sending := zl_sending z\<rparr>)"
    by (rule zl_ok_sender) (use ok same late pc in simp_all)
  then have "zl_ok ?z" by simp
  moreover have "zl_ok (?z\<lparr>zl_sending := Queued x (DATA @ b)\<rparr>)" if "io_encode sio x = Inr b" for b
    using zl_ok_sender [of z w zs "Queued x (DATA @ b)"] ok same late that by simp
  ultimately show ?thesis using run d
    by (auto simp: zt_send_go_def Let_def zl_ok_send_end split: sum.splits if_splits)
qed

lemma zl_ok_accept:
  assumes ok: "zl_ok z" and "zl_s_open z" "zl_late z = []" "io_encode sio x = Inr b" "down w = down (zl_world z) @ [DATA @ b]"
    and q: "zs = (zl_send z)\<lparr>ze_busy := False\<rparr>"
  shows "zl_ok ((zt_accept x (z\<lparr>zl_world := w\<rparr>))\<lparr>zl_send := zs, zl_sending := NoSend\<rparr>)"
proof -
  note join = transit_accept [of "zl_accepted z" "zl_late z" "zl_received z" "ze_closed (zl_send z)" "zl_world z" x b w, OF _ assms(4,5)]
  from ok obtain ys where ys: "zl_accepted z @ zl_late z = zl_received z @ ys" by (auto simp: zl_defs)
  then have all: "\<exists>ys. zl_accepted z @ zl_late z @ [x] = zl_received z @ ys"
    by (intro exI [of _ "ys @ [x]"]) simp
  have open_t: "transit (zl_accepted z) (zl_late z) (zl_received z) (ze_closed (zl_send z)) True (zl_world z)"
    if "zl_r_open z" "\<not> ze_peer_closed (zl_recv z)"
    using ok that assms(2) by (simp add: zl_defs)
  show ?thesis
  proof (cases "ze_closed (zl_send z)")
    case True
    have "transit (zl_accepted z) [x] (zl_received z) True True w" if "zl_r_open z" "\<not> ze_peer_closed (zl_recv z)"
      using join(1) [OF open_t [OF that]] True assms(3) by simp
    with ok True all assms(2-4) q show ?thesis by (simp add: zl_defs zt_accept_def)
  next
    case False
    have "transit (zl_accepted z @ [x]) [] (zl_received z) False True w" if "zl_r_open z" "\<not> ze_peer_closed (zl_recv z)"
      using join(2) [OF open_t [OF that]] False assms(3) by simp
    with ok False all assms(2-4) q show ?thesis by (simp add: zl_defs zt_accept_def)
  qed
qed

lemma zl_ok_send_try:
  assumes ok: "zl_ok z" and pc: "zl_sending z = Queued x f" and "zl_s_open z" and run: "zt_send_try sio x f z = (r, z')"
  shows "zl_ok z'"
proof -
  from ok pc obtain b where b: "io_encode sio x = Inr b" "f = DATA @ b" by (auto simp: zl_defs)
  have late: "zl_late z = []" using ok pc by (auto simp: zl_defs)
  obtain y w where y: "io_send_nowait sio f (zl_world z) = (y, w)" by (cases "io_send_nowait sio f (zl_world z)")
  show ?thesis
  proof (cases y)
    case (Inr u)
    with tx [OF y] b have w: "down w = down (zl_world z) @ [DATA @ b]" by simp
    have "z' = (zt_accept x (z\<lparr>zl_world := w\<rparr>))\<lparr>zl_send := (zl_send z)\<lparr>ze_busy := False\<rparr>, zl_sending := NoSend\<rparr>"
      using run y Inr by (auto simp: zt_send_try_def zt_send_end_def zt_accept_def)
    with zl_ok_accept [OF ok assms(3) late b(1) w refl] show ?thesis by simp
  next
    case (Inl e)
    with tx [OF y] have w: "down w = down (zl_world z)" by simp
    have "zl_ok (z\<lparr>zl_world := w\<rparr>)" using ok transit_cong [OF w] by (simp add: zl_defs)
    with run y Inl show ?thesis by (auto simp: zt_send_try_def zl_ok_send_end split: if_splits)
  qed
qed

lemma zl_ok_send_now:
  assumes ok: "zl_ok z" and run: "zt_send_now sio x z = Some (r, z')"
  shows "zl_ok z'"
proof -
  from run obtain zs w where send: "zs_send_nowait sio x (zl_send z, zl_world z) = Some (r, (zs, w))"
    and z': "z' = (if r = Inr () then zt_accept x else id) (z\<lparr>zl_send := zs, zl_world := w\<rparr>)"
    by (auto simp: zt_send_now_def)
  from send show ?thesis
  proof (cases rule: send_nowait_cases)
    case (accepted b)
    have late: "zl_late z = []" "zl_s_open z" "zl_sending z = NoSend" using ok accepted by (auto simp: zl_defs)
    from zl_ok_accept [OF ok late(2,1) accepted(6,7) refl]
    have "zl_ok ((zt_accept x (z\<lparr>zl_world := w\<rparr>))\<lparr>zl_send := (zl_send z)\<lparr>ze_busy := False\<rparr>, zl_sending := NoSend\<rparr>)" .
    with accepted late z' show ?thesis by (simp add: zl_defs zt_accept_def)
  next
    case refused
    with ok zl_ok_sender [of z w zs "zl_sending z"] z' show ?thesis by (auto simp: zl_defs)
  qed
qed

text \<open>One frame at the receiver: an item, or the end.\<close>

lemma frame_cases:
  assumes ok: "zl_ok z" and "zl_r_open z" "\<not> ze_peer_closed (zl_recv z)"
    and get: "io_recv_nowait rio (zl_world z) = (Inr f, w)"
  obtains (item) x where "decode_frame rio f (zl_recv z) = (Inr (Some x), zl_recv z)"
      "zl_ok (z\<lparr>zl_world := w, zl_received := zl_received z @ [x]\<rparr>)"
  | (ended) "decode_frame rio f (zl_recv z) = (Inl EndOfStream, (zl_recv z)\<lparr>ze_peer_closed := True\<rparr>)"
      "zl_ok (z\<lparr>zl_recv := (zl_recv z)\<lparr>ze_peer_closed := True, ze_busy := False\<rparr>, zl_world := w, zl_receiving := False\<rparr>)"
proof -
  from ok assms(2,3) have t: "transit (zl_accepted z) (zl_late z) (zl_received z) (ze_closed (zl_send z)) (zl_s_open z) (zl_world z)"
    and enc: "\<forall>x \<in> set (zl_accepted z @ zl_late z). \<exists>b. io_encode sio x = Inr b"
    by (simp_all add: zl_defs)
  from get t enc show thesis
  proof (cases rule: arrives)
    case (item x b')
    then have "decode_frame rio f (zl_recv z) = (Inr (Some x), zl_recv z)" by (simp add: decode_frame_def DATA_def)
    moreover have "zl_ok (z\<lparr>zl_world := w, zl_received := zl_received z @ [x]\<rparr>)"
      using ok assms(2,3) item(3,4) by (simp add: zl_defs)
    ultimately show thesis by (rule that(1))
  next
    case ended
    then have "decode_frame rio f (zl_recv z) = (Inl EndOfStream, (zl_recv z)\<lparr>ze_peer_closed := True\<rparr>)"
      by (simp add: decode_frame_def DATA_def EOF_def)
    moreover have "zl_ok (z\<lparr>zl_recv := (zl_recv z)\<lparr>ze_peer_closed := True, ze_busy := False\<rparr>, zl_world := w, zl_receiving := False\<rparr>)"
      using ok assms(2,3) ended(2,3) by (simp add: zl_defs)
    ultimately show thesis by (rule that(2))
  qed
qed

lemma zl_ok_nothing:
  assumes "zl_ok z" "down w = down (zl_world z)"
  shows "zl_ok (z\<lparr>zl_world := w\<rparr>)"
  using assms transit_cong [OF assms(2)] by (simp add: zl_defs)

lemma zl_ok_recv_try:
  assumes ok: "zl_ok z" and pc: "zl_receiving z" "zl_r_open z" and run: "zt_recv_try rio z = (r, z')"
  shows "zl_ok z'"
proof -
  have opened: "\<not> ze_peer_closed (zl_recv z)" using ok pc by (simp add: zl_defs)
  obtain y w where y: "io_recv_nowait rio (zl_world z) = (y, w)" by (cases "io_recv_nowait rio (zl_world z)")
  show ?thesis
  proof (cases y)
    case (Inl e)
    with rx [OF y] have "zl_ok (z\<lparr>zl_world := w\<rparr>)" using zl_ok_nothing [OF ok] by simp
    with run y Inl show ?thesis by (auto simp: zt_recv_try_def zl_ok_recv_end split: if_splits)
  next
    case (Inr f)
    show ?thesis
    proof (cases rule: frame_cases [OF ok pc(2) opened y [unfolded Inr], case_names item ended])
      case (item x)
      have "z\<lparr>zl_recv := zl_recv z, zl_world := w, zl_received := zl_received z @ [x]\<rparr> =
          z\<lparr>zl_world := w, zl_received := zl_received z @ [x]\<rparr>" by simp
      with run y Inr item zl_ok_recv_end [OF item(2)] show ?thesis by (auto simp: zt_recv_try_def)
    next
      case ended
      with run y Inr have "z' = z\<lparr>zl_world := w, zl_recv := (zl_recv z)\<lparr>ze_peer_closed := True, ze_busy := False\<rparr>, zl_receiving := False\<rparr>"
        by (auto simp: zt_recv_try_def zt_recv_end_def)
      with ended(2) show ?thesis by (simp add: zl_defs)
    qed
  qed
qed

text \<open>No frame is skipped, so the loop of a receive that does not block looks at one.\<close>

lemma zl_ok_receive_now:
  assumes ok: "zl_ok z" and run: "zt_receive_now rio z = Some (r, z')"
  shows "zl_ok z'"
proof (cases "ze_busy (zl_recv z) \<or> ze_closed (zl_recv z) \<or> ze_peer_closed (zl_recv z)")
  case True
  with run have "\<exists>e. r = Inl e \<and> z' = z" by (auto simp: zt_receive_now_def zr_receive_nowait_def split: if_splits)
  with ok show ?thesis by auto
next
  case False
  then have opened: "zl_r_open z" "\<not> ze_peer_closed (zl_recv z)" "\<not> zl_receiving z" using ok by (auto simp: zl_defs)
  let ?get = "beside (zmq_recv_nowait (io_recv_nowait rio))"
  obtain y w where y: "io_recv_nowait rio (zl_world z) = (y, w)" by (cases "io_recv_nowait rio (zl_world z)")
  from run False obtain r1 zr w' where loop: "recv_loop rio ?get (zl_recv z, zl_world z) = Some (r1, (zr, w'))"
    and r: "r = map_sum (\<lambda>e. if is_zmq_error e then EndOfStream else e) id r1"
    and z': "z' = z\<lparr>zl_recv := zr, zl_world := w',
        zl_received := (case r of Inr x \<Rightarrow> zl_received z @ [x] | Inl _ \<Rightarrow> zl_received z)\<rparr>"
    by (auto simp: zt_receive_now_def zr_receive_nowait_def)
  show ?thesis
  proof (cases y)
    case (Inl e)
    with loop y have "\<exists>e. r1 = Inl e \<and> zr = zl_recv z \<and> w' = w"
      by (subst (asm) recv_loop.simps) (auto simp: beside_def zmq_recv_nowait_def translated_def)
    with r z' zl_ok_nothing [OF ok] rx [OF y] Inl show ?thesis by auto
  next
    case (Inr f)
    show ?thesis
    proof (cases rule: frame_cases [OF ok opened(1,2) y [unfolded Inr], case_names item ended])
      case (item x)
      with loop y Inr have "r1 = Inr x \<and> zr = zl_recv z \<and> w' = w"
        by (subst (asm) recv_loop.simps) (simp add: beside_def zmq_recv_nowait_def translated_def)
      with r z' item(2) show ?thesis by simp
    next
      case ended
      with loop y Inr have "r1 = Inl EndOfStream \<and> zr = (zl_recv z)\<lparr>ze_peer_closed := True\<rparr> \<and> w' = w"
        by (subst (asm) recv_loop.simps) (simp add: beside_def zmq_recv_nowait_def translated_def)
      moreover have "(zl_recv z)\<lparr>ze_peer_closed := True, ze_busy := False\<rparr> = (zl_recv z)\<lparr>ze_peer_closed := True\<rparr>"
        using False by (cases "zl_recv z") simp
      ultimately show ?thesis using r z' ended(2) opened(3) by (simp add: zl_defs)
    qed
  qed
qed

text \<open>The closes: the end of stream goes behind all that was accepted so far.\<close>

lemma control_cases:
  assumes "w' = snd (send_control_nowait (io_send_nowait sio) f w)"
  shows "down w' = down w \<or> down w' = down w @ [f]"
  using control_spec [of f w "fst (send_control_nowait (io_send_nowait sio) f w)" w'] assms by simp

lemma zl_ok_close_send:
  assumes ok: "zl_ok z" and run: "zt_close_send sio z = Some z'"
  shows "zl_ok z'"
proof (cases "ze_closed (zl_send z)")
  case True
  with run ok show ?thesis by (simp add: zt_close_send_def)
next
  case False
  have late: "zl_late z = []" "zl_s_open z" using ok False by (auto simp: zl_defs)
  from run False obtain d zs w where d: "drain_control (io_recv_nowait sio) ((zl_send z)\<lparr>ze_closed := True\<rparr>, zl_world z) = Some (d, (zs, w))"
    and z': "z' = z\<lparr>zl_send := zs, zl_world := (if d = Inr () \<and> \<not> ze_peer_closed zs
             then snd (send_control_nowait (io_send_nowait sio) EOF w) else w)\<rparr>"
    by (auto simp: zt_close_send_def)
  from drain_spec [OF d] have same: "down w = down (zl_world z)" "ze_closed zs" "ze_busy zs = ze_busy (zl_send z)" by simp_all
  obtain w' where w': "z' = z\<lparr>zl_send := zs, zl_world := w'\<rparr>" "down w' = down (zl_world z) \<or> down w' = down (zl_world z) @ [EOF]"
    using z' same(1) control_cases [of _ EOF w] by (cases "d = Inr () \<and> \<not> ze_peer_closed zs") auto
  have "transit (zl_accepted z) [] (zl_received z) True True w'" if "zl_r_open z" "\<not> ze_peer_closed (zl_recv z)"
  proof -
    from ok that late False obtain ys where ys: "zl_accepted z = zl_received z @ ys" "down (zl_world z) = frames ys"
      by (auto simp: zl_defs transit_def)
    from w'(2) show ?thesis
    proof
      assume "down w' = down (zl_world z)"
      with ys show ?thesis by (simp add: transit_def)
    next
      assume "down w' = down (zl_world z) @ [EOF]"
      with ys have "down w' = frames ys @ EOF # frames []" by simp
      with ys(1) show ?thesis unfolding transit_def carried_open by blast
    qed
  qed
  with ok late w'(1) same(2,3) show ?thesis by (simp add: zl_defs)
qed

lemma zl_ok_close_recv:
  assumes ok: "zl_ok z"
  shows "zl_ok (zt_close_recv rio z)"
proof (cases "ze_closed (zl_recv z)")
  case True
  with ok show ?thesis by (simp add: zt_close_recv_def)
next
  case False
  obtain y w where y: "io_send_nowait rio CLOSE (zl_world z) = (y, w)" by (cases "io_send_nowait rio CLOSE (zl_world z)")
  then have w: "snd (send_control_nowait (io_send_nowait rio) CLOSE (zl_world z)) = w"
    by (simp add: send_control_nowait_def split: sum.split)
  from control_tx [OF y] have "down w = down (zl_world z)" by simp
  from transit_cong [OF this] ok False w show ?thesis by (auto simp: zl_defs zt_close_recv_def)
qed

lemma zl_ok_socket_send:
  assumes ok: "zl_ok z" and "ze_closed (zl_send z)"
  shows "zl_ok (z\<lparr>zl_s_open := False, zl_world := io_close sio l (zl_world z)\<rparr>)"
proof -
  have "\<exists>lost. down (zl_world z) = down (io_close sio l (zl_world z)) @ lost" using linger by blast
  from transit_drop [OF _ this] assms show ?thesis by (auto simp: zl_defs)
qed

lemma zl_ok_socket_recv:
  "zl_ok z \<Longrightarrow> ze_closed (zl_recv z) \<Longrightarrow> zl_ok (z\<lparr>zl_r_open := False, zl_world := w\<rparr>)"
  by (simp add: zl_defs)

lemma zl_ok_step:
  assumes "zt_step sio rio cfg z z'" "zl_ok z"
  shows "zl_ok z'"
  using assms
proof (induction rule: zt_step.induct)
  case send_begins
  from send_begins.prems send_begins.hyps show ?case by (rule zl_ok_send_begin)
next
  case send_goes
  from send_goes.prems send_goes.hyps(1,3) show ?case by (rule zl_ok_send_go)
next
  case send_tries
  from send_tries.prems send_tries.hyps show ?case by (rule zl_ok_send_try)
next
  case send_fails
  from send_fails.prems show ?case by (rule zl_ok_send_end)
next
  case recv_begins
  from recv_begins.prems recv_begins.hyps show ?case by (rule zl_ok_recv_begin)
next
  case recv_tries
  from recv_tries.prems recv_tries.hyps show ?case by (rule zl_ok_recv_try)
next
  case recv_fails
  from recv_fails.prems show ?case by (rule zl_ok_recv_end)
next
  case nowait_send
  from nowait_send.prems nowait_send.hyps show ?case by (rule zl_ok_send_now)
next
  case nowait_receive
  from nowait_receive.prems nowait_receive.hyps show ?case by (rule zl_ok_receive_now)
next
  case closes_send
  from closes_send.prems closes_send.hyps show ?case by (rule zl_ok_close_send)
next
  case socket_send
  from socket_send.prems socket_send.hyps(1) show ?case by (rule zl_ok_socket_send)
next
  case closes_recv
  from closes_recv.prems show ?case by (rule zl_ok_close_recv)
next
  case socket_recv
  from socket_recv.prems socket_recv.hyps(1) show ?case by (rule zl_ok_socket_recv)
qed

lemma zl_reachable: "(zt_step sio rio cfg)\<^sup>*\<^sup>* z z' \<Longrightarrow> zl_ok z \<Longrightarrow> zl_ok z'"
  by (induction rule: rtranclp_induct) (auto intro: zl_ok_step)

text \<open>After the end nothing is received any more, and nothing that counts as accepted before it is added.\<close>

lemma ended_stays:
  assumes "zt_step sio rio cfg z z'" "zl_ok z" "ze_peer_closed (zl_recv z)"
  shows "ze_peer_closed (zl_recv z') \<and> zl_accepted z' = zl_accepted z"
proof -
  have closed: "ze_closed (zl_send z)" and quiet: "\<not> zl_receiving z" using assms(2,3) by (auto simp: zl_defs)
  from assms(1) closed quiet assms(3) show ?thesis
  proof (induction rule: zt_step.induct)
    case (send_goes z x r z')
    then obtain d zs w where "drain_control (io_recv_nowait sio) (zl_send z, zl_world z) = Some (d, (zs, w))"
      by (auto simp: zt_send_go_def)
    with send_goes show ?case
      by (cases d; cases "io_encode sio x") (auto simp: zt_send_go_def zt_send_end_def Let_def split: if_splits)
  next
    case (send_tries z x f r z')
    then show ?case by (auto simp: zt_send_try_def zt_send_end_def zt_accept_def split: sum.splits prod.splits if_splits)
  next
    case (nowait_send x z r z')
    then show ?case by (auto simp: zt_send_now_def zs_send_nowait_def split: if_splits)
  next
    case (nowait_receive z r z')
    then show ?case by (auto simp: zt_receive_now_def zr_receive_nowait_def split: if_splits)
  qed (auto simp: zt_send_begin_def zt_recv_begin_def zt_send_end_def zt_close_send_def zt_close_recv_def split: if_splits)
qed

lemma ended_for_good:
  assumes "(zt_step sio rio cfg)\<^sup>*\<^sup>* z z'" "zl_ok z" "ze_peer_closed (zl_recv z)"
  shows "zl_received z' = zl_received z"
proof -
  from assms(1) have "zl_ok z' \<and> ze_peer_closed (zl_recv z') \<and> zl_accepted z' = zl_accepted z"
  proof (induction rule: rtranclp_induct)
    case base
    with assms(2,3) show ?case by simp
  next
    case (step t u)
    with zl_ok_step ended_stays show ?case by metis
  qed
  with assms(2,3) show ?thesis by (simp add: zl_defs)
qed

end

section \<open>A link that loses what lingers\<close>

text \<open>The \<open>pipe\<close> whose sender may drop all but the first frames when it is closed.\<close>

definition lossy_sio :: "nat \<Rightarrow> (bytes, pipe) zmq_io" where
  "lossy_sio cap = (pipe_sio cap)\<lparr>io_close := \<lambda>l w. w\<lparr>pp_down := take (nat l) (pp_down w)\<rparr>\<rparr>"

interpretation lossy: lingering_link "lossy_sio cap" "pipe_rio cap" pp_down pp_up for cap
proof unfold_locales
  show "(\<exists>lost. pp_down w = pp_down (io_close (lossy_sio cap) l w) @ lost) \<and> pp_up (io_close (lossy_sio cap) l w) = pp_up w" for w l
    by (auto simp: lossy_sio_def intro: exI [of _ "drop (nat l) (pp_down w)"])
qed (auto simp: lossy_sio_def pipe_sio_def pipe_rio_def split: if_splits list.splits)

end
