(* ===== verification/ZmqProps.thy ===== *)
theory ZmqProps imports ZmqTasks begin

text \<open>
  The properties of the ZeroMQ transport, for every link that does what ZeroMQ documents
  (\<open>pair_link\<close>) or for arbitrary sockets; the witnesses run the endpoints over the \<open>pipe\<close>.
\<close>

lemma pipe_link: "pair_link (pipe_sio cap) (pipe_rio cap) pp_down pp_up"
  by (rule pipe.pair_link_axioms)

lemma pipe_frames: "frame_link (pipe_sio cap) (pipe_rio cap) pp_down pp_up"
  by (rule pipe.frame_link_axioms)

lemma pipe_prompt: "\<forall>w. pp_down w \<noteq> [] \<longrightarrow> (\<exists>f w'. io_recv_nowait (pipe_rio cap) w = (Inr f, w'))"
  by (simp add: pipe_rio_def split: list.split)

text \<open>C29: Over a link that hands a waiting frame to a receive at once, as many receives as sends that were
  accepted on the empty link end one by one, in order, with what the serializer makes of the bytes it
  encoded: no item is lost or repeated, and no bytes are taken for a control frame, whatever they are; a
  payload that the serializer refuses raises its error and costs no other item.  No law is asked of the
  serializer; when it gives back what it was given for these items, they are what is received.\<close>

theorem zmq_roundtrip:
  assumes "frame_link sio rio down up" "down w = []"
    and "\<forall>v. down v \<noteq> [] \<longrightarrow> (\<exists>f v'. io_recv_nowait rio v = (Inr f, v'))"
    and "\<forall>b e. io_decode rio b = Inl e \<longrightarrow> \<not> is_zmq_error e"
    and "send_all sio xs (zmq_end_new, w) = Some (zs, w1)"
  shows "\<exists>ys w2. receive_many rio (length xs) (zmq_end_new, w1) = Some (ys, (zmq_end_new, w2)) \<and> down w2 = [] \<and>
    list_all2 (\<lambda>x y. \<exists>b. io_encode sio x = Inr b \<and> y = io_decode rio b) xs ys \<and>
    (list_all (\<lambda>x. \<forall>b. io_encode sio x = Inr b \<longrightarrow> io_decode rio b = Inr x) xs \<longrightarrow> ys = map Inr xs)"
proof -
  from frame_link.send_all_frames [OF assms(1,5)] assms(2) obtain bs where
    bs: "list_all2 (\<lambda>x b. io_encode sio x = Inr b) xs bs" "down w1 = map (\<lambda>b. DATA @ b) bs" by auto
  have "\<not> ze_busy zmq_end_new \<and> \<not> ze_closed zmq_end_new \<and> \<not> ze_peer_closed zmq_end_new"
    by (simp add: zmq_end_new_def)
  from frame_link.receive_many_frames [OF assms(1,3,4) this bs(2)] obtain w2 where
    r: "receive_many rio (length bs) (zmq_end_new, w1) = Some (map (io_decode rio) bs, (zmq_end_new, w2))" "down w2 = []"
    by blast
  have "list_all2 (\<lambda>x y. \<exists>b. io_encode sio x = Inr b \<and> y = io_decode rio b) xs (map (io_decode rio) bs)"
    using bs(1) by (auto simp: list_all2_map2 elim: list_all2_mono)
  moreover have "map (io_decode rio) bs = map Inr xs"
    if "list_all (\<lambda>x. \<forall>b. io_encode sio x = Inr b \<longrightarrow> io_decode rio b = Inr x) xs"
    using bs(1) that by (induction rule: list_all2_induct) simp_all
  ultimately show ?thesis using r list_all2_lengthD [OF bs(1)] by auto
qed

text \<open>Payloads that look like control frames, and an empty one.\<close>

theorem zmq_roundtrip_witness:
  "map_option fst (receive_many (pipe_rio 4) 4 (zmq_end_new, pipe_new\<lparr>pp_down := [DATA @ [67], DATA @ [69], DATA @ [], DATA @ [68, 1]]\<rparr>)) =
     Some [Inr [67], Inr [69], Inr [], Inr [68, 1]]"
proof -
  let ?w = "pipe_new\<lparr>pp_down := [DATA @ [67], DATA @ [69], DATA @ [], DATA @ [68, 1]]\<rparr>"
  let ?xs = "[[67], [69], [], [68, 1]] :: bytes list"
  have s: "send_all (pipe_sio 4) ?xs (zmq_end_new, pipe_new) = Some (zmq_end_new, ?w)"
    by code_simp
  have p: "pp_down pipe_new = []" "\<forall>b e. io_decode (pipe_rio 4) b = Inl e \<longrightarrow> \<not> is_zmq_error e"
    "list_all (\<lambda>x. \<forall>b. io_encode (pipe_sio 4) x = Inr b \<longrightarrow> io_decode (pipe_rio 4) b = Inr x) ?xs" "length ?xs = 4"
    by (simp_all add: pipe_new_def pipe_rio_def pipe_sio_def)
  from zmq_roundtrip [OF pipe_frames p(1) pipe_prompt p(2) s] obtain w2 where
    "receive_many (pipe_rio 4) 4 (zmq_end_new, ?w) = Some (map Inr ?xs, (zmq_end_new, w2))"
    unfolding p(4) using p(3) by blast
  then show ?thesis by simp
qed

text \<open>The settings of a channel are accepted exactly when the size is not negative and the linger at
  least -1, and otherwise ValueError is raised before any socket is made; the water mark set on both
  directions is at least 2, never the 0 that ZeroMQ reads as unlimited, and exceeds the size.\<close>

theorem zmq_settings:
  "(case zmq_config_new maxsize linger_ms of
      Inl e \<Rightarrow> (maxsize < 0 \<or> linger_ms < - 1) \<and> open_zmq_end create call address bind maxsize linger_ms s = (Inl ValueError, s)
    | Inr cfg \<Rightarrow> 0 \<le> maxsize \<and> - 1 \<le> linger_ms \<and> 2 \<le> hwm cfg \<and> maxsize < hwm cfg \<and>
        set (open_pair_calls address bind cfg) =
          {SetSndHwm (hwm cfg), SetRcvHwm (hwm cfg), SetLinger linger_ms, if bind then Bind address else Connect address})"
  by (auto simp: zmq_config_new_def open_zmq_end_def hwm_def open_pair_calls_def)

text \<open>Over a link that loses its peer, fills up or runs empty at any time, any sequence of sends, receives
  and closes that do not block delivers a prefix of what was accepted, in order and without duplicates; and an end of
  stream that came from the sender's end-of-stream frame comes only after everything accepted has been
  received and the sender has closed.\<close>

theorem zmq_fifo:
  assumes "pair_link sio rio down up" "down w = []"
    and "(link_step sio rio cfg)\<^sup>*\<^sup>* ([], [], zmq_end_new, zmq_end_new, w) (accepted, received, zs, zr, w')"
  shows "\<exists>pending. accepted = received @ pending \<and> (ze_peer_closed zr \<longrightarrow> pending = [] \<and> ze_closed zs)"
proof -
  from pair_link.link_reachable [OF assms(1,3,2)] have
    "pair_link.link_inv sio down (accepted, received, zs, zr, w')" .
  then show ?thesis by (auto simp: pair_link.link_inv_def [OF assms(1)])
qed

theorem zmq_fifo_witness:
  "\<exists>pending. [[7], [8]] = [[7]] @ (pending :: bytes list)"
proof -
  let ?step = "link_step (pipe_sio 2) (pipe_rio 2) \<lparr>zc_maxsize = 1, zc_linger_ms = 0\<rparr>"
  let ?z = "zmq_end_new"
  have a: "zs_send_nowait (pipe_sio 2) [7] (?z, pipe_new) = Some (Inr (), (?z, pipe_new\<lparr>pp_down := [DATA @ [7]]\<rparr>))"
    "zs_send_nowait (pipe_sio 2) [8] (?z, pipe_new\<lparr>pp_down := [DATA @ [7]]\<rparr>) =
       Some (Inr (), (?z, pipe_new\<lparr>pp_down := [DATA @ [7], DATA @ [8]]\<rparr>))"
    "zr_receive_nowait (pipe_rio 2) (?z, pipe_new\<lparr>pp_down := [DATA @ [7], DATA @ [8]]\<rparr>) =
       Some (Inr [7], (?z, pipe_new\<lparr>pp_down := [DATA @ [8]]\<rparr>))"
    by code_simp+
  have "?step ([], [], ?z, ?z, pipe_new) ([[7]], [], ?z, ?z, pipe_new\<lparr>pp_down := [DATA @ [7]]\<rparr>)"
    using link_step.send [OF a(1), of "pipe_rio 2" _ "[]" "[]" ?z] by simp
  moreover have "?step ([[7]], [], ?z, ?z, pipe_new\<lparr>pp_down := [DATA @ [7]]\<rparr>)
       ([[7], [8]], [], ?z, ?z, pipe_new\<lparr>pp_down := [DATA @ [7], DATA @ [8]]\<rparr>)"
    using link_step.send [OF a(2), of "pipe_rio 2" _ "[[7]]" "[]" ?z] by simp
  moreover have "?step ([[7], [8]], [], ?z, ?z, pipe_new\<lparr>pp_down := [DATA @ [7], DATA @ [8]]\<rparr>)
       ([[7], [8]], [[7]], ?z, ?z, pipe_new\<lparr>pp_down := [DATA @ [8]]\<rparr>)"
    using link_step.receive [OF a(3), of "pipe_sio 2" _ "[[7], [8]]" "[]" ?z] by simp
  ultimately have "?step\<^sup>*\<^sup>* ([], [], ?z, ?z, pipe_new) ([[7], [8]], [[7]], ?z, ?z, pipe_new\<lparr>pp_down := [DATA @ [8]]\<rparr>)"
    by (meson converse_rtranclp_into_rtranclp rtranclp.rtrancl_refl)
  from zmq_fifo [OF pipe_link _ this] show ?thesis by (auto simp: pipe_new_def)
qed

text \<open>C5: Whatever tasks begin, wait in, are cancelled in and finish blocking sends and receives, mixed with the
  calls that do not block and with closes of either side at any of their awaits, over a link that fills up,
  runs empty, loses its peer and may drop what lingers after a close, with a serializer that gives back
  what it was given: what was received is a beginning of
  what was accepted, in order and without duplicates; each endpoint has at most one task inside and its
  flag says whether; a receiver that was told of the end has received exactly what was accepted before the
  sender's close was called; and at most one item can have been accepted after that, from a send that
  was under way.\<close>

theorem zmq_tasks_fifo:
  assumes "lingering_link sio rio down up" "down w = []" "(zt_step sio rio cfg)\<^sup>*\<^sup>* (zl_new w) z"
  shows "(\<exists>pending. zl_accepted z @ zl_late z = zl_received z @ pending) \<and>
    (ze_busy (zl_send z) \<longleftrightarrow> zl_sending z \<noteq> NoSend) \<and> (ze_busy (zl_recv z) \<longleftrightarrow> zl_receiving z) \<and>
    (ze_peer_closed (zl_recv z) \<longrightarrow> ze_closed (zl_send z) \<and> zl_received z = zl_accepted z) \<and>
    (zl_late z \<noteq> [] \<longrightarrow> ze_closed (zl_send z) \<and> length (zl_late z) = 1)"
proof -
  from lingering_link.zl_reachable [OF assms(1,3) lingering_link.zl_ok_new [OF assms(1,2)]]
  have "lingering_link.zl_ok sio down z" .
  then show ?thesis by (simp add: lingering_link.zl_defs [OF assms(1)])
qed

text \<open>The run of the next property: a send begins, the sender is closed at the checkpoint, the send goes on.\<close>

definition overtaken :: "bytes \<Rightarrow> (bytes, pipe) zlink" where
  "overtaken x = (zl_new (pipe_new\<lparr>pp_down := [DATA @ x]\<rparr>))\<lparr>zl_send := zmq_end_new\<lparr>ze_closed := True\<rparr>,
     zl_recv := zmq_end_new\<lparr>ze_peer_closed := True\<rparr>, zl_late := [x]\<rparr>"

lemma drain_nothing: "pp_up w = [] \<Longrightarrow> drain_control (io_recv_nowait (pipe_sio cap)) (zs, w) = Some (Inr (), (zs, w))"
  by (subst drain_control.simps) (simp add: zmq_recv_nowait_def translated_def pipe_sio_def)

lemma pipe_put:
  "length (pp_down w) < cap \<Longrightarrow> io_send_nowait (pipe_sio cap) f w = (Inr (), w\<lparr>pp_down := pp_down w @ [f]\<rparr>)"
  by (simp add: pipe_sio_def)

lemma overtaking_run:
  assumes "2 \<le> cap"
  shows "(zt_step (pipe_sio cap) (pipe_rio cap) cfg)\<^sup>*\<^sup>* (zl_new pipe_new) (overtaken x)"
proof -
  let ?step = "zt_step (pipe_sio cap) (pipe_rio cap) cfg"
  let ?z1 = "(zl_new pipe_new)\<lparr>zl_send := zmq_end_new\<lparr>ze_busy := True\<rparr>, zl_sending := Entered x\<rparr>"
  let ?z2 = "?z1\<lparr>zl_send := zmq_end_new\<lparr>ze_busy := True, ze_closed := True\<rparr>, zl_world := pipe_new\<lparr>pp_down := [EOF]\<rparr>\<rparr>"
  let ?z3 = "?z2\<lparr>zl_sending := Queued x (DATA @ x)\<rparr>"
  let ?z4 = "?z3\<lparr>zl_send := zmq_end_new\<lparr>ze_closed := True\<rparr>, zl_sending := NoSend,
      zl_world := pipe_new\<lparr>pp_down := [EOF, DATA @ x]\<rparr>, zl_late := [x]\<rparr>"
  have 1: "?step (zl_new pipe_new) ?z1"
    by (rule zt_step.send_begins [of x]) (simp add: zt_send_begin_def zl_new_def zmq_end_new_def)
  have 2: "?step ?z1 ?z2"
    by (rule zt_step.closes_send)
      (use assms in \<open>simp add: zt_close_send_def zl_new_def zmq_end_new_def pipe_new_def drain_nothing send_control_nowait_def pipe_put\<close>)
  have 3: "?step ?z2 ?z3"
    by (rule zt_step.send_goes [of _ x _ None])
      (simp_all add: zt_send_go_def zl_new_def zmq_end_new_def pipe_new_def drain_nothing, simp add: pipe_sio_def)
  have 4: "?step ?z3 ?z4"
    by (rule zt_step.send_tries [of _ x "DATA @ x" _ "Some (Inr ())"])
      (use assms in \<open>simp_all add: zt_send_try_def zt_send_end_def zt_accept_def zl_new_def zmq_end_new_def pipe_new_def pipe_put\<close>)
  have 5: "?step ?z4 (overtaken x)"
    by (rule zt_step.nowait_receive [of _ _ "Inl EndOfStream"])
      (simp add: zt_receive_now_def zr_receive_nowait_def overtaken_def zl_new_def zmq_end_new_def pipe_new_def,
       subst recv_loop.simps, simp add: beside_def zmq_recv_nowait_def translated_def pipe_rio_def decode_frame_def DATA_def EOF_def is_zmq_error_def)
  have "?step\<^sup>*\<^sup>* ?z4 (overtaken x)" using 5 by (rule r_into_rtranclp)
  then have "?step\<^sup>*\<^sup>* ?z3 (overtaken x)" by (rule converse_rtranclp_into_rtranclp [of ?step, OF 4])
  then have "?step\<^sup>*\<^sup>* ?z2 (overtaken x)" by (rule converse_rtranclp_into_rtranclp [of ?step, OF 3])
  then have "?step\<^sup>*\<^sup>* ?z1 (overtaken x)" by (rule converse_rtranclp_into_rtranclp [of ?step, OF 2])
  then show ?thesis by (rule converse_rtranclp_into_rtranclp [of ?step, OF 1])
qed

text \<open>The run as a witness: one item is accepted late, and the receiver has seen the end.\<close>

theorem zmq_tasks_fifo_witness:
  "zl_received (overtaken [7]) = zl_accepted (overtaken [7]) \<and> zl_late (overtaken [7]) = [[7]] \<and>
   \<not> ze_busy (zl_send (overtaken [7]))"
proof -
  have "lingering_link (pipe_sio 2) (pipe_rio 2) pp_down pp_up" by (rule pipe.lingering_link_axioms)
  from zmq_tasks_fifo [OF this _ overtaking_run, of "[7]"] show ?thesis
    by (simp add: overtaken_def zl_new_def pipe_new_def)
qed

text \<open>C22: A send whose sender is closed while it is at its checkpoint puts its item behind the end of stream: it
  returns as if the item had been sent, and the receiver never gets it.\<close>

theorem zmq_close_overtakes:
  assumes "2 \<le> cap" "(zt_step (pipe_sio cap) (pipe_rio cap) cfg)\<^sup>*\<^sup>* (overtaken x) z"
  shows "(zt_step (pipe_sio cap) (pipe_rio cap) cfg)\<^sup>*\<^sup>* (zl_new pipe_new) (overtaken x) \<and>
    zl_late (overtaken x) = [x] \<and> zl_sending (overtaken x) = NoSend \<and> zl_received z = []"
proof -
  note run = overtaking_run [OF assms(1), of cfg x]
  have "pipe.zl_ok cap (overtaken x)" by (rule pipe.zl_reachable [OF run pipe.zl_ok_new]) (simp add: pipe_new_def)
  from pipe.ended_for_good [OF assms(2) this] run show ?thesis by (simp add: overtaken_def zl_new_def)
qed

theorem zmq_close_overtakes_witness:
  "zl_late (overtaken [7]) = [[7]] \<and> zl_received (overtaken [7]) = []"
  using zmq_close_overtakes [of 2 "\<lparr>zc_maxsize = 1, zc_linger_ms = 0\<rparr>" "[7]", OF _ rtranclp.rtrancl_refl] by simp

text \<open>A receiver on an empty pipe, and one whose sender is closed without an end of stream.\<close>

lemma pipe_empty:
  assumes "pp_down w = []" "\<not> ze_closed z" "\<not> ze_peer_closed z" "\<not> ze_busy z"
  shows "zr_receive_nowait (pipe_rio cap) (z, w) = Some (Inl WouldBlock, (z, w))"
    "zr_receive (pipe_rio cap) (z, w) = Some (Inl Cancelled, (z, w))"
  using assms
  by (simp_all add: zr_receive_nowait_def zr_receive_def recv_loop.simps beside_def zmq_recv_nowait_def translated_def
      pipe_rio_def is_zmq_error_def release_def)

definition end_lost :: "bytes list \<Rightarrow> (bytes, pipe) link_st \<Rightarrow> bool" where
  "end_lost xs t \<longleftrightarrow> (case t of (acc, rcv, zs, zr, w) \<Rightarrow>
     acc = xs \<and> rcv = xs \<and> ze_closed zs \<and> \<not> ze_peer_closed zr \<and> pp_down w = [])"

lemma end_lost_step:
  assumes "link_step (pipe_sio cap) (pipe_rio cap) cfg t u" "end_lost xs t"
  shows "end_lost xs u"
  using assms(1)
proof cases
  case (send x zs w r zs' w' acc rcv zr)
  then have "r \<noteq> Inr ()" "zs' = zs" "w' = w"
    using assms(2) by (auto simp: end_lost_def zs_send_nowait_def split: if_splits)
  with send assms(2) show ?thesis by (simp add: end_lost_def)
next
  case (receive zr w r zr' w' acc rcv zs)
  have "zr' = zr \<and> w' = w \<and> (\<exists>e. r = Inl e)"
  proof (cases "ze_busy zr \<or> ze_closed zr")
    case True
    with receive assms(2) show ?thesis by (auto simp: end_lost_def zr_receive_nowait_def split: if_splits)
  next
    case False
    with receive assms(2) pipe_empty(1) [of w zr cap] show ?thesis by (simp add: end_lost_def)
  qed
  with receive assms(2) show ?thesis by (auto simp: end_lost_def)
next
  case (close_send zs w r zs' w' acc rcv zr)
  with assms(2) show ?thesis by (simp add: end_lost_def zs_aclose_def)
next
  case (close_receive zr w r zr' w' acc rcv zs)
  then have "pp_down w' = pp_down w \<and> ze_peer_closed zr' = ze_peer_closed zr"
    by (auto simp: zr_aclose_def closing_def beside_def send_control_nowait_def pipe_rio_def andThen_def is_zmq_error_def
        split: if_splits)
  with close_receive assms(2) show ?thesis by (simp add: end_lost_def)
qed

lemma pipe_send:
  assumes "pp_up w = []"
  shows "zs_send_nowait (pipe_sio cap) x (zmq_end_new, w) =
    (if length (pp_down w) < cap then Some (Inr (), (zmq_end_new, w\<lparr>pp_down := pp_down w @ [DATA @ x]\<rparr>))
     else Some (Inl WouldBlock, (zmq_end_new, w)))"
  using drain_nothing [OF assms, of cap zmq_end_new]
  by (simp add: zs_send_nowait_def thenO_def zmq_end_new_def)
    (simp add: pipe_sio_def beside_def translated_def)

lemma pipe_send_all:
  "pp_up w = [] \<Longrightarrow> length (pp_down w) + length xs \<le> cap \<Longrightarrow>
   send_all (pipe_sio cap) xs (zmq_end_new, w) = Some (zmq_end_new, w\<lparr>pp_down := pp_down w @ map (\<lambda>x. DATA @ x) xs\<rparr>)"
proof (induction xs arbitrary: w)
  case (Cons x xs)
  then show ?case by (simp add: pipe_send)
qed simp

text \<open>C32: Closing a sender whose link is full loses the end of stream.  From two fresh endpoints over a link
  that holds as many frames as the water mark or more: more items than the channel's size are accepted,
  up to every frame the link holds, so also in the slot reserved for the control frame, and only the next
  is refused; the close returns normally but drops its frame; the receiver gets every item, and then
  waits instead of seeing EndOfStream, for ever: nothing either side can still do tells it of the end.\<close>

theorem zmq_end_lost:
  assumes "0 \<le> zc_maxsize cfg" "nat (hwm cfg) \<le> cap" "length xs = cap"
  shows "\<exists>w1. zc_maxsize cfg < int (length xs) \<and>
    send_all (pipe_sio cap) xs (zmq_end_new, pipe_new) = Some (zmq_end_new, w1) \<and>
    zs_send_nowait (pipe_sio cap) x (zmq_end_new, w1) = Some (Inl WouldBlock, (zmq_end_new, w1)) \<and>
    zs_aclose (pipe_sio cap) cfg (zmq_end_new, w1) = Some (Inr (), (zmq_end_new\<lparr>ze_closed := True\<rparr>, w1)) \<and>
    receive_many (pipe_rio cap) (length xs) (zmq_end_new, w1) = Some (map Inr xs, (zmq_end_new, pipe_new)) \<and>
    zr_receive_nowait (pipe_rio cap) (zmq_end_new, pipe_new) = Some (Inl WouldBlock, (zmq_end_new, pipe_new)) \<and>
    zr_receive (pipe_rio cap) (zmq_end_new, pipe_new) = Some (Inl Cancelled, (zmq_end_new, pipe_new)) \<and>
    (\<forall>acc rcv zs zr w. (link_step (pipe_sio cap) (pipe_rio cap) cfg)\<^sup>*\<^sup>*
         (xs, xs, zmq_end_new\<lparr>ze_closed := True\<rparr>, zmq_end_new, pipe_new) (acc, rcv, zs, zr, w) \<longrightarrow>
       rcv = xs \<and> \<not> ze_peer_closed zr)"
proof -
  let ?w1 = "pipe_new\<lparr>pp_down := map (\<lambda>x. DATA @ x) xs\<rparr>"
  let ?closed = "zmq_end_new\<lparr>ze_closed := True\<rparr>"
  have sent: "send_all (pipe_sio cap) xs (zmq_end_new, pipe_new) = Some (zmq_end_new, ?w1)"
    using pipe_send_all [of pipe_new xs cap] assms(3) by (simp add: pipe_new_def)
  have full: "zs_send_nowait (pipe_sio cap) x (zmq_end_new, ?w1) = Some (Inl WouldBlock, (zmq_end_new, ?w1))"
    using pipe_send [of ?w1 cap x] assms(3) by (simp add: pipe_new_def)
  have drain: "drain_control (io_recv_nowait (pipe_sio cap)) (?closed, ?w1) = Some (Inr (), (?closed, ?w1))"
    by (rule drain_nothing) (simp add: pipe_new_def)
  then have close: "zs_aclose (pipe_sio cap) cfg (zmq_end_new, ?w1) = Some (Inr (), (?closed, ?w1))"
    using assms(3) by (simp add: zs_aclose_def thenO_def beside_def send_control_nowait_def closing_def zmq_end_new_def)
      (simp add: pipe_sio_def is_zmq_error_def)
  have one: "zr_receive_nowait (pipe_rio cap) (zmq_end_new, pipe_new\<lparr>pp_down := (DATA @ y) # fs\<rparr>) =
      Some (Inr y, (zmq_end_new, pipe_new\<lparr>pp_down := fs\<rparr>))" for y fs
    using receive_data [of zmq_end_new "pipe_rio cap" "pipe_new\<lparr>pp_down := (DATA @ y) # fs\<rparr>" y "pipe_new\<lparr>pp_down := fs\<rparr>"]
    by (simp add: zmq_end_new_def pipe_rio_def)
  have "receive_many (pipe_rio cap) (length ys) (zmq_end_new, pipe_new\<lparr>pp_down := map (\<lambda>x. DATA @ x) ys\<rparr>) =
      Some (map Inr ys, (zmq_end_new, pipe_new\<lparr>pp_down := []\<rparr>))" for ys
    by (induction ys) (simp_all add: one)
  then have received: "receive_many (pipe_rio cap) (length xs) (zmq_end_new, ?w1) = Some (map Inr xs, (zmq_end_new, pipe_new))"
    by (simp add: pipe_new_def)
  have "end_lost xs t" if "(link_step (pipe_sio cap) (pipe_rio cap) cfg)\<^sup>*\<^sup>* (xs, xs, ?closed, zmq_end_new, pipe_new) t" for t
    using that by (induction rule: rtranclp_induct)
      (use end_lost_step in \<open>auto simp: end_lost_def [of _ "(xs, xs, _, _, _)"] zmq_end_new_def pipe_new_def\<close>)
  then have "\<forall>acc rcv zs zr w. (link_step (pipe_sio cap) (pipe_rio cap) cfg)\<^sup>*\<^sup>* (xs, xs, ?closed, zmq_end_new, pipe_new) (acc, rcv, zs, zr, w) \<longrightarrow>
      rcv = xs \<and> \<not> ze_peer_closed zr"
    by (fastforce simp: end_lost_def)
  moreover have "zc_maxsize cfg < int (length xs)" using assms by (simp add: hwm_def)
  ultimately show ?thesis
    using sent full close received pipe_empty [of pipe_new zmq_end_new cap]
    by (intro exI [of _ ?w1]) (simp add: zmq_end_new_def [symmetric], simp add: zmq_end_new_def pipe_new_def)
qed

theorem zmq_end_lost_witness:
  "hwm \<lparr>zc_maxsize = 1, zc_linger_ms = 0\<rparr> = 2 \<and>
   (\<exists>w1. send_all (pipe_sio 2) [[1], [2]] (zmq_end_new, pipe_new) = Some (zmq_end_new, w1) \<and>
     zs_aclose (pipe_sio 2) \<lparr>zc_maxsize = 1, zc_linger_ms = 0\<rparr> (zmq_end_new, w1) = Some (Inr (), (zmq_end_new\<lparr>ze_closed := True\<rparr>, w1)))"
proof -
  have "hwm \<lparr>zc_maxsize = 1, zc_linger_ms = 0\<rparr> = 2" by code_simp
  with zmq_end_lost [of "\<lparr>zc_maxsize = 1, zc_linger_ms = 0\<rparr>" 2 "[[1], [2]]" "[3]"] show ?thesis
    by (auto simp del: send_all.simps receive_many.simps)
qed

lemma drain_errors:
  assumes "drain_control rx s = Some (r, s')" "\<And>w e w'. rx w = (Inl e, w') \<Longrightarrow> is_zmq_error e"
  shows "r = Inr () \<or> r = Inl ZmqError"
  using assms(1)
proof (induction rule: drain_control_induct)
  case (stopped z w e w')
  then obtain e' where "rx w = (Inl e', w')" "e = (if e' = ZmqAgain then WouldBlock else e')"
    by (cases "rx w") (auto simp: zmq_recv_nowait_def translated_def map_sum_def split: sum.splits)
  with assms(2) [OF this(1)] show ?case by (auto simp: is_zmq_error_def split: if_splits)
qed

text \<open>C30: A blocking ZeroMQ send raises only ChannelInUse, ChannelClosed, the cancellation or what the
  serializer raised, never an error of ZeroMQ, and a free endpoint is free again afterwards.  A
  non-blocking send and a close do let an error of ZeroMQ through, when reading the control frames
  meets one.\<close>

theorem zmq_errors:
  assumes "\<And>w e w'. io_recv_nowait io w = (Inl e, w') \<Longrightarrow> is_zmq_error e"
    and "\<And>f s e s'. io_send io f s = (Inl e, s') \<Longrightarrow> is_zmq_error e \<or> e = Cancelled"
    and "\<And>s e s'. io_checkpoint io s = (Inl e, s') \<Longrightarrow> e = Cancelled"
    and "\<And>e. io_encode io x = Inl e \<Longrightarrow> e = Raised n"
  shows "(\<forall>r s'. zs_send io x s = Some (r, s') \<longrightarrow>
      (\<forall>e. r = Inl e \<longrightarrow> e \<in> {ChannelInUse, ChannelClosed, Cancelled, Raised n}) \<and>
      (\<not> ze_busy (fst s) \<longrightarrow> \<not> ze_busy (fst s'))) \<and>
    (\<forall>w. io_recv_nowait io (snd s) = (Inl ZmqError, w) \<and> \<not> ze_busy (fst s) \<and> \<not> ze_closed (fst s) \<longrightarrow>
      zs_send_nowait io x s = Some (Inl ZmqError, (fst s, w)) \<and>
      map_option fst (zs_aclose io cfg s) = Some (Inl ZmqError))"
proof (intro conjI allI impI)
  fix r s' assume run: "zs_send io x s = Some (r, s')"
  show "\<not> ze_busy (fst s')" if "\<not> ze_busy (fst s)"
    using run that by (auto simp: zs_send_def release_def split: if_splits)
  fix e assume r: "r = Inl e"
  show "e \<in> {ChannelInUse, ChannelClosed, Cancelled, Raised n}"
  proof (cases "ze_busy (fst s) \<or> ze_closed (fst s)")
    case True
    with run r show ?thesis by (auto simp: zs_send_def split: if_splits)
  next
    case False
    let ?s = "((fst s)\<lparr>ze_busy := True\<rparr>, snd s)"
    from run r False obtain out s0 where out: "zs_send_body io x ?s = Some (out, s0)"
      "map_sum (\<lambda>e. if is_zmq_error e then ChannelClosed else e) id out = Inl e"
      by (auto simp: zs_send_def release_def)
    then obtain e0 where body: "zs_send_body io x ?s = Some (Inl e0, s0)"
      and e: "e = (if is_zmq_error e0 then ChannelClosed else e0)"
      by (cases out) auto
    obtain c s1 where c: "io_checkpoint io ?s = (c, s1)" by (cases "io_checkpoint io ?s")
    have "is_zmq_error e0 \<or> e0 \<in> {ChannelClosed, Cancelled, Raised n}"
    proof (cases c)
      case (Inl e1)
      with body c assms(3) [of ?s e1 s1] show ?thesis by (simp add: zs_send_body_def thenO_def)
    next
      case (Inr u)
      obtain d s2 where d: "drain_control (io_recv_nowait io) s1 = Some (d, s2)"
        using body c Inr by (cases "drain_control (io_recv_nowait io) s1") (auto simp: zs_send_body_def thenO_def)
      from drain_errors [OF d assms(1)] show ?thesis
        using body c Inr d assms(4) assms(2) [of "DATA @ projr (io_encode io x)" s2 e0 s0]
        by (auto simp: zs_send_body_def thenO_def is_zmq_error_def split: if_splits sum.splits)
    qed
    with e show ?thesis by auto
  qed
next
  fix w assume *: "io_recv_nowait io (snd s) = (Inl ZmqError, w) \<and> \<not> ze_busy (fst s) \<and> \<not> ze_closed (fst s)"
  then have d: "drain_control (io_recv_nowait io) (z, snd s) = Some (Inl ZmqError, (z, w))" for z
    by (subst drain_control.simps) (simp add: zmq_recv_nowait_def translated_def)
  show "zs_send_nowait io x s = Some (Inl ZmqError, (fst s, w))"
    using d [of "fst s"] * by (simp add: zs_send_nowait_def thenO_def)
  show "map_option fst (zs_aclose io cfg s) = Some (Inl ZmqError)"
    using d [of "(fst s)\<lparr>ze_closed := True\<rparr>"] * by (simp add: zs_aclose_def thenO_def closing_def)
qed

theorem zmq_errors_witness:
  "zs_send_nowait (pipe_sio 2\<lparr>io_recv_nowait := raise ZmqError\<rparr>) [1] (zmq_end_new, pipe_new) =
     Some (Inl ZmqError, (zmq_end_new, pipe_new))"
proof -
  let ?io = "pipe_sio 2\<lparr>io_recv_nowait := raise ZmqError\<rparr>"
  have "\<And>w e w'. io_recv_nowait ?io w = (Inl e, w') \<Longrightarrow> is_zmq_error e"
    by (simp add: is_zmq_error_def)
  moreover have "\<And>f s e s'. io_send ?io f s = (Inl e, s') \<Longrightarrow> is_zmq_error e \<or> e = Cancelled"
    by (simp add: pipe_sio_def split: if_splits)
  moreover have "\<And>s e s'. io_checkpoint ?io s = (Inl e, s') \<Longrightarrow> e = Cancelled" by (simp add: pipe_sio_def)
  moreover have "\<And>e. io_encode ?io [1] = Inl e \<Longrightarrow> e = Raised 0" by (simp add: pipe_sio_def)
  ultimately show ?thesis using zmq_errors [of ?io "[1]" 0 "(zmq_end_new, pipe_new)"] by (simp add: zmq_end_new_def)
qed

end
