(* ===== verification/Routing.thy ===== *)
theory Routing imports Channel begin

text \<open>
  The routing recipes \<open>load_balance.py\<close> and \<open>merge.py\<close>.

  The streams' operations are arguments of \<open>load_balance\<close>; \<open>run_all\<close> is AnyIO's task group, which runs
  some operations concurrently and raises if one of them does.  \<open>merge\<close>, whose tasks only meet at the
  gate and the output, is a step relation over them.
\<close>

section \<open>\<open>try ... finally\<close>\<close>

definition with_finally :: "('s, unit) py \<Rightarrow> (exn + 'a) \<times> 's \<Rightarrow> (exn + 'a) \<times> 's" where
  "with_finally f out = (case out of (r, s) \<Rightarrow> (case f s of (Inl e, s') \<Rightarrow> (Inl e, s') | (Inr _, s') \<Rightarrow> (r, s')))"

section \<open>\<open>load_balance\<close>\<close>

partial_function (option) balance_loop ::
  "('s, 'a) py \<Rightarrow> (nat \<Rightarrow> 'a \<Rightarrow> ('s, unit) py) \<Rightarrow> nat \<Rightarrow> nat \<Rightarrow> 's \<Rightarrow> ((exn + unit) \<times> 's) option" where
  "balance_loop recv send n idx s = (case recv s of
     (Inl e, s1) \<Rightarrow> Some (if e = EndOfStream then Inr () else Inl e, s1)
   | (Inr item, s1) \<Rightarrow> (case send idx item s1 of
       (Inl e, s2) \<Rightarrow> Some (Inl e, s2)
     | (Inr _, s2) \<Rightarrow> balance_loop recv send n ((idx + 1) mod n) s2))"

declare balance_loop.simps [code]

definition load_balance ::
  "(('s, unit) py list \<Rightarrow> ('s, unit) py) \<Rightarrow> ('s, 'a) py \<Rightarrow> (nat \<Rightarrow> 'a \<Rightarrow> ('s, unit) py) \<Rightarrow> (nat \<Rightarrow> ('s, unit) py) \<Rightarrow> nat \<Rightarrow>
   bool \<Rightarrow> 's \<Rightarrow> ((exn + unit) \<times> 's) option" where
  "load_balance run_all recv send aclose n close_dests s =
     (if n = 0 then Some (Inl ValueError, s)
      else map_option (with_finally (if close_dests then run_all (map aclose [0..<n]) else ret ()))
             (balance_loop recv send n 0 s))"

text \<open>The operations with a log of what was received and of what was sent where.\<close>

type_synonym ('a, 's) logged = "('a list \<times> (nat \<times> 'a) list) \<times> 's"

definition log_recv :: "('s, 'a) py \<Rightarrow> (('a, 's) logged, 'a) py" where
  "log_recv recv s = (case recv (snd s) of
     (Inl e, w) \<Rightarrow> (Inl e, (fst s, w))
   | (Inr x, w) \<Rightarrow> (Inr x, ((fst (fst s) @ [x], snd (fst s)), w)))"

definition log_send :: "(nat \<Rightarrow> 'a \<Rightarrow> ('s, unit) py) \<Rightarrow> nat \<Rightarrow> 'a \<Rightarrow> (('a, 's) logged, unit) py" where
  "log_send send i x s = (case send i x (snd s) of (r, w) \<Rightarrow> (r, ((fst (fst s), snd (fst s) @ [(i, x)]), w)))"

definition log_close :: "('s, unit) py \<Rightarrow> (('a, 's) logged, unit) py" where
  "log_close m s = (case m (snd s) of (r, w) \<Rightarrow> (r, (fst s, w)))"

lemma balance_loop_log:
  assumes "balance_loop (log_recv recv) (log_send send) n idx s = Some (r, s')" "idx < n"
  shows "\<exists>xs. fst (fst s') = fst (fst s) @ xs \<and> snd (fst s') = snd (fst s) @ map (\<lambda>k. ((idx + k) mod n, xs ! k)) [0..<length xs]"
proof -
  let ?Q = "\<lambda>recv' send' n' idx s y. recv' = log_recv recv \<longrightarrow> send' = log_send send \<longrightarrow> n' = n \<longrightarrow> idx < n \<longrightarrow>
    (\<exists>xs. fst (fst (snd y)) = fst (fst s) @ xs \<and>
      snd (fst (snd y)) = snd (fst s) @ map (\<lambda>k. ((idx + k) mod n, xs ! k)) [0..<length xs])"
  have "?Q (log_recv recv) (log_send send) n idx s (r, s')"
  proof (rule balance_loop.raw_induct [where P = ?Q, OF _ assms(1)], intro impI)
    fix loop recv' send' n' idx and s :: "('a, 'b) logged" and y
    assume IH: "\<And>recv send n idx s y. loop recv send n idx s = Some y \<Longrightarrow> ?Q recv send n idx s y"
      and eq: "recv' = log_recv recv" "send' = log_send send" "n' = n" and idx: "idx < n"
      and body: "(case recv' s of
         (Inl e, s1) \<Rightarrow> Some (if e = EndOfStream then Inr () else Inl e, s1)
       | (Inr item, s1) \<Rightarrow> (case send' idx item s1 of
           (Inl e, s2) \<Rightarrow> Some (Inl e, s2)
         | (Inr _, s2) \<Rightarrow> loop recv' send' n' ((idx + 1) mod n') s2)) = Some y"
    obtain got sent w where s: "s = ((got, sent), w)" by (cases s) auto
    obtain x w1 where x: "recv w = (x, w1)" by (cases "recv w")
    show "\<exists>xs. fst (fst (snd y)) = fst (fst s) @ xs \<and>
      snd (fst (snd y)) = snd (fst s) @ map (\<lambda>k. ((idx + k) mod n, xs ! k)) [0..<length xs]"
    proof (cases x)
      case (Inl e)
      with body x s eq have "fst (snd y) = fst s" by (auto simp: log_recv_def)
      then show ?thesis by (intro exI [of _ "[]"]) simp
    next
      case (Inr a)
      obtain z w2 where z: "send idx a w1 = (z, w2)" by (cases "send idx a w1")
      let ?s2 = "((got @ [a], sent @ [(idx, a)]), w2)"
      show ?thesis
      proof (cases z)
        case (Inl e)
        with body x s eq Inr z have "snd y = ?s2" by (auto simp: log_recv_def log_send_def)
        with s idx show ?thesis by (intro exI [of _ "[a]"]) simp
      next
        case (Inr u)
        with body x s eq \<open>x = Inr a\<close> z have "loop (log_recv recv) (log_send send) n ((idx + 1) mod n) ?s2 = Some y"
          by (simp add: log_recv_def log_send_def)
        from IH [OF this] idx obtain xs where
          xs: "fst (fst (snd y)) = (got @ [a]) @ xs"
            "snd (fst (snd y)) = (sent @ [(idx, a)]) @ map (\<lambda>k. (((idx + 1) mod n + k) mod n, xs ! k)) [0..<length xs]"
          by auto
        have "map (\<lambda>k. ((idx + k) mod n, (a # xs) ! k)) [0..<length (a # xs)] =
            (idx, a) # map (\<lambda>k. (((idx + 1) mod n + k) mod n, xs ! k)) [0..<length xs]"
          using idx by (simp add: upt_conv_Cons map_Suc_upt [symmetric] mod_simps del: upt_Suc)
        with xs s show ?thesis by (intro exI [of _ "a # xs"]) simp
      qed
    qed
  qed
  with assms(2) show ?thesis by simp
qed

text \<open>A relation whose every step uses up some measure has only runs up to it.\<close>

lemma relpowp_bound:
  assumes "\<And>s s'. P s \<Longrightarrow> R s s' \<Longrightarrow> P s' \<and> f s' < (f s :: nat)" "P s" "(R ^^ k) s t"
  shows "f t + k \<le> f s"
proof -
  have "P t \<and> f t + k \<le> f s" using assms(3)
  proof (induction k arbitrary: t)
    case 0
    then show ?case using assms(2) by simp
  next
    case (Suc k)
    then obtain u where "(R ^^ k) s u" "R u t" by auto
    with Suc.IH [of u] assms(1) [of u t] show ?case by simp
  qed
  then show ?thesis ..
qed

section \<open>\<open>merge\<close>\<close>

text \<open>
  A forwarder is waiting for its source, or for the gate's lock with an item, or inside the
  output's \<open>send\<close>, or has seen the end of its source.  \<open>ms_src i\<close> is what source \<open>i\<close> still delivers
  before it ends, \<open>ms_out\<close> what the output has got, with the source it came from.
\<close>

datatype 'a forwarder = Receiving | Queued 'a | Sending 'a | Ended

record 'a merge_st =
  ms_src :: "nat \<Rightarrow> 'a list"
  ms_task :: "nat \<Rightarrow> 'a forwarder"
  ms_lock :: "nat option"
  ms_busy :: bool
  ms_out :: "(nat \<times> 'a) list"
  ms_closed :: bool
  ms_failed :: "exn option"

definition merge_start :: "nat \<Rightarrow> (nat \<Rightarrow> 'a list) \<Rightarrow> exn + 'a merge_st" where
  "merge_start n src =
     (if n = 0 then Inl ValueError
      else Inr \<lparr>ms_src = src, ms_task = (\<lambda>_. Receiving), ms_lock = None, ms_busy = False, ms_out = [], ms_closed = False, ms_failed = None\<rparr>)"

inductive merge_step :: "nat \<Rightarrow> bool \<Rightarrow> 'a merge_st \<Rightarrow> 'a merge_st \<Rightarrow> bool" for n close_dest where
  receive: "i < n \<Longrightarrow> ms_task s i = Receiving \<Longrightarrow> ms_src s i = x # xs \<Longrightarrow>
    merge_step n close_dest s (s\<lparr>ms_src := (ms_src s)(i := xs), ms_task := (ms_task s)(i := Queued x)\<rparr>)"
| source_end: "i < n \<Longrightarrow> ms_task s i = Receiving \<Longrightarrow> ms_src s i = [] \<Longrightarrow>
    merge_step n close_dest s (s\<lparr>ms_task := (ms_task s)(i := Ended)\<rparr>)"
| enter: "i < n \<Longrightarrow> ms_task s i = Queued x \<Longrightarrow> ms_lock s = None \<Longrightarrow> ep_enter (ms_busy s) = Inr b \<Longrightarrow>
    merge_step n close_dest s (s\<lparr>ms_task := (ms_task s)(i := Sending x), ms_lock := Some i, ms_busy := b\<rparr>)"
| sent: "i < n \<Longrightarrow> ms_task s i = Sending x \<Longrightarrow>
    merge_step n close_dest s (s\<lparr>ms_task := (ms_task s)(i := Receiving), ms_lock := None,
      ms_busy := ep_exit (ms_busy s), ms_out := ms_out s @ [(i, x)]\<rparr>)"
| all_ended: "close_dest \<Longrightarrow> \<forall>i < n. ms_task s i = Ended \<Longrightarrow> \<not> ms_closed s \<Longrightarrow>
    merge_step n close_dest s (s\<lparr>ms_closed := True\<rparr>)"

text \<open>A forwarder raises, or the merge is cancelled: the task group cancels the others, which frees the lock
  and the endpoint.\<close>

inductive merge_fail :: "nat \<Rightarrow> 'a merge_st \<Rightarrow> 'a merge_st \<Rightarrow> bool" for n where
  "ms_failed s = None \<Longrightarrow> i < n \<Longrightarrow> ms_task s i \<noteq> Ended \<Longrightarrow>
    merge_fail n s (s\<lparr>ms_failed := Some e, ms_task := (\<lambda>_. Ended), ms_lock := None, ms_busy := ep_exit (ms_busy s)\<rparr>)"

definition merge_run :: "nat \<Rightarrow> bool \<Rightarrow> 'a merge_st \<Rightarrow> 'a merge_st \<Rightarrow> bool" where
  "merge_run n close_dest s s' \<longleftrightarrow> merge_step n close_dest s s' \<or> merge_fail n s s'"

lemma merge_run_then:
  "merge_step n close_dest s t \<Longrightarrow> (merge_run n close_dest)\<^sup>*\<^sup>* t u \<Longrightarrow> (merge_run n close_dest)\<^sup>*\<^sup>* s u"
  by (rule converse_rtranclp_into_rtranclp) (simp_all add: merge_run_def)

text \<open>What a forwarder holds, and what came out of one source.\<close>

fun held :: "'a forwarder \<Rightarrow> 'a list" where
  "held (Queued x) = [x]"
| "held (Sending x) = [x]"
| "held _ = []"

definition out_of :: "nat \<Rightarrow> (nat \<times> 'a) list \<Rightarrow> 'a list" where
  "out_of i out = map snd (filter (\<lambda>p. fst p = i) out)"

lemma out_of_append [simp]: "out_of i (out @ [(j, x)]) = out_of i out @ (if j = i then [x] else [])"
  by (simp add: out_of_def)

definition merge_inv :: "nat \<Rightarrow> (nat \<Rightarrow> 'a list) \<Rightarrow> 'a merge_st \<Rightarrow> bool" where
  "merge_inv n src s \<longleftrightarrow>
     (\<forall>i < n. out_of i (ms_out s) @ held (ms_task s i) @ ms_src s i = src i) \<and>
     (\<forall>i < n. ms_task s i = Ended \<longrightarrow> ms_src s i = []) \<and>
     (\<forall>i < n. (\<exists>x. ms_task s i = Sending x) \<longleftrightarrow> ms_lock s = Some i) \<and>
     (ms_busy s \<longleftrightarrow> ms_lock s \<noteq> None) \<and> (\<forall>i. ms_lock s = Some i \<longrightarrow> i < n) \<and>
     fst ` set (ms_out s) \<subseteq> {..<n} \<and> (ms_closed s \<longrightarrow> (\<forall>i < n. ms_task s i = Ended))"

lemma merge_inv_step: "merge_step n close_dest s s' \<Longrightarrow> merge_inv n src s \<Longrightarrow> merge_inv n src s'"
proof (induction rule: merge_step.induct)
  case (receive i s x xs)
  then have "out_of i (ms_out s) @ held (ms_task s i) @ ms_src s i = src i" "ms_lock s \<noteq> Some i" "\<not> ms_closed s"
    unfolding merge_inv_def by auto
  with receive show ?case by (simp add: merge_inv_def)
next
  case (source_end i s)
  then have "out_of i (ms_out s) @ held (ms_task s i) @ ms_src s i = src i" "ms_lock s \<noteq> Some i" "\<not> ms_closed s"
    unfolding merge_inv_def by auto
  with source_end show ?case by (simp add: merge_inv_def)
next
  case (enter i s x b)
  then have b: "b" by (auto simp: ep_enter_def split: if_splits)
  from enter have no: "ms_task s j \<noteq> Sending y" if "j < n" for j y using that by (auto simp: merge_inv_def)
  have closed: "\<not> ms_closed s" using enter by (auto simp: merge_inv_def)
  have "held (((ms_task s)(i := Sending x)) j) = held (ms_task s j)" for j using enter.hyps by simp
  with enter b no closed show ?case unfolding merge_inv_def by simp
next
  case (sent i s x)
  then have lock: "ms_lock s = Some i" by (auto simp: merge_inv_def)
  have closed: "\<not> ms_closed s" using sent by (auto simp: merge_inv_def)
  have no: "ms_task s j \<noteq> Sending y" if "j < n" "j \<noteq> i" for j y
    using sent.prems that lock by (auto simp: merge_inv_def)
  have "out_of i (ms_out s) @ x # ms_src s i = src i" using sent unfolding merge_inv_def by fastforce
  with sent lock closed no show ?case unfolding merge_inv_def by (simp add: ep_exit_def)
next
  case (all_ended s)
  then show ?case unfolding merge_inv_def by auto
qed

text \<open>A merge that failed has no running task left; what came out before stays.\<close>

definition merge_safe :: "nat \<Rightarrow> (nat \<Rightarrow> 'a list) \<Rightarrow> 'a merge_st \<Rightarrow> bool" where
  "merge_safe n src s \<longleftrightarrow>
     (if ms_failed s = None then merge_inv n src s
      else (\<forall>i < n. ms_task s i = Ended \<and> (\<exists>rest. src i = out_of i (ms_out s) @ rest)) \<and> ms_lock s = None \<and> \<not> ms_busy s)"

lemma merge_safe_prefix: "merge_safe n src s \<Longrightarrow> i < n \<Longrightarrow> \<exists>rest. src i = out_of i (ms_out s) @ rest"
  unfolding merge_safe_def merge_inv_def by (metis (full_types))

lemma merge_step_failed: "merge_step n close_dest s s' \<Longrightarrow> ms_failed s' = ms_failed s"
  by (induction rule: merge_step.induct) simp_all

lemma merge_step_ended:
  "merge_step n close_dest s s' \<Longrightarrow> \<forall>i < n. ms_task s i = Ended \<Longrightarrow> s' = s\<lparr>ms_closed := True\<rparr> \<and> \<not> ms_closed s"
  by (induction rule: merge_step.induct) auto

lemma merge_safe_step:
  assumes "merge_run n close_dest s s'" "merge_safe n src s"
  shows "merge_safe n src s'"
proof (cases "merge_fail n s s'")
  case True
  then have "ms_failed s' \<noteq> None" "\<forall>i < n. ms_task s' i = Ended" "ms_out s' = ms_out s" "ms_lock s' = None" "\<not> ms_busy s'"
    by (auto simp: merge_fail.simps ep_exit_def)
  with merge_safe_prefix [OF assms(2)] show ?thesis by (auto simp: merge_safe_def)
next
  case False
  with assms(1) have step: "merge_step n close_dest s s'" by (simp add: merge_run_def)
  show ?thesis
  proof (cases "ms_failed s = None")
    case True
    with assms(2) merge_inv_step [OF step] merge_step_failed [OF step] show ?thesis by (simp add: merge_safe_def)
  next
    case failed: False
    with assms(2) have "\<forall>i < n. ms_task s i = Ended" by (simp add: merge_safe_def)
    with merge_step_ended [OF step this] failed assms(2) show ?thesis by (auto simp: merge_safe_def)
  qed
qed

lemma merge_reachable:
  assumes "merge_start n src = Inr s0" "(merge_run n close_dest)\<^sup>*\<^sup>* s0 s"
  shows "merge_safe n src s"
  using assms(2)
proof (induction rule: rtranclp_induct)
  case base
  from assms(1) have "s0 = \<lparr>ms_src = src, ms_task = (\<lambda>_. Receiving), ms_lock = None, ms_busy = False, ms_out = [], ms_closed = False, ms_failed = None\<rparr>"
    by (simp add: merge_start_def split: if_splits)
  then show ?case by (simp add: merge_safe_def merge_inv_def out_of_def)
next
  case (step t u)
  from step.hyps(2) step.IH show ?case by (rule merge_safe_step)
qed

text \<open>Some task can go on until all have ended.\<close>

lemma merge_progress:
  assumes "merge_inv n src s" "\<not> (\<forall>i < n. ms_task s i = Ended)"
  shows "\<exists>s'. merge_step n close_dest s s'"
proof (cases "ms_lock s")
  case (Some i)
  with assms(1) have "i < n \<and> (\<exists>x. ms_task s i = Sending x)" unfolding merge_inv_def by simp
  then obtain x where "i < n" "ms_task s i = Sending x" by (elim conjE exE)
  from merge_step.sent [OF this] show ?thesis by (rule exI)
next
  case None
  from assms(2) obtain i where i: "i < n" "ms_task s i \<noteq> Ended" by blast
  have free: "ep_enter (ms_busy s) = Inr True" using assms(1) None by (simp add: merge_inv_def ep_enter_def)
  show ?thesis
  proof (cases "ms_task s i")
    case Receiving
    show ?thesis
    proof (cases "ms_src s i")
      case Nil
      from merge_step.source_end [OF i(1) Receiving Nil] show ?thesis by (rule exI)
    next
      case (Cons x xs)
      from merge_step.receive [OF i(1) Receiving Cons] show ?thesis by (rule exI)
    qed
  next
    case (Queued x)
    from merge_step.enter [OF i(1) Queued None free] show ?thesis by (rule exI)
  next
    case (Sending x)
    from merge_step.sent [OF i(1) Sending] show ?thesis by (rule exI)
  qed (use i in simp)
qed

text \<open>And it cannot go on for ever: every step uses up some of this.\<close>

fun task_work :: "'a forwarder \<Rightarrow> nat" where
  "task_work Receiving = 1"
| "task_work (Queued _) = 3"
| "task_work (Sending _) = 2"
| "task_work Ended = 0"

definition merge_work :: "nat \<Rightarrow> 'a merge_st \<Rightarrow> nat" where
  "merge_work n s = (\<Sum>i < n. 3 * length (ms_src s i) + task_work (ms_task s i)) + (if ms_closed s then 0 else 1)"

lemma sum_decreases:
  fixes f g :: "nat \<Rightarrow> nat"
  assumes "i < n" "f i < g i" "\<And>j. j \<noteq> i \<Longrightarrow> f j = g j"
  shows "(\<Sum>j < n. f j) < (\<Sum>j < n. g j)"
  by (rule sum_strict_mono_ex1) (use assms in \<open>auto simp: less_le\<close>, metis order_refl)

lemma merge_work_decreases: "merge_step n close_dest s s' \<Longrightarrow> merge_work n s' < merge_work n s"
proof (induction rule: merge_step.induct)
  case (receive i s x xs)
  then show ?case unfolding merge_work_def by simp (rule sum_decreases [of i], auto)
next
  case (source_end i s)
  then show ?case unfolding merge_work_def by simp (rule sum_decreases [of i], auto)
next
  case (enter i s x b)
  then show ?case unfolding merge_work_def by simp (rule sum_decreases [of i], auto)
next
  case (sent i s x)
  then show ?case unfolding merge_work_def by simp (rule sum_decreases [of i], auto)
qed (simp add: merge_work_def)

lemma merge_run_decreases:
  assumes "merge_run n close_dest s s'"
  shows "merge_work n s' < merge_work n s"
proof (cases "merge_fail n s s'")
  case False
  with assms show ?thesis by (simp add: merge_run_def merge_work_decreases)
next
  case True
  then show ?thesis
  proof (induction rule: merge_fail.induct)
    case (1 s i e)
    have "0 < task_work (ms_task s i)" using 1 by (cases "ms_task s i") simp_all
    with 1 have "(\<Sum>i < n. 3 * length (ms_src s i)) < (\<Sum>i < n. 3 * length (ms_src s i) + task_work (ms_task s i))"
      by (intro sum_strict_mono_ex1) auto
    then show ?case by (simp add: merge_work_def)
  qed
qed

end
