(* ===== verification/Fanout.thy ===== *)
theory Fanout imports Routing begin

text \<open>
  \<open>recipes/routing/fanout.py\<close>: \<open>tee\<close> as a step relation over its tasks.

  For every item a task group runs one \<open>send\<close> per destination; the loop takes the next item when the
  group has been joined.  At the end, whichever it is, another group closes the destinations.  A
  \<open>send\<close> enters its endpoint and is over when the destination has taken the item, at any later time.
\<close>

section \<open>The tasks\<close>

datatype 'a tee_task = TIdle | TStart 'a | TSend 'a | TClose

datatype tee_phase = Reading | Spreading | Closing | Finished

text \<open>\<open>ts_src\<close> is what the source still delivers before it ends, \<open>ts_out d\<close> what destination \<open>d\<close> has
  taken; \<open>ts_failed\<close> is the exception that left the loop, \<open>ts_close_failed\<close> the one that left the
  closing.\<close>

record 'a tee_st =
  ts_src :: "'a list"
  ts_phase :: tee_phase
  ts_task :: "nat \<Rightarrow> 'a tee_task"
  ts_busy :: "nat \<Rightarrow> bool"
  ts_out :: "nat \<Rightarrow> 'a list"
  ts_closed :: "nat \<Rightarrow> bool"
  ts_failed :: "exn option"
  ts_close_failed :: "exn option"

definition tee_new :: "'a list \<Rightarrow> 'a tee_st" where
  "tee_new src = \<lparr>ts_src = src, ts_phase = Reading, ts_task = (\<lambda>_. TIdle), ts_busy = (\<lambda>_. False), ts_out = (\<lambda>_. []),
     ts_closed = (\<lambda>_. False), ts_failed = None, ts_close_failed = None\<rparr>"

inductive tee_step :: "nat \<Rightarrow> 'a tee_st \<Rightarrow> 'a tee_st \<Rightarrow> bool" for n where
  take: "ts_phase s = Reading \<Longrightarrow> ts_src s = x # xs \<Longrightarrow>
    tee_step n s (s\<lparr>ts_src := xs, ts_phase := Spreading, ts_task := (\<lambda>_. TStart x)\<rparr>)"
| enter: "d < n \<Longrightarrow> ts_task s d = TStart x \<Longrightarrow> ep_enter (ts_busy s d) = Inr b \<Longrightarrow>
    tee_step n s (s\<lparr>ts_task := (ts_task s)(d := TSend x), ts_busy := (ts_busy s)(d := b)\<rparr>)"
| sent: "d < n \<Longrightarrow> ts_task s d = TSend x \<Longrightarrow>
    tee_step n s (s\<lparr>ts_task := (ts_task s)(d := TIdle), ts_busy := (ts_busy s)(d := ep_exit (ts_busy s d)),
      ts_out := (ts_out s)(d := ts_out s d @ [x])\<rparr>)"
| joined: "ts_phase s = Spreading \<Longrightarrow> \<forall>d < n. ts_task s d = TIdle \<Longrightarrow> tee_step n s (s\<lparr>ts_phase := Reading\<rparr>)"
| source_end: "ts_phase s = Reading \<Longrightarrow> ts_src s = [] \<Longrightarrow>
    tee_step n s (s\<lparr>ts_phase := Closing, ts_task := (\<lambda>_. TClose)\<rparr>)"
| close: "d < n \<Longrightarrow> ts_task s d = TClose \<Longrightarrow>
    tee_step n s (s\<lparr>ts_task := (ts_task s)(d := TIdle), ts_closed := (ts_closed s)(d := True)\<rparr>)"
| all_closed: "ts_phase s = Closing \<Longrightarrow> \<forall>d < n. ts_task s d = TIdle \<Longrightarrow> tee_step n s (s\<lparr>ts_phase := Finished\<rparr>)"

text \<open>The source or a send raises, or the tee is cancelled: the other sends are cancelled, which frees their
  endpoints, and \<open>finally\<close> closes.  If an \<open>aclose\<close> raises or is cancelled, so are those that are left.\<close>

inductive tee_fail :: "'a tee_st \<Rightarrow> 'a tee_st \<Rightarrow> bool" where
  loop: "ts_phase s = Reading \<or> ts_phase s = Spreading \<Longrightarrow>
    tee_fail s (s\<lparr>ts_phase := Closing, ts_task := (\<lambda>_. TClose), ts_busy := (\<lambda>d. ep_exit (ts_busy s d)), ts_failed := Some e\<rparr>)"
| closing: "ts_phase s = Closing \<Longrightarrow>
    tee_fail s (s\<lparr>ts_phase := Finished, ts_task := (\<lambda>_. TIdle), ts_close_failed := Some e\<rparr>)"

definition tee_run :: "nat \<Rightarrow> 'a tee_st \<Rightarrow> 'a tee_st \<Rightarrow> bool" where
  "tee_run n s s' \<longleftrightarrow> tee_step n s s' \<or> tee_fail s s'"

lemma tee_run_then: "tee_step n s t \<Longrightarrow> (tee_run n)\<^sup>*\<^sup>* t u \<Longrightarrow> (tee_run n)\<^sup>*\<^sup>* s u"
  by (rule converse_rtranclp_into_rtranclp) (simp_all add: tee_run_def)

section \<open>The invariant\<close>

text \<open>What may be seen of one destination in each phase, when \<open>got\<close> has been taken from the source.\<close>

fun dest_ok :: "tee_phase \<Rightarrow> 'a list \<Rightarrow> 'a tee_st \<Rightarrow> nat \<Rightarrow> bool" where
  "dest_ok Reading got s d \<longleftrightarrow> ts_task s d = TIdle \<and> \<not> ts_busy s d \<and> ts_out s d = got \<and> \<not> ts_closed s d"
| "dest_ok Spreading got s d \<longleftrightarrow> \<not> ts_closed s d \<and> (case ts_task s d of
      TIdle \<Rightarrow> ts_out s d = got \<and> \<not> ts_busy s d
    | TStart x \<Rightarrow> got = ts_out s d @ [x] \<and> \<not> ts_busy s d
    | TSend x \<Rightarrow> got = ts_out s d @ [x] \<and> ts_busy s d
    | TClose \<Rightarrow> False)"
| "dest_ok Closing got s d \<longleftrightarrow> \<not> ts_busy s d \<and> (ts_out s d = got \<or> ts_failed s \<noteq> None \<and> ts_out s d = butlast got) \<and>
     (if ts_closed s d then ts_task s d = TIdle else ts_task s d = TClose)"
| "dest_ok Finished got s d \<longleftrightarrow> \<not> ts_busy s d \<and> (ts_out s d = got \<or> ts_failed s \<noteq> None \<and> ts_out s d = butlast got) \<and>
     ts_task s d = TIdle \<and> (ts_close_failed s = None \<longrightarrow> ts_closed s d)"

definition tee_inv :: "nat \<Rightarrow> 'a list \<Rightarrow> 'a list \<Rightarrow> 'a tee_st \<Rightarrow> bool" where
  "tee_inv n src got s \<longleftrightarrow> src = got @ ts_src s \<and> (\<forall>d < n. dest_ok (ts_phase s) got s d) \<and>
     (ts_phase s = Reading \<or> ts_phase s = Spreading \<longrightarrow> ts_failed s = None) \<and>
     (ts_phase s \<noteq> Finished \<longrightarrow> ts_close_failed s = None) \<and>
     (ts_phase s = Closing \<or> ts_phase s = Finished \<longrightarrow> ts_failed s = None \<longrightarrow> ts_src s = [])"

lemma tee_inv_new: "tee_inv n src [] (tee_new src)"
  by (simp add: tee_inv_def tee_new_def)

text \<open>A destination has what was taken, or all of it but the last item.\<close>

lemma dest_ok_out: "dest_ok p got s d \<Longrightarrow> ts_out s d = got \<or> ts_out s d = butlast got"
  by (cases p) (auto split: tee_task.splits)

lemma dest_ok_phase:
  assumes "dest_ok p got s d"
  shows "ts_task s d = TStart x \<Longrightarrow> p = Spreading \<and> \<not> ts_busy s d"
    "ts_task s d = TSend x \<Longrightarrow> p = Spreading"
    "ts_task s d = TClose \<Longrightarrow> p = Closing"
    "ts_closed s d \<Longrightarrow> p = Closing \<or> p = Finished"
  using assms by (cases p; simp split: if_splits)+

lemma dest_ok_cong:
  "ts_task s d = ts_task s' d \<Longrightarrow> ts_busy s d = ts_busy s' d \<Longrightarrow> ts_out s d = ts_out s' d \<Longrightarrow> ts_closed s d = ts_closed s' d \<Longrightarrow>
     ts_failed s = ts_failed s' \<Longrightarrow> ts_close_failed s = ts_close_failed s' \<Longrightarrow> dest_ok p got s d = dest_ok p got s' d"
  by (cases p) (simp_all split: tee_task.splits)

text \<open>Changing one destination leaves the others as they are.\<close>

lemma tee_inv_dest:
  assumes "tee_inv n src got s" "dest_ok (ts_phase s) got s' d"
    "\<And>e. e \<noteq> d \<Longrightarrow> ts_task s' e = ts_task s e \<and> ts_busy s' e = ts_busy s e \<and> ts_out s' e = ts_out s e \<and> ts_closed s' e = ts_closed s e"
    "ts_src s' = ts_src s" "ts_phase s' = ts_phase s" "ts_failed s' = ts_failed s" "ts_close_failed s' = ts_close_failed s"
  shows "tee_inv n src got s'"
proof -
  have "dest_ok (ts_phase s) got s' e" if "e < n" for e
  proof (cases "e = d")
    case False
    then have "dest_ok (ts_phase s) got s' e = dest_ok (ts_phase s) got s e"
      using assms(3) [of e] assms(6,7) by (intro dest_ok_cong) simp_all
    with assms(1) that show ?thesis by (simp add: tee_inv_def)
  qed (use assms(2) in simp)
  with assms show ?thesis by (simp add: tee_inv_def)
qed

lemma tee_inv_step:
  assumes "tee_step n s s'" "tee_inv n src got s"
  shows "\<exists>got'. tee_inv n src got' s'"
  using assms
proof (induction rule: tee_step.induct)
  case (take s x xs)
  then have "tee_inv n src (got @ [x]) (s\<lparr>ts_src := xs, ts_phase := Spreading, ts_task := (\<lambda>_. TStart x)\<rparr>)"
    by (simp add: tee_inv_def)
  then show ?case ..
next
  case (enter d s x b)
  from enter.prems enter.hyps(1) have ok: "dest_ok (ts_phase s) got s d" by (simp add: tee_inv_def)
  from dest_ok_phase(1) [OF ok enter.hyps(2)] ok enter.hyps(2,3)
  have "dest_ok (ts_phase s) got (s\<lparr>ts_task := (ts_task s)(d := TSend x), ts_busy := (ts_busy s)(d := b)\<rparr>) d"
    by (auto simp: ep_enter_def)
  then have "tee_inv n src got (s\<lparr>ts_task := (ts_task s)(d := TSend x), ts_busy := (ts_busy s)(d := b)\<rparr>)"
    by (rule tee_inv_dest [OF enter.prems]) simp_all
  then show ?case ..
next
  case (sent d s x)
  let ?s = "s\<lparr>ts_task := (ts_task s)(d := TIdle), ts_busy := (ts_busy s)(d := ep_exit (ts_busy s d)),
      ts_out := (ts_out s)(d := ts_out s d @ [x])\<rparr>"
  from sent.prems sent.hyps(1) have ok: "dest_ok (ts_phase s) got s d" by (simp add: tee_inv_def)
  from dest_ok_phase(2) [OF ok sent.hyps(2)] ok sent.hyps(2)
  have "dest_ok (ts_phase s) got ?s d" by (simp add: ep_exit_def)
  then have "tee_inv n src got ?s" by (rule tee_inv_dest [OF sent.prems]) simp_all
  then show ?case ..
next
  case (joined s)
  then have "tee_inv n src got (s\<lparr>ts_phase := Reading\<rparr>)" by (simp add: tee_inv_def)
  then show ?case ..
next
  case (source_end s)
  then have "tee_inv n src got (s\<lparr>ts_phase := Closing, ts_task := (\<lambda>_. TClose)\<rparr>)" by (simp add: tee_inv_def)
  then show ?case ..
next
  case (close d s)
  let ?s = "s\<lparr>ts_task := (ts_task s)(d := TIdle), ts_closed := (ts_closed s)(d := True)\<rparr>"
  from close.prems close.hyps(1) have ok: "dest_ok (ts_phase s) got s d" by (simp add: tee_inv_def)
  from dest_ok_phase(3) [OF ok close.hyps(2)] ok have "dest_ok (ts_phase s) got ?s d" by simp
  then have "tee_inv n src got ?s" by (rule tee_inv_dest [OF close.prems]) simp_all
  then show ?case ..
next
  case (all_closed s)
  then have "tee_inv n src got (s\<lparr>ts_phase := Finished\<rparr>)" by (auto simp: tee_inv_def split: if_splits)
  then show ?case ..
qed

lemma tee_inv_fail:
  assumes "tee_fail s s'" "tee_inv n src got s"
  shows "tee_inv n src got s'"
  using assms
proof (induction rule: tee_fail.induct)
  case (loop s e)
  let ?s = "s\<lparr>ts_phase := Closing, ts_task := (\<lambda>_. TClose), ts_busy := (\<lambda>d. ep_exit (ts_busy s d)), ts_failed := Some e\<rparr>"
  have "dest_ok Closing got ?s d" if "d < n" for d
  proof -
    have ok: "dest_ok (ts_phase s) got s d" using loop that by (simp add: tee_inv_def)
    with dest_ok_out [OF ok] dest_ok_phase(4) [OF ok] loop.hyps show ?thesis by (auto simp: ep_exit_def)
  qed
  with loop show ?case by (auto simp: tee_inv_def)
next
  case (closing s e)
  then show ?case by (auto simp: tee_inv_def)
qed

lemma tee_reachable: "(tee_run n)\<^sup>*\<^sup>* (tee_new src) s \<Longrightarrow> \<exists>got. tee_inv n src got s"
proof (induction rule: rtranclp_induct)
  case base
  show ?case using tee_inv_new by blast
next
  case (step t u)
  then show ?case by (auto simp: tee_run_def dest: tee_inv_step tee_inv_fail)
qed

section \<open>Every run ends\<close>

fun tee_task_work :: "'a tee_task \<Rightarrow> nat" where
  "tee_task_work TIdle = 0"
| "tee_task_work (TStart _) = 2"
| "tee_task_work (TSend _) = 1"
| "tee_task_work TClose = 1"

fun phase_work :: "nat \<Rightarrow> tee_phase \<Rightarrow> nat" where
  "phase_work n Reading = n + 2"
| "phase_work n Spreading = n + 3"
| "phase_work n Closing = 1"
| "phase_work n Finished = 0"

definition tee_work :: "nat \<Rightarrow> 'a tee_st \<Rightarrow> nat" where
  "tee_work n s = (2 * n + 2) * length (ts_src s) + phase_work n (ts_phase s) + (\<Sum>d < n. tee_task_work (ts_task s d))"

lemma tee_step_decreases: "tee_step n s s' \<Longrightarrow> tee_work n s' < tee_work n s"
proof (induction rule: tee_step.induct)
  case (enter d s x b)
  have "(\<Sum>e < n. tee_task_work (((ts_task s)(d := TSend x)) e)) < (\<Sum>e < n. tee_task_work (ts_task s e))"
    by (rule sum_decreases [of d]) (use enter in auto)
  then show ?case by (simp add: tee_work_def)
next
  case (sent d s x)
  have "(\<Sum>e < n. tee_task_work (((ts_task s)(d := TIdle)) e)) < (\<Sum>e < n. tee_task_work (ts_task s e))"
    by (rule sum_decreases [of d]) (use sent in auto)
  then show ?case by (simp add: tee_work_def)
next
  case (close d s)
  have "(\<Sum>e < n. tee_task_work (((ts_task s)(d := TIdle)) e)) < (\<Sum>e < n. tee_task_work (ts_task s e))"
    by (rule sum_decreases [of d]) (use close in auto)
  then show ?case by (simp add: tee_work_def)
qed (simp_all add: tee_work_def)

lemma tee_run_decreases:
  assumes "tee_run n s s'"
  shows "tee_work n s' < tee_work n s"
proof (cases "tee_fail s s'")
  case True
  then show ?thesis by (induction rule: tee_fail.induct) (auto simp: tee_work_def)
next
  case False
  with assms show ?thesis by (simp add: tee_run_def tee_step_decreases)
qed

text \<open>Until it has finished, some task can go on.\<close>

lemma tee_progress:
  assumes "tee_inv n src got s" "ts_phase s \<noteq> Finished"
  shows "\<exists>s'. tee_step n s s'"
proof (cases "\<forall>d < n. ts_task s d = TIdle")
  case True
  show ?thesis
  proof (cases "ts_phase s")
    case Reading
    show ?thesis
    proof (cases "ts_src s")
      case Nil
      from tee_step.source_end [OF Reading Nil] show ?thesis by (rule exI)
    next
      case (Cons x xs)
      from tee_step.take [OF Reading Cons] show ?thesis by (rule exI)
    qed
  next
    case Spreading
    from tee_step.joined [OF Spreading True] show ?thesis by (rule exI)
  next
    case Closing
    from tee_step.all_closed [OF Closing True] show ?thesis by (rule exI)
  qed (use assms(2) in simp)
next
  case False
  then obtain d where d: "d < n" "ts_task s d \<noteq> TIdle" by blast
  with assms(1) have ok: "dest_ok (ts_phase s) got s d" by (simp add: tee_inv_def)
  show ?thesis
  proof (cases "ts_task s d")
    case (TStart x)
    with dest_ok_phase(1) [OF ok] have "ep_enter (ts_busy s d) = Inr True" by (simp add: ep_enter_def)
    from tee_step.enter [OF d(1) TStart this] show ?thesis by (rule exI)
  next
    case (TSend x)
    from tee_step.sent [OF d(1) TSend] show ?thesis by (rule exI)
  next
    case TClose
    from tee_step.close [OF d(1) TClose] show ?thesis by (rule exI)
  qed (use d in simp)
qed

end
