(* ===== verification/WorkerPool.thy ===== *)
theory WorkerPool imports Channel Routing begin

text \<open>
  \<open>recipes/routing/worker_pool.py\<close>: the dispatcher and the workers as a step relation.  The ready
  channel holds \<open>workers\<close> tokens, a worker's private channel \<open>worker_buffer\<close> jobs; a rendezvous hands
  the job over at once.  The user's \<open>handle\<close> is an argument; the result stream is drained by its
  reader, as the recipe requires.
\<close>

section \<open>State\<close>

text \<open>The dispatcher waits for an item, for a token, or inside the worker's \<open>send\<close>, or is done.\<close>

datatype 'q dispatcher = Fetch | NeedWorker 'q | Hand 'q nat | DispatchEnded

text \<open>A worker announces itself, waits for a job, handles one, has an outcome to send, or is done.\<close>

datatype ('q, 'r) worker = Announce | Wait | Handle 'q | Reply "exn + 'r" | WorkerEnded

record ('q, 'r) pool =
  po_incoming :: "'q list"
  po_ready :: "nat list"
  po_jobs :: "nat \<Rightarrow> 'q list"
  po_jobs_closed :: bool
  po_dispatch :: "'q dispatcher"
  po_worker :: "nat \<Rightarrow> ('q, 'r) worker"
  po_results :: "(exn + 'r) list"
  po_results_closed :: bool
  po_failed :: "exn option"

definition pool_start :: "int \<Rightarrow> int \<Rightarrow> 'q list \<Rightarrow> exn + ('q, 'r) pool" where
  "pool_start workers worker_buffer incoming =
     (if workers < 1 then Inl ValueError
      else if worker_buffer < 0 then Inl ValueError
      else Inr \<lparr>po_incoming = incoming, po_ready = [], po_jobs = (\<lambda>_. []), po_jobs_closed = False,
                po_dispatch = Fetch, po_worker = (\<lambda>_. Announce), po_results = [], po_results_closed = False, po_failed = None\<rparr>)"

text \<open>What \<open>handle\<close> gives for a request: the response or the \<open>Exception\<close> it raised, both of which are
  sent; a \<open>BaseException\<close> tears the pool down, which is \<open>pool_fail\<close>.\<close>

definition handled :: "('q \<Rightarrow> exn + 'r) \<Rightarrow> 'q \<Rightarrow> (exn + 'r) option" where
  "handled handle q = (case handle q of
     Inr r \<Rightarrow> Some (Inr r) | Inl e \<Rightarrow> if is_Exception e then Some (Inl e) else None)"

inductive pool_step ::
  "('q \<Rightarrow> exn + 'r) \<Rightarrow> nat \<Rightarrow> nat \<Rightarrow> bool \<Rightarrow> ('q, 'r) pool \<Rightarrow> ('q, 'r) pool \<Rightarrow> bool"
  for handle workers buffer close_results where
  fetch: "po_dispatch s = Fetch \<Longrightarrow> po_incoming s = q # qs \<Longrightarrow>
    pool_step handle workers buffer close_results s (s\<lparr>po_dispatch := NeedWorker q, po_incoming := qs\<rparr>)"
| incoming_end: "po_dispatch s = Fetch \<Longrightarrow> po_incoming s = [] \<Longrightarrow>
    pool_step handle workers buffer close_results s (s\<lparr>po_dispatch := DispatchEnded, po_jobs_closed := True\<rparr>)"
| pick: "po_dispatch s = NeedWorker q \<Longrightarrow> po_ready s = i # is \<Longrightarrow>
    pool_step handle workers buffer close_results s (s\<lparr>po_dispatch := Hand q i, po_ready := is\<rparr>)"
| buffered: "po_dispatch s = Hand q i \<Longrightarrow> length (po_jobs s i) < buffer \<Longrightarrow>
    pool_step handle workers buffer close_results s
      (s\<lparr>po_dispatch := Fetch, po_jobs := (po_jobs s)(i := po_jobs s i @ [q])\<rparr>)"
| rendezvous: "po_dispatch s = Hand q i \<Longrightarrow> po_jobs s i = [] \<Longrightarrow> i < workers \<Longrightarrow> po_worker s i = Wait \<Longrightarrow>
    pool_step handle workers buffer close_results s
      (s\<lparr>po_dispatch := Fetch, po_worker := (po_worker s)(i := Handle q)\<rparr>)"
| announce: "i < workers \<Longrightarrow> po_worker s i = Announce \<Longrightarrow> length (po_ready s) < workers \<Longrightarrow>
    pool_step handle workers buffer close_results s
      (s\<lparr>po_ready := po_ready s @ [i], po_worker := (po_worker s)(i := Wait)\<rparr>)"
| take_job: "i < workers \<Longrightarrow> po_worker s i = Wait \<Longrightarrow> po_jobs s i = q # qs \<Longrightarrow>
    pool_step handle workers buffer close_results s
      (s\<lparr>po_jobs := (po_jobs s)(i := qs), po_worker := (po_worker s)(i := Handle q)\<rparr>)"
| work: "i < workers \<Longrightarrow> po_worker s i = Handle q \<Longrightarrow> handled handle q = Some r \<Longrightarrow>
    pool_step handle workers buffer close_results s (s\<lparr>po_worker := (po_worker s)(i := Reply r)\<rparr>)"
| reply: "i < workers \<Longrightarrow> po_worker s i = Reply r \<Longrightarrow>
    pool_step handle workers buffer close_results s
      (s\<lparr>po_results := po_results s @ [r], po_worker := (po_worker s)(i := Announce)\<rparr>)"
| worker_end: "i < workers \<Longrightarrow> po_worker s i = Wait \<Longrightarrow> po_jobs s i = [] \<Longrightarrow> po_jobs_closed s \<Longrightarrow>
    pool_step handle workers buffer close_results s (s\<lparr>po_worker := (po_worker s)(i := WorkerEnded)\<rparr>)"
| pool_end: "close_results \<Longrightarrow> po_dispatch s = DispatchEnded \<Longrightarrow> \<forall>i < workers. po_worker s i = WorkerEnded \<Longrightarrow>
    \<not> po_results_closed s \<Longrightarrow> pool_step handle workers buffer close_results s (s\<lparr>po_results_closed := True\<rparr>)"

text \<open>A task raises, or the pool is cancelled: the task group cancels the others and the job channels are
  closed on the way out.\<close>

inductive pool_fail :: "nat \<Rightarrow> ('q, 'r) pool \<Rightarrow> ('q, 'r) pool \<Rightarrow> bool" for workers where
  "po_failed s = None \<Longrightarrow> po_dispatch s \<noteq> DispatchEnded \<or> (\<exists>i < workers. po_worker s i \<noteq> WorkerEnded) \<Longrightarrow>
    pool_fail workers s (s\<lparr>po_failed := Some e, po_dispatch := DispatchEnded, po_worker := (\<lambda>_. WorkerEnded),
      po_jobs_closed := True\<rparr>)"

definition pool_run ::
  "('q \<Rightarrow> exn + 'r) \<Rightarrow> nat \<Rightarrow> nat \<Rightarrow> bool \<Rightarrow> ('q, 'r) pool \<Rightarrow> ('q, 'r) pool \<Rightarrow> bool" where
  "pool_run handle workers buffer close_results s s' \<longleftrightarrow>
     pool_step handle workers buffer close_results s s' \<or> pool_fail workers s s'"

lemma pool_run_then:
  "pool_step handle workers buffer close_results s t \<Longrightarrow> (pool_run handle workers buffer close_results)\<^sup>*\<^sup>* t u \<Longrightarrow>
     (pool_run handle workers buffer close_results)\<^sup>*\<^sup>* s u"
  by (rule converse_rtranclp_into_rtranclp) (simp_all add: pool_run_def)

section \<open>The invariant\<close>

text \<open>A worker that waits is in exactly one place: its token is in the ready channel, the dispatcher has
  taken it, or a job is in its channel.\<close>

fun with_dispatcher :: "'q dispatcher \<Rightarrow> 'q list" where
  "with_dispatcher (NeedWorker q) = [q]"
| "with_dispatcher (Hand q _) = [q]"
| "with_dispatcher _ = []"

fun picked :: "'q dispatcher \<Rightarrow> nat list" where
  "picked (Hand _ i) = [i]"
| "picked _ = []"

fun outcome_of :: "('q \<Rightarrow> exn + 'r) \<Rightarrow> ('q, 'r) worker \<Rightarrow> (exn + 'r) multiset" where
  "outcome_of handle (Handle q) = {#the (handled handle q)#}"
| "outcome_of handle (Reply r) = {#r#}"
| "outcome_of handle _ = {#}"

definition token :: "('q, 'r) pool \<Rightarrow> nat \<Rightarrow> nat" where
  "token s i = count (mset (po_ready s @ picked (po_dispatch s))) i + length (po_jobs s i)"

definition tokens_ok :: "nat \<Rightarrow> ('q, 'r) pool \<Rightarrow> bool" where
  "tokens_ok workers s \<longleftrightarrow>
     (\<forall>i < workers. token s i = (if po_worker s i = Wait \<or> po_worker s i = WorkerEnded then 1 else 0)) \<and>
     set (po_ready s) \<subseteq> {..<workers} \<and> set (picked (po_dispatch s)) \<subseteq> {..<workers} \<and>
     (po_jobs_closed s \<longleftrightarrow> po_dispatch s = DispatchEnded) \<and> (po_jobs_closed s \<longrightarrow> po_incoming s = []) \<and>
     (po_results_closed s \<longrightarrow> po_jobs_closed s \<and> (\<forall>i < workers. po_worker s i = WorkerEnded)) \<and>
     (\<forall>i < workers. po_worker s i = WorkerEnded \<longrightarrow> po_jobs_closed s \<and> po_jobs s i = [])"

lemma tokens_step: "pool_step handle workers buffer close_results s s' \<Longrightarrow> tokens_ok workers s \<Longrightarrow> tokens_ok workers s'"
proof (induction rule: pool_step.induct)
  case (rendezvous s q i)
  then show ?case by (simp add: tokens_ok_def token_def) fastforce
next
  case (buffered s q i)
  then have i: "i < workers" and tok: "token s i = (if po_worker s i = Wait \<or> po_worker s i = WorkerEnded then 1 else 0)"
    and open_jobs: "\<not> po_jobs_closed s"
    by (simp_all add: tokens_ok_def)
  have "po_worker s i \<noteq> WorkerEnded" using buffered.prems i open_jobs unfolding tokens_ok_def by blast
  with tok buffered.hyps have "po_worker s i = Wait" "i \<notin> set (po_ready s)" "po_jobs s i = []"
    by (auto simp: token_def split: if_splits)
  with buffered i show ?case by (auto simp: tokens_ok_def token_def split: if_splits)
next
  case (announce i s)
  then show ?case by (auto simp: tokens_ok_def token_def split: if_splits)
next
  case (fetch s q qs)
  then show ?case by (auto simp: tokens_ok_def token_def split: if_splits)
next
  case (incoming_end s)
  then show ?case by (auto simp: tokens_ok_def token_def split: if_splits)
next
  case (pick s q i "is")
  then show ?case by (auto simp: tokens_ok_def token_def split: if_splits)
next
  case (take_job i s q qs)
  then show ?case by (auto simp: tokens_ok_def token_def split: if_splits)
next
  case (work i s q r)
  then show ?case by (auto simp: tokens_ok_def token_def split: if_splits)
next
  case (reply i s r)
  then show ?case by (auto simp: tokens_ok_def token_def split: if_splits)
next
  case (worker_end i s)
  then show ?case by (auto simp: tokens_ok_def token_def split: if_splits)
next
  case (pool_end s)
  then show ?case by (auto simp: tokens_ok_def token_def)
qed

text \<open>The ready channel never fills up: a worker that announces itself finds room.\<close>

lemma ready_distinct: "tokens_ok workers s \<Longrightarrow> distinct (po_ready s) \<and> set (po_ready s) \<subseteq> {..<workers}"
proof -
  assume ok: "tokens_ok workers s"
  have "count (mset (po_ready s)) i \<le> 1" for i
  proof (cases "i < workers")
    case True
    with ok have "token s i \<le> 1" by (simp add: tokens_ok_def)
    then show ?thesis by (simp add: token_def)
  next
    case False
    with ok have "i \<notin> set (po_ready s)" by (auto simp: tokens_ok_def)
    then have "count (mset (po_ready s)) i = 0" by simp
    then show ?thesis by linarith
  qed
  with ok show ?thesis
    unfolding tokens_ok_def distinct_count_atmost_1
    by (metis One_nat_def count_mset_0_iff le_0_eq le_Suc_eq)
qed

lemma ready_room:
  assumes "tokens_ok workers s" "i < workers" "po_worker s i = Announce"
  shows "length (po_ready s) < workers"
proof -
  from assms have "token s i = 0" by (simp add: tokens_ok_def)
  then have "i \<notin> set (po_ready s)" by (simp add: token_def)
  with ready_distinct [OF assms(1)] assms(2) have "set (po_ready s) \<subset> {..<workers}" by auto
  from psubset_card_mono [OF _ this] have "card (set (po_ready s)) < workers" by simp
  with ready_distinct [OF assms(1)] show ?thesis by (simp add: distinct_card)
qed

section \<open>Every request is answered once\<close>

definition answers :: "('q \<Rightarrow> exn + 'r) \<Rightarrow> 'q list \<Rightarrow> (exn + 'r) multiset" where
  "answers handle qs = mset (map (\<lambda>q. the (handled handle q)) qs)"

definition in_flight :: "('q \<Rightarrow> exn + 'r) \<Rightarrow> nat \<Rightarrow> ('q, 'r) pool \<Rightarrow> (exn + 'r) multiset" where
  "in_flight handle workers s =
     (\<Sum>i < workers. answers handle (po_jobs s i) + outcome_of handle (po_worker s i)) +
     answers handle (with_dispatcher (po_dispatch s))"

lemma sum_split: "(i :: nat) < n \<Longrightarrow> (\<Sum>j < n. f j :: 'a::comm_monoid_add) = f i + (\<Sum>j \<in> {..<n} - {i}. f j)"
  by (rule sum.remove) auto

lemma pool_conserves:
  assumes "pool_step handle workers buffer close_results s s'" "tokens_ok workers s"
  shows "mset (po_results s') + in_flight handle workers s' + answers handle (po_incoming s') =
    mset (po_results s) + in_flight handle workers s + answers handle (po_incoming s)"
  using assms
proof (induction rule: pool_step.induct)
  case (buffered s q i)
  then have "i < workers" by (simp add: tokens_ok_def)
  with buffered.hyps show ?case
    by (simp add: in_flight_def answers_def sum_split [of i workers])
next
  case (rendezvous s q i)
  then show ?case by (simp add: in_flight_def answers_def sum_split [of i workers])
next
  case (announce i s)
  then show ?case by (simp add: in_flight_def answers_def sum_split [of i workers])
next
  case (take_job i s q qs)
  then show ?case by (simp add: in_flight_def answers_def sum_split [of i workers])
next
  case (work i s q r)
  then show ?case by (simp add: in_flight_def answers_def sum_split [of i workers])
next
  case (reply i s r)
  then show ?case by (simp add: in_flight_def answers_def sum_split [of i workers])
next
  case (worker_end i s)
  then show ?case by (simp add: in_flight_def answers_def sum_split [of i workers])
qed (simp_all add: in_flight_def answers_def)

text \<open>A pool that failed has no running task left; what was answered before stays.\<close>

definition pool_ended :: "nat \<Rightarrow> ('q, 'r) pool \<Rightarrow> bool" where
  "pool_ended workers s \<longleftrightarrow> po_dispatch s = DispatchEnded \<and> (\<forall>i < workers. po_worker s i = WorkerEnded)"

definition pool_inv :: "('q \<Rightarrow> exn + 'r) \<Rightarrow> nat \<Rightarrow> 'q list \<Rightarrow> ('q, 'r) pool \<Rightarrow> bool" where
  "pool_inv handle workers qs s \<longleftrightarrow>
     (if po_failed s = None then tokens_ok workers s \<and>
        mset (po_results s) + in_flight handle workers s + answers handle (po_incoming s) = answers handle qs
      else mset (po_results s) \<subseteq># answers handle qs \<and> pool_ended workers s)"

lemma pool_step_failed: "pool_step handle workers buffer close_results s s' \<Longrightarrow> po_failed s' = po_failed s"
  by (induction rule: pool_step.induct) simp_all

lemma pool_step_ended:
  "pool_step handle workers buffer close_results s s' \<Longrightarrow> pool_ended workers s \<Longrightarrow>
     s' = s\<lparr>po_results_closed := True\<rparr> \<and> \<not> po_results_closed s"
  by (induction rule: pool_step.induct) (auto simp: pool_ended_def)

lemma pool_inv_results: "pool_inv handle workers qs s \<Longrightarrow> mset (po_results s) \<subseteq># answers handle qs"
  unfolding pool_inv_def by (metis mset_subset_eq_add_left add.assoc)

lemma pool_inv_step:
  assumes "pool_run handle workers buffer close_results s s'" "pool_inv handle workers qs s"
  shows "pool_inv handle workers qs s'"
proof (cases "pool_fail workers s s'")
  case True
  then have "po_failed s' \<noteq> None" "pool_ended workers s'" "po_results s' = po_results s"
    by (auto simp: pool_fail.simps pool_ended_def)
  with pool_inv_results [OF assms(2)] show ?thesis by (auto simp: pool_inv_def)
next
  case False
  with assms(1) have step: "pool_step handle workers buffer close_results s s'" by (simp add: pool_run_def)
  show ?thesis
  proof (cases "po_failed s = None")
    case True
    with assms(2) tokens_step [OF step] pool_conserves [OF step] pool_step_failed [OF step] show ?thesis
      by (simp add: pool_inv_def)
  next
    case failed: False
    with assms(2) have "pool_ended workers s" by (simp add: pool_inv_def)
    with pool_step_ended [OF step this] failed assms(2) show ?thesis by (auto simp: pool_inv_def pool_ended_def)
  qed
qed

lemma pool_inv_start:
  assumes "pool_start workers buffer qs = Inr s0"
  shows "pool_inv handle (nat workers) qs s0"
proof -
  from assms have "s0 = \<lparr>po_incoming = qs, po_ready = [], po_jobs = (\<lambda>_. []), po_jobs_closed = False,
      po_dispatch = Fetch, po_worker = (\<lambda>_. Announce), po_results = [], po_results_closed = False, po_failed = None\<rparr>"
    by (simp add: pool_start_def split: if_splits)
  then show ?thesis by (simp add: pool_inv_def tokens_ok_def token_def in_flight_def answers_def)
qed

lemma pool_reachable:
  assumes "pool_start workers buffer qs = Inr s0"
    and "(pool_run handle (nat workers) (nat buffer) close_results)\<^sup>*\<^sup>* s0 s"
  shows "pool_inv handle (nat workers) qs s"
  using assms(2) by (induction rule: rtranclp_induct) (auto intro: pool_inv_start [OF assms(1)] pool_inv_step)

section \<open>It goes on until every request is answered\<close>

lemma pool_progress:
  assumes ok: "tokens_ok workers s" and "0 < workers" and total: "\<And>q. handled handle q \<noteq> None"
    and stuck: "\<nexists>s'. pool_step handle workers buffer close_results s s'"
  shows "pool_ended workers s"
proof -
  have no: "\<not> pool_step handle workers buffer close_results s s'" for s' using stuck by blast
  have rest: "po_worker s i = Wait \<or> po_worker s i = WorkerEnded" if i: "i < workers" for i
  proof (cases "po_worker s i")
    case Announce
    from pool_step.announce [OF i this ready_room [OF ok i this]] no show ?thesis by blast
  next
    case (Handle q)
    obtain r where "handled handle q = Some r" using total by fastforce
    from pool_step.work [OF i Handle this] no show ?thesis by blast
  next
    case (Reply r)
    from pool_step.reply [OF i this] no show ?thesis by blast
  qed simp_all
  have one: "token s i = 1" if "i < workers" for i using rest [OF that] ok that by (simp add: tokens_ok_def)
  have jobs: "po_jobs s i = []" if i: "i < workers" for i
  proof (cases "po_jobs s i")
    case (Cons q qs)
    show ?thesis
    proof (cases "po_worker s i = Wait")
      case True
      from pool_step.take_job [OF i True Cons] no show ?thesis by blast
    next
      case False
      with rest [OF i] ok i show ?thesis by (simp add: tokens_ok_def)
    qed
  qed simp
  have ended: "po_dispatch s = DispatchEnded"
  proof (cases "po_dispatch s")
    case Fetch
    show ?thesis
    proof (cases "po_incoming s")
      case Nil
      from pool_step.incoming_end [OF Fetch Nil] no show ?thesis by blast
    next
      case (Cons q qs)
      from pool_step.fetch [OF Fetch Cons] no show ?thesis by blast
    qed
  next
    case (NeedWorker q)
    have "count (mset (po_ready s)) 0 = 1" using one [of 0] jobs [of 0] NeedWorker assms(2) by (simp add: token_def)
    then obtain i "is" where "po_ready s = i # is" by (cases "po_ready s") auto
    from pool_step.pick [OF NeedWorker this] no show ?thesis by blast
  next
    case (Hand q i)
    then have i: "i < workers" using ok by (simp add: tokens_ok_def)
    have "\<not> po_jobs_closed s" using ok Hand by (simp add: tokens_ok_def)
    with rest [OF i] ok i have "po_worker s i = Wait" by (auto simp: tokens_ok_def)
    from pool_step.rendezvous [OF Hand jobs [OF i] i this] no show ?thesis by blast
  qed simp
  have "po_worker s i = WorkerEnded" if i: "i < workers" for i
  proof (rule ccontr)
    assume "po_worker s i \<noteq> WorkerEnded"
    with rest [OF i] have "po_worker s i = Wait" by simp
    moreover have "po_jobs_closed s" using ok ended by (simp add: tokens_ok_def)
    ultimately show False using pool_step.worker_end [OF i _ jobs [OF i]] no by blast
  qed
  with ended show ?thesis by (simp add: pool_ended_def)
qed

text \<open>Every step uses up some of this.\<close>

fun dispatcher_work :: "'q dispatcher \<Rightarrow> nat" where
  "dispatcher_work Fetch = 1"
| "dispatcher_work (NeedWorker _) = 8"
| "dispatcher_work (Hand _ _) = 7"
| "dispatcher_work DispatchEnded = 0"

fun worker_work :: "('q, 'r) worker \<Rightarrow> nat" where
  "worker_work Announce = 2"
| "worker_work Wait = 1"
| "worker_work (Handle _) = 5"
| "worker_work (Reply _) = 4"
| "worker_work WorkerEnded = 0"

definition pool_work :: "nat \<Rightarrow> ('q, 'r) pool \<Rightarrow> nat" where
  "pool_work workers s = 8 * length (po_incoming s) + dispatcher_work (po_dispatch s) +
     (\<Sum>i < workers. 5 * length (po_jobs s i) + worker_work (po_worker s i)) + (if po_results_closed s then 0 else 1)"

lemma pool_work_decreases:
  assumes "pool_step handle workers buffer close_results s s'" "tokens_ok workers s"
  shows "pool_work workers s' < pool_work workers s"
  using assms
proof (induction rule: pool_step.induct)
  case (buffered s q i)
  then have "i < workers" by (simp add: tokens_ok_def)
  with buffered.hyps show ?case by (simp add: pool_work_def sum_split [of i workers])
next
  case (rendezvous s q i)
  then show ?case by (simp add: pool_work_def sum_split [of i workers])
next
  case (announce i s)
  then show ?case by (simp add: pool_work_def sum_split [of i workers])
next
  case (take_job i s q qs)
  then show ?case by (simp add: pool_work_def sum_split [of i workers])
next
  case (work i s q r)
  then show ?case by (simp add: pool_work_def sum_split [of i workers])
next
  case (reply i s r)
  then show ?case by (simp add: pool_work_def sum_split [of i workers])
next
  case (worker_end i s)
  then show ?case by (simp add: pool_work_def sum_split [of i workers])
qed (simp_all add: pool_work_def)

lemma pool_fail_decreases: "pool_fail workers s s' \<Longrightarrow> pool_work workers s' < pool_work workers s"
proof (induction rule: pool_fail.induct)
  case (1 s e)
  have le: "(\<Sum>i < workers. 5 * length (po_jobs s i)) \<le> (\<Sum>i < workers. 5 * length (po_jobs s i) + worker_work (po_worker s i))"
    by (rule sum_mono) simp
  show ?case
  proof (cases "po_dispatch s = DispatchEnded")
    case False
    then have "0 < dispatcher_work (po_dispatch s)" by (cases "po_dispatch s") simp_all
    with le show ?thesis by (simp add: pool_work_def)
  next
    case True
    with 1 obtain i where i: "i < workers" "po_worker s i \<noteq> WorkerEnded" by blast
    then have "0 < worker_work (po_worker s i)" by (cases "po_worker s i") simp_all
    with i(1) have "(\<Sum>i < workers. 5 * length (po_jobs s i)) < (\<Sum>i < workers. 5 * length (po_jobs s i) + worker_work (po_worker s i))"
      by (intro sum_strict_mono_ex1) auto
    then show ?thesis by (simp add: pool_work_def)
  qed
qed

lemma pool_run_decreases:
  assumes "pool_run handle workers buffer close_results s s'" "pool_inv handle workers qs s"
  shows "pool_work workers s' < pool_work workers s"
proof (cases "pool_fail workers s s'")
  case True
  then show ?thesis by (rule pool_fail_decreases)
next
  case False
  with assms(1) have step: "pool_step handle workers buffer close_results s s'" by (simp add: pool_run_def)
  show ?thesis
  proof (cases "po_failed s = None")
    case True
    with assms(2) pool_work_decreases [OF step] show ?thesis by (simp add: pool_inv_def)
  next
    case failed: False
    with assms(2) have "pool_ended workers s" by (simp add: pool_inv_def)
    with pool_step_ended [OF step this] show ?thesis by (simp add: pool_work_def)
  qed
qed

lemma pool_done:
  assumes inv: "pool_inv handle workers qs s" and fine: "po_failed s = None" and ended: "pool_ended workers s"
  shows "mset (po_results s) = answers handle qs"
proof -
  from inv fine have ok: "tokens_ok workers s" by (simp add: pool_inv_def)
  then have "po_jobs s i = []" if "i < workers" for i using ended that by (simp add: tokens_ok_def pool_ended_def)
  then have "in_flight handle workers s = {#}" using ended by (simp add: in_flight_def answers_def pool_ended_def)
  moreover have "po_incoming s = []" using ok ended by (simp add: tokens_ok_def pool_ended_def)
  ultimately show ?thesis using inv fine by (simp add: pool_inv_def answers_def)
qed

end
