(* ===== verification/Coordination.thy ===== *)
theory Coordination imports Channel Lossy begin

text \<open>
  \<open>recipes/coordination/select.py\<close> and \<open>batcher.py\<close>.

  A task group is not under \<open>src/\<close>: what its child tasks completed before it ended, and in which
  order, is an argument; what the code does at each completion is modelled.
\<close>

section \<open>\<open>select\<close>\<close>

text \<open>The closure state of the racers and the effect of one completed \<open>receive\<close>.\<close>

record 'a race_st =
  rs_winner :: "(nat \<times> 'a) option"
  rs_closed :: "bool list"
  rs_cancelled :: bool

definition race_new :: "nat \<Rightarrow> 'a race_st" where
  "race_new n = \<lparr>rs_winner = None, rs_closed = replicate n False, rs_cancelled = False\<rparr>"

definition race_done :: "nat \<Rightarrow> exn + 'a \<Rightarrow> ('a race_st, unit) py" where
  "race_done idx r s = (case r of
     Inl e \<Rightarrow>
       if e = EndOfStream then
         (let closed = (rs_closed s)[idx := True] in
          (Inr (), s\<lparr>rs_closed := closed, rs_cancelled := rs_cancelled s \<or> list_all id closed\<rparr>))
       else (Inl e, s)
   | Inr item \<Rightarrow>
       if rs_winner s = None then (Inr (), s\<lparr>rs_winner := Some (idx, item), rs_cancelled := True\<rparr>)
       else (Inr (), s))"

fun race_all :: "(nat \<times> (exn + 'a)) list \<Rightarrow> ('a race_st, unit) py" where
  "race_all [] = ret ()"
| "race_all (c # cs) = andThen (race_done (fst c) (snd c)) (\<lambda>_. race_all cs)"

text \<open>\<open>completions\<close>: the receives that ended before the group did, in order.\<close>

definition select :: "('s, (nat \<times> (exn + 'a)) list) py \<Rightarrow> nat \<Rightarrow> ('s, nat \<times> 'a) py" where
  "select completions n s =
     (if n = 0 then (Inl ValueError, s)
      else case completions s of
        (Inl e, s1) \<Rightarrow> (Inl e, s1)
      | (Inr cs, s1) \<Rightarrow> (case race_all cs (race_new n) of
          (Inl e, _) \<Rightarrow> (Inl e, s1)
        | (Inr _, t) \<Rightarrow> (case rs_winner t of None \<Rightarrow> (Inl EndOfStream, s1) | Some w \<Rightarrow> (Inr w, s1))))"

section \<open>The batcher\<close>

text \<open>\<open>'k\<close> is the private reply channel of a request.\<close>

record ('q, 'k) pending =
  pd_req :: 'q
  pd_reply :: 'k

datatype 'p got = Item 'p | Closed | Timeout

text \<open>The operations the batcher calls; \<open>bt_race t\<close> is the task group of \<open>_recv_or_timeout\<close>: the outcome
  of its receive, if that ended before the group did.\<close>

record ('p, 'q, 'r, 's) batcher =
  bt_receive :: "('s, 'p) py"
  bt_receive_nowait :: "('s, 'p) py"
  bt_race :: "pyfloat \<Rightarrow> ('s, (exn + 'p) option) py"
  bt_now :: "'s \<Rightarrow> pyfloat"
  bt_forward :: "'q list \<Rightarrow> ('s, 'r list) py"
  bt_reply :: "'p \<Rightarrow> exn + 'r \<Rightarrow> ('s, unit) py"
  bt_close :: "'p \<Rightarrow> ('s, unit) py"
  bt_req :: "'p \<Rightarrow> 'q"

definition try_recv_nowait :: "('p, 'q, 'r, 's) batcher \<Rightarrow> 'p list \<Rightarrow> ('s, bool \<times> 'p list) py" where
  "try_recv_nowait io batch s = (case bt_receive_nowait io s of
     (Inr p, s1) \<Rightarrow> (Inr (True, batch @ [p]), s1)
   | (Inl e, s1) \<Rightarrow> if e = WouldBlock \<or> e = EndOfStream then (Inr (False, batch), s1) else (Inl e, s1))"

definition recv_or_timeout :: "('p, 'q, 'r, 's) batcher \<Rightarrow> pyfloat \<Rightarrow> ('s, 'p got) py" where
  "recv_or_timeout io timeout s = (case bt_race io timeout s of
     (Inl e, s1) \<Rightarrow> (Inl e, s1)
   | (Inr None, s1) \<Rightarrow> (Inr Timeout, s1)
   | (Inr (Some (Inr p)), s1) \<Rightarrow> (Inr (Item p), s1)
   | (Inr (Some (Inl e)), s1) \<Rightarrow> if e = EndOfStream then (Inr Closed, s1) else (Inl e, s1))"

text \<open>Phase 1 and phase 2: at most \<open>room\<close> more requests.\<close>

fun drain_queued :: "('p, 'q, 'r, 's) batcher \<Rightarrow> nat \<Rightarrow> 'p list \<Rightarrow> ('s, 'p list) py" where
  "drain_queued io 0 batch = ret batch"
| "drain_queued io (Suc room) batch = andThen (try_recv_nowait io batch)
     (\<lambda>(more, batch'). if more then drain_queued io room batch' else ret batch')"

fun fill_window :: "('p, 'q, 'r, 's) batcher \<Rightarrow> pyfloat \<Rightarrow> nat \<Rightarrow> 'p list \<Rightarrow> ('s, 'p list) py" where
  "fill_window io deadline 0 batch s = (Inr batch, s)"
| "fill_window io deadline (Suc room) batch s =
     (let remaining = fsub deadline (bt_now io s) in
      if fle remaining (Fin 0) then (Inr batch, s)
      else andThen (recv_or_timeout io remaining)
             (\<lambda>got. case got of Item p \<Rightarrow> fill_window io deadline room (batch @ [p]) | _ \<Rightarrow> ret batch) s)"

definition gather :: "('p, 'q, 'r, 's) batcher \<Rightarrow> int \<Rightarrow> pyfloat \<Rightarrow> 'p \<Rightarrow> ('s, 'p list) py" where
  "gather io max_batch max_queue_delay first s =
     andThen (drain_queued io (nat max_batch - 1) [first])
       (\<lambda>batch t.
          if int (length batch) < max_batch \<and> flt (Fin 0) max_queue_delay
          then fill_window io (fadd (bt_now io t) max_queue_delay) (nat max_batch - length batch) batch t
          else (Inr batch, t)) s"

fun reply_all :: "('p, 'q, 'r, 's) batcher \<Rightarrow> ('p \<times> (exn + 'r)) list \<Rightarrow> ('s, unit) py" where
  "reply_all io [] = ret ()"
| "reply_all io (pv # rest) =
     andThen (bt_reply io (fst pv) (snd pv)) (\<lambda>_. andThen (bt_close io (fst pv)) (\<lambda>_. reply_all io rest))"

definition dispatch_batch :: "('p, 'q, 'r, 's) batcher \<Rightarrow> 'p list \<Rightarrow> ('s, unit) py" where
  "dispatch_batch io batch s = (case bt_forward io (map (bt_req io) batch) s of
     (Inl e, s1) \<Rightarrow>
       if is_Exception e then reply_all io (map (\<lambda>p. (p, Inl e)) batch) s1 else (Inl e, s1)
   | (Inr responses, s1) \<Rightarrow>
       if length responses \<noteq> length batch then reply_all io (map (\<lambda>p. (p, Inl RuntimeError)) batch) s1
       else reply_all io (zip batch (map Inr responses)) s1)"

partial_function (option) batcher_rounds ::
  "('p, 'q, 'r, 's) batcher \<Rightarrow> int \<Rightarrow> pyfloat \<Rightarrow> 's \<Rightarrow> ((exn + unit) \<times> 's) option" where
  "batcher_rounds io max_batch max_queue_delay s = (case bt_receive io s of
     (Inl e, s1) \<Rightarrow> Some (if e = EndOfStream then Inr () else Inl e, s1)
   | (Inr first, s1) \<Rightarrow>
       (case andThen (gather io max_batch max_queue_delay first) (dispatch_batch io) s1 of
          (Inl e, s2) \<Rightarrow> Some (Inl e, s2)
        | (Inr _, s2) \<Rightarrow> batcher_rounds io max_batch max_queue_delay s2))"

declare batcher_rounds.simps [code]

definition batcher_loop ::
  "('p, 'q, 'r, 's) batcher \<Rightarrow> bool \<Rightarrow> int \<Rightarrow> pyfloat \<Rightarrow> 's \<Rightarrow> ((exn + unit) \<times> 's) option" where
  "batcher_loop io has_clock max_batch max_queue_delay s =
     (if flt max_queue_delay (Fin 0) then Some (Inl ValueError, s)
      else if flt (Fin 0) max_queue_delay \<and> \<not> has_clock then Some (Inl ValueError, s)
      else if max_batch < 1 then Some (Inl ValueError, s)
      else batcher_rounds io max_batch max_queue_delay s)"

text \<open>\<open>submit\<close>: \<open>open_reply\<close> makes the private channel, \<open>recv_reply\<close> waits for its answer.\<close>

definition submit ::
  "('s, 'k) py \<Rightarrow> (('q, 'k) pending \<Rightarrow> ('s, unit) py) \<Rightarrow> ('s, unit) py \<Rightarrow> ('k \<Rightarrow> ('s, exn + 'r) py) \<Rightarrow> 'q \<Rightarrow>
   's \<Rightarrow> ((exn + 'r) \<times> 's) option" where
  "submit open_reply put checkpoint recv_reply req s = (case open_reply s of
     (Inl e, s1) \<Rightarrow> Some (Inl e, s1)
   | (Inr k, s1) \<Rightarrow>
       (case send_when_ready put checkpoint \<lparr>pd_req = req, pd_reply = k\<rparr> s1 of
          None \<Rightarrow> None
        | Some (Inl e, s2) \<Rightarrow> Some (Inl e, s2)
        | Some (Inr _, s2) \<Rightarrow>
            Some (andThen (recv_reply k) (\<lambda>result t. (result, t)) s2)))"

section \<open>The racers of \<open>select\<close>\<close>

text \<open>The items among the completions, and those that end the group with an error.\<close>

definition items_of :: "(nat \<times> (exn + 'a)) list \<Rightarrow> (nat \<times> 'a) list" where
  "items_of cs = [(i, x). (i, Inr x) \<leftarrow> cs]"

definition no_error :: "(nat \<times> (exn + 'a)) list \<Rightarrow> bool" where
  "no_error cs \<longleftrightarrow> list_all (\<lambda>c. case snd c of Inl e \<Rightarrow> e = EndOfStream | Inr _ \<Rightarrow> True) cs"

lemma race_all_spec:
  "no_error cs \<Longrightarrow> \<exists>t. race_all cs s = (Inr (), t) \<and>
     rs_winner t = (case rs_winner s of Some w \<Rightarrow> Some w | None \<Rightarrow> (case items_of cs of [] \<Rightarrow> None | w # _ \<Rightarrow> Some w))"
proof (induction cs arbitrary: s)
  case (Cons c cs)
  obtain i r where c: "c = (i, r)" by (cases c)
  from Cons.prems have tail: "no_error cs" by (simp add: no_error_def)
  show ?case
  proof (cases r)
    case (Inl e)
    with Cons.prems c have "e = EndOfStream" by (simp add: no_error_def)
    have it: "items_of ((i, r) # cs) = items_of cs" using Inl by (simp add: items_of_def)
    show ?thesis unfolding c it using \<open>e = EndOfStream\<close> Inl Cons.IH [OF tail, of "snd (race_done i r s)"]
      by (simp add: race_done_def andThen_def Let_def)
  next
    case (Inr x)
    have it: "items_of ((i, r) # cs) = (i, x) # items_of cs" using Inr by (simp add: items_of_def)
    show ?thesis unfolding c it using Inr Cons.IH [OF tail, of "snd (race_done i r s)"]
      by (cases "rs_winner s") (simp_all add: race_done_def andThen_def)
  qed
qed (simp add: items_of_def split: option.split)

text \<open>
  The scope of the group is cancelled exactly when there is a winner or all receivers have ended; what
  that spares, the receives still under way, is not among the completions.
\<close>

lemma race_cancels:
  assumes "race_all cs s = (r, t)" "rs_cancelled s \<longleftrightarrow> rs_winner s \<noteq> None \<or> list_all id (rs_closed s)"
  shows "rs_cancelled t \<longleftrightarrow> rs_winner t \<noteq> None \<or> list_all id (rs_closed t)"
  using assms
proof (induction cs arbitrary: s)
  case (Cons c cs)
  obtain q u where one: "race_done (fst c) (snd c) s = (q, u)" by (cases "race_done (fst c) (snd c) s")
  have grows: "list_all id xs \<Longrightarrow> list_all id (xs[i := True])" for xs i
    using set_update_subset_insert [of xs i True] by (auto simp: list_all_iff)
  have u: "rs_cancelled u \<longleftrightarrow> rs_winner u \<noteq> None \<or> list_all id (rs_closed u)"
    using one Cons.prems(2) grows [of "rs_closed s" "fst c"]
    by (auto simp: race_done_def Let_def id_def split: sum.splits if_splits)
  show ?case
  proof (cases q)
    case (Inl e)
    with one Cons.prems(1) have "t = u" by simp
    with u show ?thesis by (simp only:)
  next
    case (Inr a)
    with one Cons.prems(1) have "race_all cs u = (r, t)" by simp
    from Cons.IH [OF this u] show ?thesis .
  qed
qed simp

lemma race_new_open: "0 < n \<Longrightarrow> rs_cancelled (race_new n) \<longleftrightarrow> rs_winner (race_new n) \<noteq> None \<or> list_all id (rs_closed (race_new n))"
  by (simp add: race_new_def list_all_iff)

section \<open>What a batcher does\<close>

text \<open>The operations with a log: requests taken in, batches forwarded, replies sent.\<close>

record ('p, 'q, 'r) blog =
  bl_in :: "'p list"
  bl_fwd :: "'q list list"
  bl_out :: "('p \<times> (exn + 'r)) list"

definition noted :: "('s, 'a) py \<Rightarrow> ('a \<Rightarrow> 'l \<Rightarrow> 'l) \<Rightarrow> ('l \<times> 's, 'a) py" where
  "noted m note s = (case m (snd s) of
     (Inl e, w) \<Rightarrow> (Inl e, (fst s, w)) | (Inr a, w) \<Rightarrow> (Inr a, (note a (fst s), w)))"

definition took :: "'p \<Rightarrow> ('p, 'q, 'r) blog \<Rightarrow> ('p, 'q, 'r) blog" where
  "took p l = l\<lparr>bl_in := bl_in l @ [p]\<rparr>"

definition logged :: "('p, 'q, 'r, 's) batcher \<Rightarrow> ('p, 'q, 'r, ('p, 'q, 'r) blog \<times> 's) batcher" where
  "logged io = \<lparr>
     bt_receive = noted (bt_receive io) took,
     bt_receive_nowait = noted (bt_receive_nowait io) took,
     bt_race = (\<lambda>t. noted (bt_race io t) (\<lambda>r. case r of Some (Inr p) \<Rightarrow> took p | _ \<Rightarrow> id)),
     bt_now = (\<lambda>s. bt_now io (snd s)),
     bt_forward = (\<lambda>qs s. case bt_forward io qs (snd s) of
        (r, w) \<Rightarrow> (r, ((fst s)\<lparr>bl_fwd := bl_fwd (fst s) @ [qs]\<rparr>, w))),
     bt_reply = (\<lambda>p v. noted (bt_reply io p v) (\<lambda>_ l. l\<lparr>bl_out := bl_out l @ [(p, v)]\<rparr>)),
     bt_close = (\<lambda>p. noted (bt_close io p) (\<lambda>_. id)),
     bt_req = bt_req io\<rparr>"

text \<open>Requests taken in and nothing else.\<close>

definition took_in :: "'p list \<Rightarrow> ('p, 'q, 'r) blog \<Rightarrow> ('p, 'q, 'r) blog \<Rightarrow> bool" where
  "took_in new l l' \<longleftrightarrow> bl_in l' = bl_in l @ new \<and> bl_fwd l' = bl_fwd l \<and> bl_out l' = bl_out l"

lemma drain_queued_spec:
  assumes "drain_queued (logged io) room batch s = (Inr batch', s')"
  shows "\<exists>new. batch' = batch @ new \<and> length new \<le> room \<and> took_in new (fst s) (fst s')"
  using assms
proof (induction room arbitrary: batch s)
  case 0
  then show ?case by (intro exI [of _ "[]"]) (simp add: took_in_def)
next
  case (Suc room)
  obtain r w where r: "bt_receive_nowait io (snd s) = (r, w)" by (cases "bt_receive_nowait io (snd s)")
  show ?case
  proof (cases r)
    case (Inl e)
    with r Suc.prems have "batch' = batch" "s' = (fst s, w)"
      by (auto simp: andThen_def try_recv_nowait_def logged_def noted_def split: if_splits)
    then show ?thesis by (intro exI [of _ "[]"]) (simp add: took_in_def)
  next
    case (Inr p)
    with r Suc.prems have "drain_queued (logged io) room (batch @ [p]) (took p (fst s), w) = (Inr batch', s')"
      by (simp add: andThen_def try_recv_nowait_def) (simp add: logged_def noted_def)
    from Suc.IH [OF this] obtain new where
      "batch' = (batch @ [p]) @ new" "length new \<le> room" "took_in new (took p (fst s)) (fst s')" by auto
    then show ?thesis by (intro exI [of _ "p # new"]) (simp add: took_in_def took_def)
  qed
qed

lemma fill_window_spec:
  assumes "fill_window (logged io) deadline room batch s = (Inr batch', s')"
  shows "\<exists>new. batch' = batch @ new \<and> length new \<le> room \<and> took_in new (fst s) (fst s')"
  using assms
proof (induction room arbitrary: batch s)
  case 0
  then show ?case by (intro exI [of _ "[]"]) (simp add: took_in_def)
next
  case (Suc room)
  let ?t = "fsub deadline (bt_now io (snd s))"
  have now: "bt_now (logged io) s = bt_now io (snd s)" by (simp add: logged_def)
  show ?case
  proof (cases "fle ?t (Fin 0)")
    case True
    with Suc.prems now have "batch' = batch" "s' = s" by simp_all
    then show ?thesis by (intro exI [of _ "[]"]) (simp add: took_in_def)
  next
    case False
    obtain r w where r: "bt_race io ?t (snd s) = (r, w)" by (cases "bt_race io ?t (snd s)")
    show ?thesis
    proof (cases "\<exists>p. r = Inr (Some (Inr p))")
      case True
      then obtain p where p: "r = Inr (Some (Inr p))" ..
      have "recv_or_timeout (logged io) ?t s = (Inr (Item p), (took p (fst s), w))"
        using r p by (simp add: recv_or_timeout_def) (simp add: logged_def noted_def)
      with Suc.prems False now have "fill_window (logged io) deadline room (batch @ [p]) (took p (fst s), w) = (Inr batch', s')"
        by (simp add: Let_def)
      from Suc.IH [OF this] obtain new where
        "batch' = (batch @ [p]) @ new" "length new \<le> room" "took_in new (took p (fst s)) (fst s')" by auto
      then show ?thesis by (intro exI [of _ "p # new"]) (simp add: took_in_def took_def)
    next
      case none: False
      define x where "x = (case r of Inl e \<Rightarrow> Inl e | Inr None \<Rightarrow> Inr Timeout
        | Inr (Some (Inl e)) \<Rightarrow> if e = EndOfStream then Inr Closed else Inl e | Inr (Some (Inr p)) \<Rightarrow> Inr (Item p))"
      consider e where "r = Inl e" | "r = Inr None" | e where "r = Inr (Some (Inl e))"
        using none by (metis option.exhaust sum.exhaust)
      then have "recv_or_timeout (logged io) ?t s = (x, (fst s, w)) \<and> (\<forall>p. x \<noteq> Inr (Item p))"
        using r by cases (simp_all add: recv_or_timeout_def x_def logged_def noted_def)
      then have x: "recv_or_timeout (logged io) ?t s = (x, (fst s, w))" "\<And>p. x \<noteq> Inr (Item p)" by blast+
      with Suc.prems False now have "batch' = batch" "s' = (fst s, w)"
        by (auto simp: Let_def andThen_def split: sum.splits got.splits)
      then show ?thesis by (intro exI [of _ "[]"]) (simp add: took_in_def)
    qed
  qed
qed

lemma gather_spec:
  assumes "gather (logged io) max_batch delay first s = (Inr batch, s')" "1 \<le> max_batch"
  shows "\<exists>new. batch = first # new \<and> int (length batch) \<le> max_batch \<and> took_in new (fst s) (fst s')"
proof -
  obtain x t where d: "drain_queued (logged io) (nat max_batch - 1) [first] s = (x, t)"
    by (cases "drain_queued (logged io) (nat max_batch - 1) [first] s")
  with assms(1) obtain b where x: "x = Inr b" by (cases x) (auto simp: gather_def andThen_def)
  from drain_queued_spec [OF d [unfolded x]] obtain new where
    b: "b = first # new" "length new \<le> nat max_batch - 1" "took_in new (fst s) (fst t)" by auto
  show ?thesis
  proof (cases "int (length b) < max_batch \<and> flt (Fin 0) delay")
    case False
    with assms(1) d x have "batch = b" "s' = t" by (auto simp: gather_def andThen_def)
    with b assms(2) show ?thesis by (intro exI [of _ new]) auto
  next
    case True
    with assms(1) d x have
      "fill_window (logged io) (fadd (bt_now (logged io) t) delay) (nat max_batch - length b) b t = (Inr batch, s')"
      by (simp add: gather_def andThen_def)
    from fill_window_spec [OF this] obtain more where
      m: "batch = b @ more" "length more \<le> nat max_batch - length b" "took_in more (fst t) (fst s')" by blast
    with b True show ?thesis by (intro exI [of _ "new @ more"]) (auto simp: took_in_def)
  qed
qed

lemma reply_all_spec:
  assumes "reply_all (logged io) pvs s = (Inr (), s')"
  shows "bl_in (fst s') = bl_in (fst s) \<and> bl_fwd (fst s') = bl_fwd (fst s) \<and> bl_out (fst s') = bl_out (fst s) @ pvs"
  using assms
proof (induction pvs arbitrary: s)
  case (Cons pv rest)
  obtain r w where r: "bt_reply io (fst pv) (snd pv) (snd s) = (r, w)" by (cases "bt_reply io (fst pv) (snd pv) (snd s)")
  obtain c w2 where c: "bt_close io (fst pv) w = (c, w2)" by (cases "bt_close io (fst pv) w")
  let ?l = "(fst s)\<lparr>bl_out := bl_out (fst s) @ [pv]\<rparr>"
  from Cons.prems r c have "reply_all (logged io) rest (?l, w2) = (Inr (), s')"
    by (auto simp: andThen_def logged_def noted_def split: sum.splits)
  from Cons.IH [OF this] show ?case by simp
qed simp

lemma dispatch_batch_spec:
  assumes "dispatch_batch (logged io) batch s = (Inr (), s')"
  shows "bl_in (fst s') = bl_in (fst s) \<and> bl_fwd (fst s') = bl_fwd (fst s) @ [map (bt_req io) batch] \<and>
    (\<exists>vs. length vs = length batch \<and> bl_out (fst s') = bl_out (fst s) @ zip batch vs)"
proof -
  obtain r w where r: "bt_forward io (map (bt_req io) batch) (snd s) = (r, w)"
    by (cases "bt_forward io (map (bt_req io) batch) (snd s)")
  let ?l = "(fst s)\<lparr>bl_fwd := bl_fwd (fst s) @ [map (bt_req io) batch]\<rparr>"
  have fwd: "bt_forward (logged io) (map (bt_req (logged io)) batch) s = (r, (?l, w))"
    using r by (simp add: logged_def)
  have const: "map (\<lambda>p. (p, v)) batch = zip batch (replicate (length batch) v)" for v :: "exn + 'r"
    by (induction batch) simp_all
  have "\<exists>vs. length vs = length batch \<and> reply_all (logged io) (zip batch vs) (?l, w) = (Inr (), s')"
  proof (cases r)
    case (Inl e)
    with assms fwd have "reply_all (logged io) (zip batch (replicate (length batch) (Inl e))) (?l, w) = (Inr (), s')"
      by (simp add: dispatch_batch_def const [symmetric] split: if_splits)
    then show ?thesis by (intro exI [of _ "replicate (length batch) (Inl e)"]) simp
  next
    case (Inr rs)
    show ?thesis
    proof (cases "length rs = length batch")
      case True
      with assms fwd Inr show ?thesis by (intro exI [of _ "map Inr rs"]) (simp add: dispatch_batch_def)
    next
      case False
      with assms fwd Inr have "reply_all (logged io) (zip batch (replicate (length batch) (Inl RuntimeError))) (?l, w) = (Inr (), s')"
        by (simp add: dispatch_batch_def const [symmetric])
      then show ?thesis by (intro exI [of _ "replicate (length batch) (Inl RuntimeError)"]) simp
    qed
  qed
  then obtain vs where "length vs = length batch" "reply_all (logged io) (zip batch vs) (?l, w) = (Inr (), s')" by blast
  from reply_all_spec [OF this(2)] this(1) show ?thesis by auto
qed

lemma batcher_rounds_spec:
  fixes io :: "('p, 'q, 'r, 's) batcher"
  assumes "batcher_rounds (logged io) max_batch delay s = Some (Inr (), s')" "1 \<le> max_batch"
  shows "\<exists>batches. bl_in (fst s') = bl_in (fst s) @ concat batches \<and>
    bl_fwd (fst s') = bl_fwd (fst s) @ map (map (bt_req io)) batches \<and>
    list_all (\<lambda>b. b \<noteq> [] \<and> int (length b) \<le> max_batch) batches \<and>
    map fst (bl_out (fst s')) = map fst (bl_out (fst s)) @ concat batches"
proof -
  let ?C = "\<lambda>(s :: ('p, 'q, 'r) blog \<times> 's) (s' :: ('p, 'q, 'r) blog \<times> 's). \<exists>batches. bl_in (fst s') = bl_in (fst s) @ concat batches \<and>
    bl_fwd (fst s') = bl_fwd (fst s) @ map (map (bt_req io)) batches \<and>
    list_all (\<lambda>b. b \<noteq> [] \<and> int (length b) \<le> max_batch) batches \<and>
    map fst (bl_out (fst s')) = map fst (bl_out (fst s)) @ concat batches"
  let ?Q = "\<lambda>io' mb delay s (y :: (exn + unit) \<times> ('p, 'q, 'r) blog \<times> 's). io' = logged io \<longrightarrow> mb = max_batch \<longrightarrow> fst y = Inr () \<longrightarrow> ?C s (snd y)"
  have "?Q (logged io) max_batch delay s (Inr (), s')"
  proof (rule batcher_rounds.raw_induct [where P = ?Q, OF _ assms(1)], intro impI)
    fix loop io' mb delay and s :: "('p, 'q, 'r) blog \<times> 's" and y
    assume IH: "\<And>io mb delay s y. loop io mb delay s = Some y \<Longrightarrow> ?Q io mb delay s y"
      and eq: "io' = logged io" "mb = max_batch" and y: "fst y = Inr ()"
      and body: "(case bt_receive io' s of
         (Inl e, s1) \<Rightarrow> Some (if e = EndOfStream then Inr () else Inl e, s1)
       | (Inr first, s1) \<Rightarrow>
           (case andThen (gather io' mb delay first) (dispatch_batch io') s1 of
              (Inl e, s2) \<Rightarrow> Some (Inl e, s2)
            | (Inr _, s2) \<Rightarrow> loop io' mb delay s2)) = Some y"
    obtain r w where r: "bt_receive io (snd s) = (r, w)" by (cases "bt_receive io (snd s)")
    show "?C s (snd y)"
    proof (cases r)
      case (Inl e)
      then have "bt_receive (logged io) s = (Inl e, (fst s, w))" using r by (simp add: logged_def noted_def)
      with body eq have "snd y = (fst s, w)" by auto
      then show ?thesis by (intro exI [of _ "[]"]) simp
    next
      case (Inr first)
      then have rec: "bt_receive (logged io) s = (Inr first, (took first (fst s), w))"
        using r by (simp add: logged_def noted_def)
      obtain x s1 where g: "gather (logged io) max_batch delay first (took first (fst s), w) = (x, s1)"
        by (cases "gather (logged io) max_batch delay first (took first (fst s), w)")
      have "\<exists>b. x = Inr b"
        using body rec eq g y by (cases x) (auto simp: andThen_def)
      then obtain b where x: "x = Inr b" ..
      obtain z s2 where d: "dispatch_batch (logged io) b s1 = (z, s2)" by (cases "dispatch_batch (logged io) b s1")
      have "z = Inr ()" using body rec eq g x d y by (cases z) (auto simp: andThen_def)
      note d = d [unfolded this]
      have "loop (logged io) max_batch delay s2 = Some y" using body rec eq g x d by (simp add: andThen_def)
      from IH [OF this] y have rest: "?C s2 (snd y)" by simp
      from gather_spec [OF g [unfolded x] assms(2)] obtain new where
        new: "b = first # new" "int (length b) \<le> max_batch" "took_in new (took first (fst s)) (fst s1)" by auto
      from dispatch_batch_spec [OF d] obtain vs where
        out: "bl_in (fst s2) = bl_in (fst s1)" "bl_fwd (fst s2) = bl_fwd (fst s1) @ [map (bt_req io) b]"
          "length vs = length b" "bl_out (fst s2) = bl_out (fst s1) @ zip b vs" by blast
      from rest obtain batches where
        "bl_in (fst (snd y)) = bl_in (fst s2) @ concat batches"
        "bl_fwd (fst (snd y)) = bl_fwd (fst s2) @ map (map (bt_req io)) batches"
        "list_all (\<lambda>b. b \<noteq> [] \<and> int (length b) \<le> max_batch) batches"
        "map fst (bl_out (fst (snd y))) = map fst (bl_out (fst s2)) @ concat batches" by blast
      with new out show ?thesis
        by (intro exI [of _ "b # batches"]) (simp add: took_in_def took_def)
    qed
  qed
  then show ?thesis by simp
qed

end
