(* ===== verification/RecipeProps.thy ===== *)
theory RecipeProps imports Fanout WorkerPool Coordination begin

text \<open>
  The properties of the routing and coordination recipes: what reaches whom, in which order, once,
  and that the task structures come to an end when their inputs do.
\<close>

section \<open>Routing\<close>

text \<open>C35: \<open>load_balance\<close> without destinations raises ValueError and takes nothing; otherwise, however it
  ends, the items it took went to one destination each, in order, the k-th to destination k modulo
  their number.\<close>

theorem load_balance_round_robin:
  assumes "load_balance run_all (log_recv recv) (log_send send) aclose n close_dests (([], []), w) = Some (r, ((got, sent), w'))"
    and "\<And>s. fst (snd (run_all (map aclose [0..<n]) s)) = fst s"
  shows "(n = 0 \<longrightarrow> r = Inl ValueError \<and> got = [] \<and> sent = []) \<and>
    (0 < n \<longrightarrow> sent = map (\<lambda>k. (k mod n, got ! k)) [0..<length got])"
proof (cases "n = 0")
  case True
  with assms(1) show ?thesis by (simp add: load_balance_def)
next
  case False
  with assms(1) obtain r1 s1 where loop: "balance_loop (log_recv recv) (log_send send) n 0 (([], []), w) = Some (r1, s1)"
    and fin: "with_finally (if close_dests then run_all (map aclose [0..<n]) else ret ()) (r1, s1) = (r, ((got, sent), w'))"
    by (auto simp: load_balance_def)
  have "fst s1 = (got, sent)"
    using fin assms(2) [of s1]
    by (auto simp: with_finally_def split: prod.splits sum.splits if_splits)
  with balance_loop_log [OF loop] False show ?thesis by auto
qed

theorem load_balance_round_robin_witness:
  "map_option (\<lambda>(r, s). (r, fst s)) (load_balance (\<lambda>ops. ret ()) (log_recv (\<lambda>w. case w of [] \<Rightarrow> (Inl EndOfStream, []) | x # xs \<Rightarrow> (Inr x, xs)))
     (log_send (\<lambda>i x. ret ())) (\<lambda>i. ret ()) 2 True (([], []), [7, 8, 9::nat])) =
   Some (Inr (), ([7, 8, 9], [(0, 7), (1, 8), (0, 9)]))"
proof -
  let ?run = "load_balance (\<lambda>ops. ret ()) (log_recv (\<lambda>w. case w of [] \<Rightarrow> (Inl EndOfStream, []) | x # xs \<Rightarrow> (Inr x, xs)))
     (log_send (\<lambda>i x. ret ())) (\<lambda>i. ret ()) 2 True (([], []), [7, 8, 9::nat])"
  have *: "map_option (\<lambda>(r, s). (r, fst (fst s), snd s)) ?run = Some (Inr (), [7, 8, 9], [])" by code_simp
  then obtain sent where run: "?run = Some (Inr (), (([7, 8, 9], sent), []))" by auto
  from load_balance_round_robin [OF run] have "sent = [(0, 7), (1, 8), (0, 9)]" by (simp add: upt_conv_Cons)
  with run show ?thesis by simp
qed

text \<open>C12: \<open>tee\<close> broadcasts: whatever its tasks and the destinations do in whatever order, each destination has
  taken, in order, what was taken from the source, or all of it but the last item, so that a slow one holds
  up the others by at most one item; no send finds its endpoint in use; none is closed before the loop is
  left; every run is finite; and when no task can go on, the tee is over, every destination has taken the
  whole source unless the loop failed, and all are closed unless the closing failed.\<close>

theorem tee_broadcasts:
  assumes "(tee_run n)\<^sup>*\<^sup>* (tee_new src) s"
  shows "(\<exists>got. src = got @ ts_src s \<and> (\<forall>d < n. ts_out s d = got \<or> ts_phase s \<noteq> Reading \<and> ts_out s d = butlast got)) \<and>
    (\<forall>d < n. \<forall>x. ts_task s d = TStart x \<longrightarrow> ep_enter (ts_busy s d) = Inr True) \<and>
    (\<forall>d < n. ts_closed s d \<longrightarrow> ts_phase s = Closing \<or> ts_phase s = Finished) \<and>
    (\<forall>k s'. (tee_run n ^^ k) (tee_new src) s' \<longrightarrow> k \<le> tee_work n (tee_new src)) \<and>
    ((\<nexists>s'. tee_step n s s') \<longrightarrow> ts_phase s = Finished \<and> (ts_failed s = None \<longrightarrow> (\<forall>d < n. ts_out s d = src)) \<and>
       (ts_close_failed s = None \<longrightarrow> (\<forall>d < n. ts_closed s d)))"
proof -
  from tee_reachable [OF assms] obtain got where inv: "tee_inv n src got s" ..
  then have ok: "dest_ok (ts_phase s) got s d" if "d < n" for d using that by (simp add: tee_inv_def)
  have out: "ts_out s d = got \<or> ts_phase s \<noteq> Reading \<and> ts_out s d = butlast got" if "d < n" for d
    using dest_ok_out [OF ok [OF that]] ok [OF that] by (cases "ts_phase s") auto
  have free: "ep_enter (ts_busy s d) = Inr True" if "d < n" "ts_task s d = TStart x" for d x
    using dest_ok_phase(1) [OF ok] that by (simp add: ep_enter_def)
  have bound: "k \<le> tee_work n (tee_new src)" if "(tee_run n ^^ k) (tee_new src) s'" for k s'
    using relpowp_bound [where P = "\<lambda>_. True" and f = "tee_work n", OF _ _ that] tee_run_decreases by fastforce
  have finished: "ts_phase s = Finished \<and> (ts_failed s = None \<longrightarrow> (\<forall>d < n. ts_out s d = src)) \<and>
       (ts_close_failed s = None \<longrightarrow> (\<forall>d < n. ts_closed s d))" if "\<nexists>s'. tee_step n s s'"
  proof -
    have "ts_phase s = Finished" using tee_progress [OF inv] that by blast
    with inv ok show ?thesis by (auto simp: tee_inv_def)
  qed
  have src: "src = got @ ts_src s" using inv by (simp add: tee_inv_def)
  show ?thesis using src out free dest_ok_phase(4) [OF ok] bound finished by blast
qed

text \<open>Two destinations, the second of which has not taken the first item yet.\<close>

theorem tee_broadcasts_witness:
  "\<exists>got. [5, 6::nat] = got @ [6] \<and> [5] = got"
proof -
  let ?s0 = "tee_new [5, 6::nat]"
  let ?s1 = "?s0\<lparr>ts_src := [6], ts_phase := Spreading, ts_task := (\<lambda>_. TStart 5)\<rparr>"
  let ?s2 = "?s1\<lparr>ts_task := (ts_task ?s1)(0 := TSend 5), ts_busy := (ts_busy ?s1)(0 := True)\<rparr>"
  let ?s3 = "?s2\<lparr>ts_task := (ts_task ?s2)(0 := TIdle), ts_busy := (ts_busy ?s2)(0 := ep_exit (ts_busy ?s2 0)),
      ts_out := (ts_out ?s2)(0 := ts_out ?s2 0 @ [5])\<rparr>"
  have 1: "tee_step 2 ?s0 ?s1" by (rule tee_step.take) (simp_all add: tee_new_def)
  have 2: "tee_step 2 ?s1 ?s2" by (rule tee_step.enter) (simp_all add: tee_new_def ep_enter_def)
  have 3: "tee_step 2 ?s2 ?s3" by (rule tee_step.sent) simp_all
  have "(tee_run 2)\<^sup>*\<^sup>* ?s0 ?s3"
    by (rule tee_run_then [OF 1 tee_run_then [OF 2 tee_run_then [OF 3 rtranclp.rtrancl_refl]]])
  from tee_broadcasts [OF this] show ?thesis by (simp add: tee_new_def)
qed

text \<open>C11: \<open>merge\<close> doubles and reorders nothing: at every moment, also when a task failed and the rest was
  cancelled, what the output got from a source is a beginning of that source; the gate keeps every send
  from being refused; every run is finite; and when no task can go on, every source has come out
  completely unless a task failed, and the output is closed if asked for in either case.\<close>

theorem merge_delivers:
  assumes "merge_start n src = Inr s0" "(merge_run n close_dest)\<^sup>*\<^sup>* s0 s"
  shows "(\<forall>i < n. \<exists>rest. src i = out_of i (ms_out s) @ rest) \<and>
    (ms_lock s = None \<longrightarrow> ep_enter (ms_busy s) = Inr True) \<and>
    (\<forall>k s'. (merge_run n close_dest ^^ k) s0 s' \<longrightarrow> k \<le> merge_work n s0) \<and>
    ((\<nexists>s'. merge_step n close_dest s s') \<longrightarrow>
       (ms_failed s = None \<longrightarrow> (\<forall>i < n. out_of i (ms_out s) = src i)) \<and> (close_dest \<longrightarrow> ms_closed s))"
proof -
  have safe: "merge_safe n src s" using assms by (rule merge_reachable)
  have free: "ep_enter (ms_busy s) = Inr True" if "ms_lock s = None"
    using safe that by (simp add: merge_safe_def merge_inv_def ep_enter_def split: if_splits)
  have bound: "k \<le> merge_work n s0" if "(merge_run n close_dest ^^ k) s0 s'" for k s'
    using relpowp_bound [where P = "\<lambda>_. True" and f = "merge_work n", OF _ _ that] merge_run_decreases by fastforce
  have finished: "(ms_failed s = None \<longrightarrow> (\<forall>i < n. out_of i (ms_out s) = src i)) \<and> (close_dest \<longrightarrow> ms_closed s)"
    if stuck: "\<nexists>s'. merge_step n close_dest s s'"
  proof -
    have ended: "\<forall>i < n. ms_task s i = Ended"
      using safe merge_progress [of n src s close_dest] stuck by (auto simp: merge_safe_def split: if_splits)
    have "\<forall>i < n. out_of i (ms_out s) = src i" if "ms_failed s = None"
      using safe that ended unfolding merge_safe_def merge_inv_def by auto
    moreover have "ms_closed s" if close_dest using merge_step.all_ended [OF that ended] stuck by blast
    ultimately show ?thesis by blast
  qed
  show ?thesis using merge_safe_prefix [OF safe] free bound finished by blast
qed

theorem merge_delivers_witness:
  "\<exists>rest. [5, 6] = out_of 0 [(0::nat, 5::nat)] @ rest"
proof -
  let ?s0 = "\<lparr>ms_src = (\<lambda>_. [5, 6::nat]), ms_task = (\<lambda>_. Receiving), ms_lock = None, ms_busy = False, ms_out = [], ms_closed = False, ms_failed = None\<rparr>"
  let ?s1 = "?s0\<lparr>ms_src := (ms_src ?s0)(0 := [6]), ms_task := (ms_task ?s0)(0 := Queued 5)\<rparr>"
  let ?s2 = "?s1\<lparr>ms_task := (ms_task ?s1)(0 := Sending 5), ms_lock := Some 0, ms_busy := True\<rparr>"
  let ?s3 = "?s2\<lparr>ms_task := (ms_task ?s2)(0 := Receiving), ms_lock := None, ms_busy := ep_exit (ms_busy ?s2), ms_out := ms_out ?s2 @ [(0, 5)]\<rparr>"
  have 1: "merge_step 1 True ?s0 ?s1" by (rule merge_step.receive) simp_all
  have 2: "merge_step 1 True ?s1 ?s2" by (rule merge_step.enter) (simp_all add: ep_enter_def)
  have 3: "merge_step 1 True ?s2 ?s3" by (rule merge_step.sent) simp_all
  have "(merge_run 1 True)\<^sup>*\<^sup>* ?s0 ?s3"
    by (rule merge_run_then [OF 1 merge_run_then [OF 2 merge_run_then [OF 3 rtranclp.rtrancl_refl]]])
  from merge_delivers [OF _ this, of "\<lambda>_. [5, 6]"] show ?thesis by (simp add: merge_start_def)
qed

text \<open>C4: A worker pool answers every request once: at every moment, also when it was torn down, the results
  are some of the handler's outcomes of the requests, each at most as often as it is due; a worker that
  announces itself always finds room; every run is finite; and unless it failed, once no task can go on
  all requests are answered; the workers have ended and the results are closed if asked for either way.\<close>

theorem worker_pool_answers:
  assumes "pool_start workers buffer qs = Inr s0" "(pool_run handle (nat workers) (nat buffer) close_results)\<^sup>*\<^sup>* s0 s"
  shows "mset (po_results s) \<subseteq># answers handle qs \<and>
    (\<forall>i < nat workers. po_worker s i = Announce \<longrightarrow> length (po_ready s) < nat workers) \<and>
    (\<forall>k s'. (pool_run handle (nat workers) (nat buffer) close_results ^^ k) s0 s' \<longrightarrow> k \<le> pool_work (nat workers) s0) \<and>
    ((\<forall>q. handled handle q \<noteq> None) \<and> (\<nexists>s'. pool_step handle (nat workers) (nat buffer) close_results s s') \<longrightarrow>
       (po_failed s = None \<longrightarrow> mset (po_results s) = answers handle qs) \<and>
       (\<forall>i < nat workers. po_worker s i = WorkerEnded) \<and> (close_results \<longrightarrow> po_results_closed s))"
proof -
  have inv: "pool_inv handle (nat workers) qs s" using assms by (rule pool_reachable)
  have inv0: "pool_inv handle (nat workers) qs s0" using assms(1) by (rule pool_inv_start)
  have room: "length (po_ready s) < nat workers" if "i < nat workers" "po_worker s i = Announce" for i
    using inv that by (auto simp: pool_inv_def pool_ended_def intro: ready_room split: if_splits)
  have bound: "k \<le> pool_work (nat workers) s0"
    if "(pool_run handle (nat workers) (nat buffer) close_results ^^ k) s0 s'" for k s'
    using relpowp_bound [where P = "pool_inv handle (nat workers) qs" and f = "pool_work (nat workers)", OF _ inv0 that]
      pool_inv_step pool_run_decreases by fastforce
  have workers: "0 < nat workers" using assms(1) by (simp add: pool_start_def split: if_splits)
  have finished: "(po_failed s = None \<longrightarrow> mset (po_results s) = answers handle qs) \<and>
       (\<forall>i < nat workers. po_worker s i = WorkerEnded) \<and> (close_results \<longrightarrow> po_results_closed s)"
    if total: "\<forall>q. handled handle q \<noteq> None" and stuck: "\<nexists>s'. pool_step handle (nat workers) (nat buffer) close_results s s'"
  proof -
    have ended: "pool_ended (nat workers) s"
    proof (cases "po_failed s = None")
      case True
      with inv have "tokens_ok (nat workers) s" by (simp add: pool_inv_def)
      from pool_progress [OF this workers _ stuck] total show ?thesis by blast
    qed (use inv in \<open>simp add: pool_inv_def\<close>)
    then have e: "po_dispatch s = DispatchEnded" "\<forall>i < nat workers. po_worker s i = WorkerEnded" by (simp_all add: pool_ended_def)
    have "po_results_closed s" if close_results using pool_step.pool_end [OF that e] stuck by blast
    with pool_done [OF inv _ ended] ended show ?thesis by (auto simp: pool_ended_def)
  qed
  show ?thesis using pool_inv_results [OF inv] room bound finished by blast
qed

theorem worker_pool_answers_witness:
  "mset [Inr 8] \<subseteq># answers (\<lambda>q. Inr (q + 1)) [7::nat]"
proof -
  let ?h = "\<lambda>q::nat. Inr (q + 1) :: exn + nat"
  let ?step = "pool_step ?h 1 0 True"
  let ?s0 = "\<lparr>po_incoming = [7], po_ready = [], po_jobs = (\<lambda>_. []), po_jobs_closed = False,
      po_dispatch = Fetch, po_worker = (\<lambda>_. Announce), po_results = [], po_results_closed = False, po_failed = None\<rparr> :: (nat, nat) pool"
  let ?s1 = "?s0\<lparr>po_ready := po_ready ?s0 @ [0], po_worker := (po_worker ?s0)(0 := Wait)\<rparr>"
  let ?s2 = "?s1\<lparr>po_dispatch := NeedWorker 7, po_incoming := []\<rparr>"
  let ?s3 = "?s2\<lparr>po_dispatch := Hand 7 0, po_ready := []\<rparr>"
  let ?s4 = "?s3\<lparr>po_dispatch := Fetch, po_worker := (po_worker ?s3)(0 := Handle 7)\<rparr>"
  let ?s5 = "?s4\<lparr>po_worker := (po_worker ?s4)(0 := Reply (Inr 8))\<rparr>"
  let ?s6 = "?s5\<lparr>po_results := po_results ?s5 @ [Inr 8], po_worker := (po_worker ?s5)(0 := Announce)\<rparr>"
  have 1: "?step ?s0 ?s1" by (rule pool_step.announce) simp_all
  have 2: "?step ?s1 ?s2" by (rule pool_step.fetch) simp_all
  have 3: "?step ?s2 ?s3" by (rule pool_step.pick) simp_all
  have 4: "?step ?s3 ?s4" by (rule pool_step.rendezvous) simp_all
  have 5: "?step ?s4 ?s5" by (rule pool_step.work) (simp_all add: handled_def)
  have 6: "?step ?s5 ?s6" by (rule pool_step.reply) simp_all
  have "(pool_run ?h 1 0 True)\<^sup>*\<^sup>* ?s0 ?s6"
    by (rule pool_run_then [OF 1 pool_run_then [OF 2 pool_run_then [OF 3 pool_run_then [OF 4 pool_run_then [OF 5
          pool_run_then [OF 6 rtranclp.rtrancl_refl]]]]]])
  with worker_pool_answers [of 1 0 "[7]" ?s0 ?h True ?s6] show ?thesis by (simp add: pool_start_def)
qed

section \<open>Coordination\<close>

text \<open>C36: \<open>select\<close> returns the first item its receivers delivered, with the receiver's index, and raises
  EndOfStream exactly if none delivered any; an item that another receiver delivered before the
  losers were cancelled is returned to nobody.  Without receivers it raises ValueError.\<close>

theorem select_first:
  assumes "completions s = (Inr cs, s1)" "no_error cs" "0 < n"
  shows "select completions 0 s = (Inl ValueError, s) \<and>
    select completions n s = ((case items_of cs of [] \<Rightarrow> Inl EndOfStream | (i, x) # lost \<Rightarrow> Inr (i, x)), s1)"
proof -
  obtain t where "race_all cs (race_new n) = (Inr (), t)"
    "rs_winner t = (case items_of cs of [] \<Rightarrow> None | w # _ \<Rightarrow> Some w)"
    using race_all_spec [OF assms(2), of "race_new n"] by (auto simp: race_new_def)
  with assms(1,3) show ?thesis by (cases "items_of cs") (auto simp: select_def)
qed

theorem select_first_witness:
  "select (ret [(1, Inl EndOfStream), (2, Inr (5::nat)), (0, Inr 6)]) 3 () = (Inr (2, 5), ())"
  using select_first [of "ret [(1, Inl EndOfStream), (2, Inr (5::nat)), (0, Inr 6)]" "()"
      "[(1, Inl EndOfStream), (2, Inr (5::nat)), (0, Inr 6)]" "()" 3]
  by (simp add: items_of_def no_error_def)

text \<open>C9: A batcher that runs to the end of its input serves every request once and in order: the batches it
  forwards are the requests it took, cut into pieces of between one and \<open>max_batch\<close>, and each request
  gets exactly one reply, in the same order, whether \<open>forward\<close> answered or raised.\<close>

theorem batcher_serves:
  assumes "batcher_loop (logged io) has_clock max_batch max_queue_delay (\<lparr>bl_in = [], bl_fwd = [], bl_out = []\<rparr>, w) =
      Some (Inr (), (l, w'))"
  shows "\<exists>batches. bl_in l = concat batches \<and> bl_fwd l = map (map (bt_req io)) batches \<and>
    list_all (\<lambda>b. 1 \<le> length b \<and> int (length b) \<le> max_batch) batches \<and> map fst (bl_out l) = bl_in l"
proof -
  from assms have m: "1 \<le> max_batch" and
    run: "batcher_rounds (logged io) max_batch max_queue_delay (\<lparr>bl_in = [], bl_fwd = [], bl_out = []\<rparr>, w) = Some (Inr (), (l, w'))"
    by (auto simp: batcher_loop_def split: if_splits)
  have pred: "(\<lambda>b. b \<noteq> [] \<and> int (length b) \<le> max_batch) = (\<lambda>b. 1 \<le> length b \<and> int (length b) \<le> max_batch)"
    by (auto simp: fun_eq_iff Suc_le_eq)
  show ?thesis using batcher_rounds_spec [OF run m, unfolded pred] by auto
qed

text \<open>A world of queued requests: \<open>forward\<close> doubles; the window times out at once.\<close>

definition queued_io :: "(nat, nat, nat, nat list) batcher" where
  "queued_io = \<lparr>
     bt_receive = (\<lambda>w. case w of [] \<Rightarrow> (Inl EndOfStream, []) | x # xs \<Rightarrow> (Inr x, xs)),
     bt_receive_nowait = (\<lambda>w. case w of [] \<Rightarrow> (Inl WouldBlock, []) | x # xs \<Rightarrow> (Inr x, xs)),
     bt_race = (\<lambda>t w. (Inr None, w)), bt_now = (\<lambda>w. Fin 0),
     bt_forward = (\<lambda>qs w. (Inr (map (\<lambda>q. 2 * q) qs), w)),
     bt_reply = (\<lambda>p v. ret ()), bt_close = (\<lambda>p. ret ()), bt_req = id\<rparr>"

theorem batcher_serves_witness:
  "map_option (\<lambda>(r, s). (r, bl_fwd (fst s), bl_out (fst s)))
     (batcher_loop (logged queued_io) False 2 (Fin 0) (\<lparr>bl_in = [], bl_fwd = [], bl_out = []\<rparr>, [1, 2, 3])) =
   Some (Inr (), [[1, 2], [3]], [(1, Inr 2), (2, Inr 4), (3, Inr 6)]) \<and>
   (\<exists>batches. [[1::nat, 2], [3]] = map (map id) batches \<and> concat batches = [1, 2, 3])"
proof -
  let ?run = "batcher_loop (logged queued_io) False 2 (Fin 0) (\<lparr>bl_in = [], bl_fwd = [], bl_out = []\<rparr>, [1, 2, 3])"
  have *: "map_option (\<lambda>(r, s). (r, bl_in (fst s), bl_fwd (fst s), bl_out (fst s))) ?run =
      Some (Inr (), [1, 2, 3], [[1, 2], [3]], [(1, Inr 2), (2, Inr 4), (3, Inr 6)])"
    by code_simp
  then obtain l w' where run: "?run = Some (Inr (), (l, w'))" and
    l: "bl_in l = [1, 2, 3]" "bl_fwd l = [[1, 2], [3]]" "bl_out l = [(1, Inr 2), (2, Inr 4), (3, Inr 6)]"
    by auto
  from batcher_serves [OF run] l have "\<exists>batches. [[1::nat, 2], [3]] = map (map id) batches \<and> concat batches = [1, 2, 3]"
    by (auto simp: queued_io_def)
  with run l show ?thesis by simp
qed

end
