(* ===== verification/Hosting.thy ===== *)
theory Hosting imports Supervisor Routing begin

text \<open>
  The hosting recipes \<open>supervisor_host.py\<close> and \<open>sync_bridge.py\<close>, and the logger adapter of
  \<open>_logging.py\<close>.

  An \<open>Event\<close> is a boolean, made by \<open>start\<close>.  Everything awaited is an argument that acts on the
  host and the rest of the world, since the owner may call \<open>stop\<close> meanwhile.  A method that waits for
  one of the host's own events is two operations, before and after.
\<close>

section \<open>\<open>SupervisorHost\<close>\<close>

record sup_host =
  sh_grace :: pyfloat
  sh_finalize_timeout :: pyfloat
  sh_started :: bool
  sh_ready :: "bool option"
  sh_stop :: "bool option"
  sh_done :: "bool option"
  sh_startup_error :: "exn option"

definition sup_host_new :: sup_host where
  "sup_host_new = \<lparr>sh_grace = Fin 0, sh_finalize_timeout = Fin 2, sh_started = False,
     sh_ready = None, sh_stop = None, sh_done = None, sh_startup_error = None\<rparr>"

definition sh_start_begin :: "sup_host \<Rightarrow> (exn + unit) \<times> sup_host" where
  "sh_start_begin h =
     (if sh_started h then (Inl RuntimeError, h)
      else (Inr (), h\<lparr>sh_ready := Some False, sh_stop := Some False, sh_done := Some False,
              sh_startup_error := None, sh_started := True\<rparr>))"

text \<open>After \<open>ready\<close>.\<close>

definition sh_start_end :: "sup_host \<Rightarrow> (exn + unit) \<times> sup_host" where
  "sh_start_end h = (case sh_startup_error h of
     Some e \<Rightarrow> (Inl e, h\<lparr>sh_started := False\<rparr>) | None \<Rightarrow> (Inr (), h))"

text \<open>\<open>stop\<close> up to its wait for \<open>done\<close>: whether it waits at all.\<close>

definition sh_stop_begin :: "pyfloat option \<Rightarrow> pyfloat option \<Rightarrow> sup_host \<Rightarrow> (exn + bool) \<times> sup_host" where
  "sh_stop_begin grace finalize_timeout h =
     (if \<not> sh_started h then (Inr False, h)
      else if sh_stop h = None \<or> sh_done h = None then (Inl AssertionError, h)
      else (Inr True, h\<lparr>sh_grace := (case grace of None \<Rightarrow> sh_grace h | Some g \<Rightarrow> g),
              sh_finalize_timeout := (case finalize_timeout of None \<Rightarrow> sh_finalize_timeout h | Some t \<Rightarrow> t),
              sh_stop := Some True\<rparr>))"

definition sh_stop_end :: "sup_host \<Rightarrow> sup_host" where
  "sh_stop_end h = h\<lparr>sh_started := False\<rparr>"

text \<open>
  What \<open>_run\<close> awaits: the supervisor's context manager (\<open>hr_exit r\<close> gives what leaves the \<open>async
  with\<close> whose body ended with \<open>r\<close>), its methods, the stop event, the callback.
\<close>

record 's host_run =
  hr_enter :: "(sup_host \<times> 's, unit) py"
  hr_exit :: "exn + unit \<Rightarrow> (sup_host \<times> 's, unit) py"
  hr_wait_started :: "(sup_host \<times> 's, unit) py"
  hr_checkpoint :: "(sup_host \<times> 's, unit) py"
  hr_states :: "'s \<Rightarrow> daemon_state list"
  hr_wait_stop :: "(sup_host \<times> 's, unit) py"
  hr_on_stopping :: "(sup_host \<times> 's, unit) py option"
  hr_stop :: "pyfloat \<Rightarrow> pyfloat \<Rightarrow> (sup_host \<times> 's, unit) py"

definition on_host :: "(sup_host \<Rightarrow> sup_host) \<Rightarrow> sup_host \<times> 's \<Rightarrow> sup_host \<times> 's" where
  "on_host f s = (f (fst s), snd s)"

definition sh_serve :: "'s host_run \<Rightarrow> (sup_host \<times> 's, unit) py" where
  "sh_serve io = andThen (hr_wait_started io) (\<lambda>_. andThen (hr_checkpoint io) (\<lambda>_ s.
     if Failed \<in> set (hr_states io (snd s)) then (Inl RuntimeError, s)
     else hr_wait_stop io (on_host (\<lambda>h. h\<lparr>sh_ready := Some True\<rparr>) s)))"

definition sh_shutdown :: "'s host_run \<Rightarrow> (sup_host \<times> 's, unit) py" where
  "sh_shutdown io s =
     (let (callback_error, s1) = (case hr_on_stopping io of
            None \<Rightarrow> (None, s)
          | Some callback \<Rightarrow> (case callback s of (Inl e, s1) \<Rightarrow> (Some e, s1) | (Inr _, s1) \<Rightarrow> (None, s1))) in
      andThen (\<lambda>t. hr_stop io (sh_grace (fst t)) (sh_finalize_timeout (fst t)) t)
        (\<lambda>_ t. (case callback_error of None \<Rightarrow> Inr () | Some e \<Rightarrow> Inl e, t)) s1)"

definition sh_managed :: "'s host_run \<Rightarrow> (sup_host \<times> 's, unit) py" where
  "sh_managed io = andThen (hr_enter io) (\<lambda>_ s.
     case with_finally (sh_shutdown io) (sh_serve io s) of (r, s1) \<Rightarrow> hr_exit io r s1)"

definition sh_run :: "'s host_run \<Rightarrow> (sup_host \<times> 's, unit) py" where
  "sh_run io s =
     (let (r, s2) = (case sh_managed io s of
            (Inr _, s1) \<Rightarrow> (Inr (), s1)
          | (Inl e, s1) \<Rightarrow>
              if sh_ready (fst s1) \<noteq> Some True
              then (Inr (), on_host (\<lambda>h. h\<lparr>sh_startup_error := Some e, sh_ready := Some True\<rparr>) s1)
              else (Inl e, s1)) in
      (r, on_host (\<lambda>h. h\<lparr>sh_ready := Some True, sh_done := Some True\<rparr>) s2))"

text \<open>The owner's calls meanwhile: they change neither the events that \<open>_run\<close> sets nor the error.\<close>

definition host_polite :: "(sup_host \<times> 's, unit) py \<Rightarrow> bool" where
  "host_polite m \<longleftrightarrow> (\<forall>s r s'. m s = (r, s') \<longrightarrow>
     sh_ready (fst s') = sh_ready (fst s) \<and> sh_startup_error (fst s') = sh_startup_error (fst s))"

definition run_polite :: "'s host_run \<Rightarrow> bool" where
  "run_polite io \<longleftrightarrow> host_polite (hr_enter io) \<and> (\<forall>r. host_polite (hr_exit io r)) \<and> host_polite (hr_wait_started io) \<and>
     host_polite (hr_checkpoint io) \<and> host_polite (hr_wait_stop io) \<and>
     (\<forall>m. hr_on_stopping io = Some m \<longrightarrow> host_polite m) \<and> (\<forall>g t. host_polite (hr_stop io g t))"

lemma stop_polite: "host_polite (\<lambda>s. (Inr (), on_host (\<lambda>h. snd (sh_stop_begin g t h)) s))"
  by (auto simp: host_polite_def on_host_def sh_stop_begin_def)

lemma host_politeD:
  "host_polite m \<Longrightarrow> m s = (r, s') \<Longrightarrow>
     sh_ready (fst s') = sh_ready (fst s) \<and> sh_startup_error (fst s') = sh_startup_error (fst s)"
  unfolding host_polite_def by blast

lemma host_polite_andThen:
  assumes "host_polite m" "\<And>a. host_polite (f a)"
  shows "host_polite (andThen m f)"
  unfolding host_polite_def
proof (intro allI impI)
  fix s r s' assume run: "andThen m f s = (r, s')"
  obtain x s1 where m: "m s = (x, s1)" by (cases "m s")
  show "sh_ready (fst s') = sh_ready (fst s) \<and> sh_startup_error (fst s') = sh_startup_error (fst s)"
  proof (cases x)
    case (Inl e)
    with m run host_politeD [OF assms(1) m] show ?thesis by auto
  next
    case (Inr a)
    with m run have "f a s1 = (r, s')" by simp
    from host_politeD [OF assms(2) this] host_politeD [OF assms(1) m] show ?thesis by auto
  qed
qed

lemma polite_shutdown:
  fixes io :: "'s host_run"
  assumes "run_polite io"
  shows "host_polite (sh_shutdown io)"
  unfolding host_polite_def
proof (intro allI impI)
  fix s s' :: "sup_host \<times> 's" and r
  assume run: "sh_shutdown io s = (r, s')"
  let ?stop = "\<lambda>e. andThen (\<lambda>t. hr_stop io (sh_grace (fst t)) (sh_finalize_timeout (fst t)) t)
        (\<lambda>_ t. (case e of None \<Rightarrow> Inr () | Some e \<Rightarrow> Inl e, t))"
  have "host_polite (\<lambda>t. hr_stop io (sh_grace (fst t)) (sh_finalize_timeout (fst t)) t)"
    using assms by (simp add: run_polite_def host_polite_def)
  then have stop: "host_polite (?stop e)" for e
    by (rule host_polite_andThen) (simp add: host_polite_def)
  show "sh_ready (fst s') = sh_ready (fst s) \<and> sh_startup_error (fst s') = sh_startup_error (fst s)"
  proof (cases "hr_on_stopping io")
    case None
    then have "?stop None s = (r, s')" using run by (simp add: sh_shutdown_def)
    with host_politeD [OF stop] show ?thesis by blast
  next
    case (Some m)
    obtain x s1 where m: "m s = (x, s1)" by (cases "m s")
    from assms Some have "host_polite m" by (simp add: run_polite_def)
    note one = host_politeD [OF this m]
    have "?stop (case x of Inl e \<Rightarrow> Some e | Inr _ \<Rightarrow> None) s1 = (r, s')"
      using run Some m by (cases x) (simp_all add: sh_shutdown_def)
    from host_politeD [OF stop this] one show ?thesis by simp
  qed
qed

text \<open>
  Ready is set when the supervisor was entered, the daemons have started, the checkpoint passed and
  none of them has failed, and otherwise stays unset to the end of the block.
\<close>

lemma serve_ready:
  assumes pol: "run_polite io" and run: "sh_serve io s = (r, s')"
    and up: "up \<longleftrightarrow> (\<exists>t. andThen (hr_wait_started io) (\<lambda>_. hr_checkpoint io) s = (Inr (), t) \<and> Failed \<notin> set (hr_states io (snd t)))"
  shows "sh_startup_error (fst s') = sh_startup_error (fst s) \<and>
    sh_ready (fst s') = (if up then Some True else sh_ready (fst s))"
proof -
  let ?opening = "andThen (hr_wait_started io) (\<lambda>_. hr_checkpoint io)"
  have pol': "host_polite ?opening" "host_polite (hr_wait_stop io)"
    using pol by (simp_all add: run_polite_def host_polite_andThen)
  have eq: "sh_serve io = andThen ?opening (\<lambda>_ s. if Failed \<in> set (hr_states io (snd s)) then (Inl RuntimeError, s)
     else hr_wait_stop io (on_host (\<lambda>h. h\<lparr>sh_ready := Some True\<rparr>) s))"
    by (simp add: fun_eq_iff sh_serve_def andThen_def split: prod.split sum.split)
  obtain x t where b: "?opening s = (x, t)" by (cases "?opening s")
  note one = host_politeD [OF pol'(1) b]
  show ?thesis
  proof (cases "x = Inr () \<and> Failed \<notin> set (hr_states io (snd t))")
    case True
    then have "hr_wait_stop io (on_host (\<lambda>h. h\<lparr>sh_ready := Some True\<rparr>) t) = (r, s')" "up"
      using run b up by (simp_all add: eq)
    with host_politeD [OF pol'(2) this(1)] one show ?thesis by (simp add: on_host_def)
  next
    case False
    then have "s' = t" "\<not> up" using run b up by (cases x; auto simp: eq)+
    with one show ?thesis by simp
  qed
qed

lemma managed_ready:
  fixes io :: "'s host_run"
  assumes pol: "run_polite io" and run: "sh_managed io s = (r, s')"
    and up: "up \<longleftrightarrow> (\<exists>t. andThen (hr_enter io) (\<lambda>_. andThen (hr_wait_started io) (\<lambda>_. hr_checkpoint io)) s = (Inr (), t) \<and>
      Failed \<notin> set (hr_states io (snd t)))"
  shows "sh_startup_error (fst s') = sh_startup_error (fst s) \<and>
    sh_ready (fst s') = (if up then Some True else sh_ready (fst s))"
proof -
  obtain x s1 where enter: "hr_enter io s = (x, s1)" by (cases "hr_enter io s")
  have "host_polite (hr_enter io)" using pol by (simp add: run_polite_def)
  note one = host_politeD [OF this enter]
  show ?thesis
  proof (cases x)
    case (Inl e)
    with enter have "andThen (hr_enter io) f s = (Inl e, s1)" for f :: "unit \<Rightarrow> (sup_host \<times> 's, unit) py" by simp
    then have "s' = s1" "\<not> up" using run up by (auto simp: sh_managed_def)
    with one show ?thesis by simp
  next
    case (Inr u)
    obtain y s2 where serve: "sh_serve io s1 = (y, s2)" by (cases "sh_serve io s1")
    obtain q s3 where shut: "sh_shutdown io s2 = (q, s3)" by (cases "sh_shutdown io s2")
    obtain z where fin: "with_finally (sh_shutdown io) (y, s2) = (z, s3)"
      using shut by (cases q) (auto simp: with_finally_def)
    with run enter Inr serve have "hr_exit io z s3 = (r, s')" by (simp add: sh_managed_def)
    moreover have "host_polite (hr_exit io z)" using pol by (simp add: run_polite_def)
    ultimately have three: "sh_ready (fst s') = sh_ready (fst s3) \<and> sh_startup_error (fst s') = sh_startup_error (fst s3)"
      by (rule host_politeD [rotated])
    have "up \<longleftrightarrow> (\<exists>t. andThen (hr_wait_started io) (\<lambda>_. hr_checkpoint io) s1 = (Inr (), t) \<and> Failed \<notin> set (hr_states io (snd t)))"
      using up enter Inr by simp
    from serve_ready [OF pol serve this] host_politeD [OF polite_shutdown [OF pol] shut] one three show ?thesis by simp
  qed
qed

text \<open>How a run ends: by the error that left the block, if any, and whether the host was ready then.\<close>

lemma sh_run_ends:
  assumes pol: "run_polite io" and h: "sh_ready (fst s) = Some False" "sh_startup_error (fst s) = None"
    and run: "sh_run io s = (r, s')"
    and up: "up \<longleftrightarrow> (\<exists>t. andThen (hr_enter io) (\<lambda>_. andThen (hr_wait_started io) (\<lambda>_. hr_checkpoint io)) s = (Inr (), t) \<and>
      Failed \<notin> set (hr_states io (snd t)))"
  shows "sh_ready (fst s') = Some True \<and> sh_done (fst s') = Some True \<and>
    (case fst (sh_managed io s) of
       Inl e \<Rightarrow> if up then r = Inl e \<and> sh_startup_error (fst s') = None else r = Inr () \<and> sh_startup_error (fst s') = Some e
     | Inr _ \<Rightarrow> r = Inr () \<and> sh_startup_error (fst s') = None)"
proof -
  obtain x s1 where m: "sh_managed io s = (x, s1)" by (cases "sh_managed io s")
  from managed_ready [OF pol m up] h run m show ?thesis
    by (cases x) (auto simp: sh_run_def on_host_def Let_def split: if_splits)
qed

section \<open>\<open>host_async_dispatcher\<close>\<close>

record 'd bridge =
  br_box :: "'d option"
  br_error :: "exn option"
  br_ready :: bool
  br_shutdown :: "bool option"

definition bridge_new :: "'d bridge" where
  "bridge_new = \<lparr>br_box = None, br_error = None, br_ready = False, br_shutdown = None\<rparr>"

definition on_bridge :: "('d bridge \<Rightarrow> 'd bridge) \<Rightarrow> 'd bridge \<times> 's \<Rightarrow> 'd bridge \<times> 's" where
  "on_bridge f s = (f (fst s), snd s)"

text \<open>
  \<open>_serve\<close>.  \<open>setup\<close> is the caller's, whose result may be Python's None; \<open>start\<close> and \<open>host_stop\<close> are the
  hosted supervisor's, and \<open>leave r\<close> is the end of the task group whose body ended with \<open>r\<close>.
\<close>

definition br_startup ::
  "('d bridge \<times> 's, 'd option) py \<Rightarrow> ('d bridge \<times> 's, unit) py \<Rightarrow> ('d bridge \<times> 's, unit) py" where
  "br_startup setup start s =
     (let (r, s1) = andThen setup (\<lambda>d. andThen start (\<lambda>_ t. (Inr (), on_bridge (\<lambda>b. b\<lparr>br_box := d\<rparr>) t))) s;
          s2 = (case r of Inl e \<Rightarrow> on_bridge (\<lambda>b. b\<lparr>br_error := Some e\<rparr>) s1 | Inr _ \<Rightarrow> s1) in
      (r, on_bridge (\<lambda>b. b\<lparr>br_ready := True\<rparr>) s2))"

definition br_serve ::
  "('d bridge \<times> 's, 'd option) py \<Rightarrow> ('d bridge \<times> 's, unit) py \<Rightarrow> ('d bridge \<times> 's, unit) py \<Rightarrow> ('d bridge \<times> 's, unit) py \<Rightarrow>
   (exn + unit \<Rightarrow> ('d bridge \<times> 's, unit) py) \<Rightarrow> ('d bridge \<times> 's, unit) py" where
  "br_serve setup start wait_shutdown host_stop leave s =
     (case andThen (br_startup setup start) (\<lambda>_. andThen wait_shutdown (\<lambda>_. host_stop))
        (on_bridge (\<lambda>b. b\<lparr>br_shutdown := Some False\<rparr>) s) of
        (r, s1) \<Rightarrow> (case leave r s1 of
          (Inr _, s2) \<Rightarrow> (Inr (), s2)
        | (Inl e, s2) \<Rightarrow>
            (Inr (), on_bridge (\<lambda>b. if br_error b = None then b\<lparr>br_error := Some e\<rparr> else b) s2)))"

text \<open>What these calls may do to the bridge: nothing but set its shutdown event.\<close>

definition bridge_polite :: "('d bridge \<times> 's, 'a) py \<Rightarrow> bool" where
  "bridge_polite m \<longleftrightarrow> (\<forall>s r s'. m s = (r, s') \<longrightarrow>
     br_box (fst s') = br_box (fst s) \<and> br_error (fst s') = br_error (fst s) \<and> br_ready (fst s') = br_ready (fst s) \<and>
     (br_shutdown (fst s) \<noteq> None \<longrightarrow> br_shutdown (fst s') \<noteq> None))"

lemma bridge_politeD:
  "bridge_polite m \<Longrightarrow> m s = (r, s') \<Longrightarrow>
     br_box (fst s') = br_box (fst s) \<and> br_error (fst s') = br_error (fst s) \<and> br_ready (fst s') = br_ready (fst s) \<and>
     (br_shutdown (fst s) \<noteq> None \<longrightarrow> br_shutdown (fst s') \<noteq> None)"
  unfolding bridge_polite_def by blast

lemma bridge_polite_andThen:
  assumes "bridge_polite m" "\<And>a. bridge_polite (f a)"
  shows "bridge_polite (andThen m f)"
  unfolding bridge_polite_def
proof (intro allI impI)
  fix s r s' assume run: "andThen m f s = (r, s')"
  obtain x s1 where m: "m s = (x, s1)" by (cases "m s")
  show "br_box (fst s') = br_box (fst s) \<and> br_error (fst s') = br_error (fst s) \<and> br_ready (fst s') = br_ready (fst s) \<and>
     (br_shutdown (fst s) \<noteq> None \<longrightarrow> br_shutdown (fst s') \<noteq> None)"
  proof (cases x)
    case (Inl e)
    with m run bridge_politeD [OF assms(1) m] show ?thesis by auto
  next
    case (Inr a)
    with m run have "f a s1 = (r, s')" by simp
    from bridge_politeD [OF assms(2) this] bridge_politeD [OF assms(1) m] show ?thesis by auto
  qed
qed

text \<open>The startup: the dispatcher or the error is in its cell when \<open>ready\<close> is set.\<close>

lemma br_startup_ends:
  assumes pol: "bridge_polite setup" "bridge_polite start" and run: "br_startup setup start s = (r, s')"
  shows "br_ready (fst s') \<and> (br_shutdown (fst s) \<noteq> None \<longrightarrow> br_shutdown (fst s') \<noteq> None) \<and>
    (case fst (andThen setup (\<lambda>d. andThen start (\<lambda>_. ret d)) s) of
       Inl e \<Rightarrow> r = Inl e \<and> br_error (fst s') = Some e
     | Inr d \<Rightarrow> r = Inr () \<and> br_box (fst s') = d \<and> br_error (fst s') = br_error (fst s))"
proof -
  obtain x s1 where x: "setup s = (x, s1)" by (cases "setup s")
  note p1 = bridge_politeD [OF pol(1) x]
  show ?thesis
  proof (cases x)
    case (Inl e)
    with x run p1 show ?thesis by (auto simp: br_startup_def on_bridge_def)
  next
    case (Inr d)
    obtain y s2 where y: "start s1 = (y, s2)" by (cases "start s1")
    from x y Inr run p1 bridge_politeD [OF pol(2) y] show ?thesis
      by (cases y) (auto simp: br_startup_def on_bridge_def)
  qed
qed

text \<open>
  The calling thread, once \<open>ready.wait\<close> has returned \<open>in_time\<close>, and when it leaves the block.  It is another
  thread: \<open>b\<close> is the bridge at the moment it reads, which may be any from the setting of \<open>ready\<close> on.
\<close>

definition br_enter :: "bool \<Rightarrow> 'd bridge \<Rightarrow> exn + 'd" where
  "br_enter in_time b =
     (if \<not> in_time then Inl RuntimeError
      else if br_error b \<noteq> None then Inl RuntimeError
      else case br_box b of None \<Rightarrow> Inl AssertionError | Some d \<Rightarrow> Inr d)"

definition br_leave :: "('d bridge \<times> 's, unit) py \<Rightarrow> ('d bridge \<times> 's, unit) py" where
  "br_leave call_set s =
     (if br_shutdown (fst s) = None then (Inr (), s)
      else case call_set s of
        (Inl e, s1) \<Rightarrow> (if is_Exception e then Inr () else Inl e, s1)
      | (Inr _, s1) \<Rightarrow> (Inr (), s1))"

section \<open>\<open>ClockAwareLoggerAdapter\<close>\<close>

text \<open>The \<open>extra\<close> of a log call, if it was passed; values are \<open>'v\<close>, \<open>stamp\<close> is the reading of the clock.\<close>

definition process :: "'v \<Rightarrow> (string \<rightharpoonup> 'v) option \<Rightarrow> (string \<rightharpoonup> 'v)" where
  "process stamp extra =
     (let e = (case extra of None \<Rightarrow> Map.empty | Some m \<Rightarrow> m) in
      if e ''sim_time'' = None then e(''sim_time'' \<mapsto> stamp) else e)"

end
