(* ===== verification/HostingProps.thy ===== *)
theory HostingProps imports Hosting begin

text \<open>
  The properties of the hosting recipes: how a hosted supervisor's start and end are reported to the
  owner of its task group, and to a thread outside the event loop.
\<close>

text \<open>C37: However the hosted supervisor ends, \<open>start\<close> and \<open>stop\<close> come to their end: both events they wait
  for are set.  It is ready exactly when it was entered, all daemons known then have started, the
  checkpoint passed and none has failed.  An error that leaves the block before it is ready is kept from
  the owner's task group and raised by \<open>start\<close>, which leaves the host startable again; an error after that
  goes to the task group, and \<open>start\<close> returns.  When no error leaves the block (also when the supervisor
  swallowed the cancellation of a startup) \<open>start\<close> returns and so does the task.\<close>

theorem supervisor_host_run:
  assumes "run_polite io" "sh_start_begin h = (Inr (), h1)" "sh_run io (h1, w) = (r, (h2, w'))"
    and "up \<longleftrightarrow> (\<exists>t. andThen (hr_enter io) (\<lambda>_. andThen (hr_wait_started io) (\<lambda>_. hr_checkpoint io)) (h1, w) = (Inr (), t) \<and>
      Failed \<notin> set (hr_states io (snd t)))"
  shows "sh_ready h2 = Some True \<and> sh_done h2 = Some True \<and>
    (case fst (sh_managed io (h1, w)) of
       Inl e \<Rightarrow> if up then r = Inl e \<and> sh_start_end h2 = (Inr (), h2)
                else r = Inr () \<and> sh_start_end h2 = (Inl e, h2\<lparr>sh_started := False\<rparr>)
     | Inr _ \<Rightarrow> r = Inr () \<and> sh_start_end h2 = (Inr (), h2))"
proof -
  have h1: "sh_ready h1 = Some False" "sh_startup_error h1 = None"
    using assms(2) by (auto simp: sh_start_begin_def split: if_splits)
  from sh_run_ends [OF assms(1) _ _ assms(3,4)] h1 show ?thesis
    by (simp add: sh_start_end_def split: sum.splits if_splits)
qed

text \<open>A supervisor one of whose daemons has failed, and one that fails while it serves.\<close>

definition failing_run :: "unit host_run" where
  "failing_run = \<lparr>hr_enter = ret (), hr_exit = (\<lambda>r s. (r, s)), hr_wait_started = ret (), hr_checkpoint = ret (),
     hr_states = (\<lambda>_. [Running, Failed]), hr_wait_stop = ret (), hr_on_stopping = None, hr_stop = (\<lambda>g t. ret ())\<rparr>"

definition broken_run :: "unit host_run" where
  "broken_run = failing_run\<lparr>hr_states := (\<lambda>_. [Running]), hr_wait_stop := raise DaemonError\<rparr>"

theorem supervisor_host_run_witness:
  "fst (sh_start_end (fst (snd (sh_run failing_run (snd (sh_start_begin sup_host_new), ()))))) = Inl RuntimeError \<and>
   fst (sh_run failing_run (snd (sh_start_begin sup_host_new), ())) = Inr () \<and>
   fst (sh_start_end (fst (snd (sh_run broken_run (snd (sh_start_begin sup_host_new), ()))))) = Inr () \<and>
   fst (sh_run broken_run (snd (sh_start_begin sup_host_new), ())) = Inl DaemonError"
proof -
  let ?h = "snd (sh_start_begin sup_host_new)"
  have start: "sh_start_begin sup_host_new = (Inr (), ?h)" by (simp add: sh_start_begin_def sup_host_new_def)
  have polite: "run_polite failing_run" "run_polite broken_run"
    by (auto simp: run_polite_def host_polite_def failing_run_def broken_run_def)
  obtain r h2 where run: "sh_run failing_run (?h, ()) = (r, (h2, ()))" by (cases "sh_run failing_run (?h, ())") auto
  obtain q k2 where run': "sh_run broken_run (?h, ()) = (q, (k2, ()))" by (cases "sh_run broken_run (?h, ())") auto
  have "fst (sh_managed failing_run (?h, ())) = Inl RuntimeError" "fst (sh_managed broken_run (?h, ())) = Inl DaemonError"
    by code_simp+
  with supervisor_host_run [OF polite(1) start run refl] supervisor_host_run [OF polite(2) start run' refl] run run'
  show ?thesis by (simp add: failing_run_def broken_run_def)
qed

text \<open>C31: What the thread that enters the bridge is told.  When \<open>ready\<close> is set the dispatcher or the error of
  the startup is in its cell, and an error of the startup stays there whatever follows: entering raises
  RuntimeError, whenever the thread reads the cells.  When the startup succeeded, entering returns the
  dispatcher that \<open>setup\<close> made (AssertionError if that is None) as long as the thread reads before the
  serving task has ended.  An error that ends the task group later is kept in the cell, and a thread that
  reads only then is told that the setup failed.  The serving task itself never raises, and leaving the
  block raises nothing as long as the portal raises none but Exceptions.\<close>

theorem bridge_reports:
  assumes pol: "bridge_polite setup" "bridge_polite start" "bridge_polite wait_shutdown" "bridge_polite host_stop"
      "\<And>x. bridge_polite (leave x)"
    and s: "s = (bridge_new\<lparr>br_shutdown := Some False\<rparr>, w)"
    and startup: "br_startup setup start s = (q, (b, w1))"
    and body: "andThen (br_startup setup start) (\<lambda>_. andThen wait_shutdown (\<lambda>_. host_stop)) s = (x, (b2, w2))"
    and left: "leave x (b2, w2) = (y, (b3, w3))"
    and serve: "br_serve setup start wait_shutdown host_stop leave (bridge_new, w) = (r, (b', w'))"
    and call: "\<And>e. fst (call_set (b', w')) = Inl e \<Longrightarrow> is_Exception e"
  shows "r = Inr () \<and> br_ready b \<and> fst (br_leave call_set (b', w')) = Inr () \<and>
    (case fst (andThen setup (\<lambda>d. andThen start (\<lambda>_. ret d)) s) of
       Inl e \<Rightarrow> (\<forall>m \<in> {b, b2, b3, b'}. br_error m = Some e \<and> br_enter True m = Inl RuntimeError)
     | Inr d \<Rightarrow>
         (\<forall>m \<in> {b, b2, b3}. br_enter True m = (case d of None \<Rightarrow> Inl AssertionError | Some d \<Rightarrow> Inr d)) \<and>
         (case y of
            Inl e \<Rightarrow> br_error b' = Some e \<and> br_enter True b' = Inl RuntimeError
          | Inr _ \<Rightarrow> br_error b' = None \<and> br_enter True b' = br_enter True b))"
proof -
  have rest: "bridge_polite (andThen wait_shutdown (\<lambda>_. host_stop))" by (intro bridge_polite_andThen pol)
  note one = br_startup_ends [OF pol(1,2) startup]
  have init: "on_bridge (\<lambda>b. b\<lparr>br_shutdown := Some False\<rparr>) (bridge_new, w) = s" by (simp add: s on_bridge_def)
  have run: "r = Inr ()" "b' = (case y of Inr _ \<Rightarrow> b3
      | Inl e \<Rightarrow> if br_error b3 = None then b3\<lparr>br_error := Some e\<rparr> else b3)"
    using serve [unfolded br_serve_def init body prod.case left] by (auto simp: on_bridge_def split: sum.splits if_splits)
  have mid: "br_box b2 = br_box b \<and> br_error b2 = br_error b"
  proof (cases q)
    case (Inl e)
    with body startup show ?thesis by auto
  next
    case (Inr u)
    with body startup have "andThen wait_shutdown (\<lambda>_. host_stop) (b, w1) = (x, (b2, w2))" by simp
    from bridge_politeD [OF rest this] show ?thesis by simp
  qed
  have out: "br_box b3 = br_box b" "br_error b3 = br_error b" using bridge_politeD [OF pol(5) left] mid by simp_all
  have left: "fst (br_leave call_set (b', w')) = Inr ()"
    using call by (cases "call_set (b', w')") (auto simp: br_leave_def split: sum.splits)
  show ?thesis
  proof (cases "fst (andThen setup (\<lambda>d. andThen start (\<lambda>_. ret d)) s)")
    case (Inl e)
    with one have "br_error b = Some e" "br_ready b" by simp_all
    with Inl run mid out left show ?thesis by (cases y) (simp_all add: br_enter_def)
  next
    case (Inr d)
    with one s have "br_error b = None" "br_box b = d" "br_ready b" by (simp_all add: bridge_new_def)
    with Inr run mid out left show ?thesis by (cases y) (simp_all add: br_enter_def)
  qed
qed

text \<open>A setup that raises, and a task group that fails once it serves.\<close>

theorem bridge_reports_witness:
  "br_enter True (fst (snd (br_serve (\<lambda>s. (Inl ValueError, s)) (ret ()) (ret ()) (ret ()) (\<lambda>x s. (x, s))
       (bridge_new :: nat bridge, ())))) = Inl RuntimeError \<and>
   br_enter True (fst (snd (br_startup (ret (Some 3)) (ret ())
       (bridge_new\<lparr>br_shutdown := Some False\<rparr> :: nat bridge, ())))) = Inr 3 \<and>
   br_enter True (fst (snd (br_serve (ret (Some 3)) (ret ()) (ret ()) (ret ()) (\<lambda>_. raise DaemonError)
       (bridge_new :: nat bridge, ())))) = Inl RuntimeError"
proof -
  have pol: "bridge_polite (ret a)" "bridge_polite (\<lambda>s. (x, s))" "bridge_polite (raise e)" for a x e
    by (auto simp: bridge_polite_def)
  let ?gone = "\<lambda>s :: nat bridge \<times> unit. (Inl RuntimeError :: exn + unit, s)"
  let ?s = "(bridge_new\<lparr>br_shutdown := Some False\<rparr> :: nat bridge, ())"
  let ?fail = "\<lambda>s :: nat bridge \<times> unit. (Inl ValueError :: exn + nat option, s)"
  let ?b = "bridge_new\<lparr>br_shutdown := Some False, br_ready := True\<rparr> :: nat bridge"
  have "br_startup ?fail (ret ()) ?s = (Inl ValueError, (?b\<lparr>br_error := Some ValueError\<rparr>, ()))"
    "br_serve ?fail (ret ()) (ret ()) (ret ()) (\<lambda>x s. (x, s)) (bridge_new :: nat bridge, ()) =
       (Inr (), (?b\<lparr>br_error := Some ValueError\<rparr>, ()))"
    by (simp_all add: br_startup_def br_serve_def on_bridge_def bridge_new_def andThen_def)
  from bridge_reports [where call_set = ?gone and leave = "\<lambda>x s. (x, s)" and wait_shutdown = "ret ()" and host_stop = "ret ()",
      OF pol(2) pol(1) pol(1) pol(1) pol(2) refl this(1) _ _ this(2)] this(1,2)
  have "br_enter True (?b\<lparr>br_error := Some ValueError\<rparr>) = Inl RuntimeError" by simp
  moreover have ok: "br_startup (ret (Some 3)) (ret ()) ?s = (Inr (), (?b\<lparr>br_box := Some 3\<rparr>, ()))"
    "br_serve (ret (Some 3)) (ret ()) (ret ()) (ret ()) (\<lambda>_. raise DaemonError) (bridge_new :: nat bridge, ()) =
       (Inr (), (?b\<lparr>br_box := Some 3, br_error := Some DaemonError\<rparr>, ()))"
    by (simp_all add: br_startup_def br_serve_def on_bridge_def bridge_new_def andThen_def)
  from bridge_reports [where call_set = ?gone and leave = "\<lambda>_. raise DaemonError" and wait_shutdown = "ret ()" and host_stop = "ret ()",
      OF pol(1) pol(1) pol(1) pol(1) pol(3) refl ok(1) _ _ ok(2)] ok
  have "br_enter True (?b\<lparr>br_box := Some 3\<rparr>) = Inr 3 \<and>
      br_enter True (?b\<lparr>br_box := Some 3, br_error := Some DaemonError\<rparr>) = Inl RuntimeError" by simp
  ultimately show ?thesis using ok by (simp add: br_serve_def br_startup_def on_bridge_def bridge_new_def andThen_def)
qed

end
