(* ===== verification/Pipeline.thy ===== *)
theory Pipeline imports ChannelTasks Lossy Registry begin

text \<open>
  The two examples, which put the parts of the library together: \<open>examples/system_stack_mock.py\<close>, a
  planner, a policy and a dispenser that pass observations, chunks and actions to an actuator
  through two caches and two channels, and the session dispatcher of
  \<open>examples/system_stack_multi_session.py\<close>.

  A daemon is a program counter that stands where the code awaits (\<open>s2_pc\<close>, \<open>s1_pc\<close>, \<open>s0_pc\<close>,
  \<open>act_pc\<close>) and the code between two of these places; \<open>stack_step\<close> lets the four daemons and the
  harness run in any order.  How long a sleep lasts and when a tick comes is the clock's affair and left
  open, except that time does not run back.
\<close>

section \<open>Data and rates\<close>

record obs =
  ob_t :: pyfloat
  ob_seq :: int

record sub_goal =
  sg_target :: pyfloat
  sg_cog :: int
  sg_t_planned :: pyfloat

record chunk =
  ck_actions :: "pyfloat list"
  ck_cog :: int
  ck_t_emitted :: pyfloat

record action =
  ac_cmd :: pyfloat
  ac_cog :: int
  ac_t_dispensed :: pyfloat

text \<open>A float divided by a float that is neither zero nor an infinity, as the divisors here are.\<close>

fun fdiv :: "pyfloat \<Rightarrow> rat \<Rightarrow> pyfloat" where
  "fdiv (Fin p) q = round_double (p / q)"
| "fdiv x q = (if q < 0 then fneg x else x)"

definition OBS_RATE_HZ :: rat where "OBS_RATE_HZ = 20"
definition CHUNK_SIZE :: nat where "CHUNK_SIZE = 8"

definition obs_period :: pyfloat where
  "obs_period = fdiv (Fin 1) OBS_RATE_HZ"

text \<open>\<open>max(1, int(round(duration_s / obs_period)))\<close>; a duration that is no finite number raises.\<close>

definition n_steps :: "pyfloat \<Rightarrow> exn + int" where
  "n_steps duration_s = (case obs_period of Fin p \<Rightarrow>
     (case fdiv duration_s p of
        Fin x \<Rightarrow> Inr (max 1 (round_half_even x)) | NaN \<Rightarrow> Inl ValueError | _ \<Rightarrow> Inl OverflowError))"

text \<open>The two seconds of the demonstration are 40 steps of a twentieth, rounding included.\<close>

lemma round_half_even_eq: "x - 1/2 < of_int m \<Longrightarrow> of_int m < x + 1/2 \<Longrightarrow> round_half_even x = m"
proof -
  assume m: "x - 1/2 < of_int m" "of_int m < x + 1/2"
  have f: "of_int \<lfloor>x\<rfloor> \<le> x" "x < of_int \<lfloor>x\<rfloor> + 1" by linarith+
  show ?thesis
  proof (cases "x - of_int \<lfloor>x\<rfloor> < 1/2")
    case True
    with m f have "of_int \<lfloor>x\<rfloor> - 1 < (of_int m :: rat)" "of_int m < (of_int \<lfloor>x\<rfloor> + 1 :: rat)" by linarith+
    then have "m = \<lfloor>x\<rfloor>" by linarith
    with True show ?thesis by (simp add: round_half_even_def Let_def)
  next
    case False
    with m f have "of_int \<lfloor>x\<rfloor> < (of_int m :: rat)" "of_int m < (of_int \<lfloor>x\<rfloor> + 2 :: rat)" by linarith+
    then have e: "m = \<lfloor>x\<rfloor> + 1" by linarith
    with m False have "x - of_int \<lfloor>x\<rfloor> \<noteq> 1/2" by auto
    with False e show ?thesis by (simp add: round_half_even_def Let_def)
  qed
qed
lemma round_value_scale:
  assumes "ulp_exp q = u" "q * 2 powi (- u) = x" "x - 1/2 < of_int m" "of_int m < x + 1/2"
  shows "round_value q = of_int m * 2 powi u"
proof -
  have "q / 2 powi u = x" using assms(2) by (simp add: power_int_minus divide_inverse)
  with assms(1) round_half_even_eq [OF assms(3,4)] show ?thesis by (simp add: round_value_def Let_def)
qed
lemma obs_period_value: "obs_period = Fin (7205759403792794 / 2 ^ 57)"
proof -
  have "ilog2 (1/20) = - 5" by (rule ilog2_unique) (simp_all add: power_int_minus)
  then have "ulp_exp (1/20) = - 57" by (simp add: ulp_exp_def)
  from round_value_scale [OF this refl, where m = 7205759403792794]
  have "round_value (1/20) = 7205759403792794 / 2 ^ 57" by (simp add: power_int_minus)
  then show ?thesis unfolding obs_period_def OBS_RATE_HZ_def fdiv.simps round_double_def float_limit_def Let_def by simp
qed

lemma n_steps_two: "n_steps (Fin 2) = Inr 40"
proof -
  let ?x = "2 / (7205759403792794 / 2 ^ 57) :: rat"
  have "ilog2 ?x = 5" by (rule ilog2_unique) simp_all
  then have "ulp_exp ?x = - 47" by (simp add: ulp_exp_def)
  from round_value_scale [OF this refl, where m = 5629499534213120] have "round_value ?x = 40"
    by (simp add: power_int_minus)
  then have "round_double ?x = Fin 40" unfolding round_double_def float_limit_def Let_def by simp
  moreover have "round_half_even 40 = 40" using round_half_even_of_int [of 40] by simp
  ultimately show ?thesis unfolding n_steps_def obs_period_value pyfloat.case fdiv.simps by simp
qed

section \<open>What the daemons compute\<close>

definition plan :: "obs \<Rightarrow> pyfloat \<Rightarrow> sub_goal" where
  "plan obs now = \<lparr>sg_target = fmul (ob_t obs) (Fin (1/2)), sg_cog = (ob_seq obs * 31) mod 997, sg_t_planned = now\<rparr>"

definition make_chunk :: "obs \<Rightarrow> sub_goal \<Rightarrow> pyfloat \<Rightarrow> chunk" where
  "make_chunk obs sg now =
     \<lparr>ck_actions = map (\<lambda>i. fadd (fadd (sg_target sg) (fmul (round_double (1/100)) (Fin (of_nat i))))
          (fmul (ob_t obs) (round_double (1/1000)))) [0..<CHUNK_SIZE],
      ck_cog = sg_cog sg, ck_t_emitted = now\<rparr>"

text \<open>What can be said of a chunk; the remainder of Python's \<open>%\<close> by 997 is never negative.\<close>

definition chunk_ok :: "chunk \<Rightarrow> bool" where
  "chunk_ok c \<longleftrightarrow> length (ck_actions c) = CHUNK_SIZE \<and> 0 \<le> ck_cog c \<and> ck_cog c < 997"

definition sub_goal_ok :: "sub_goal \<Rightarrow> bool" where
  "sub_goal_ok g \<longleftrightarrow> 0 \<le> sg_cog g \<and> sg_cog g < 997"

lemma plan_ok: "sub_goal_ok (plan obs now)"
  by (simp add: sub_goal_ok_def plan_def)

lemma make_chunk_ok: "sub_goal_ok g \<Longrightarrow> chunk_ok (make_chunk obs g now)"
  by (simp add: chunk_ok_def sub_goal_ok_def make_chunk_def)

section \<open>The daemons and the harness\<close>

datatype s2_pc = S2Tick | S2Think obs | S2Done

datatype s1_pc = S1Tick | S1Think obs sub_goal | S1Send chunk | S1Sending chunk | S1Close | S1Done

datatype s0_pc = S0Take | S0Taking | S0Next chunk "pyfloat list" | S0Sending chunk action "pyfloat list"
  | S0Sleep chunk "pyfloat list" | S0Close | S0Done

datatype act_pc = ActTake | ActTaking | ActDone

record ('s, 't) stack =
  sk_now :: pyfloat
  sk_stopping :: bool
  sk_seq :: int
  sk_obs :: "obs latest_value"
  sk_subgoal :: "sub_goal latest_value"
  sk_chunks :: "(chunk, 's) chan"
  sk_actions :: "(action, 't) chan"
  sk_s2 :: s2_pc
  sk_s1 :: s1_pc
  sk_s0 :: s0_pc
  sk_act :: act_pc
  sk_log :: "action list"

text \<open>The start of \<open>run_mock\<close>: a clock at zero, empty caches, the two channels (\<open>maxsize\<close> 4 and 64).\<close>

definition stack_new :: "'s \<Rightarrow> 't \<Rightarrow> ('s, 't) stack" where
  "stack_new chunks actions =
     \<lparr>sk_now = Fin 0, sk_stopping = False, sk_seq = 0, sk_obs = latest_new, sk_subgoal = latest_new,
      sk_chunks = chan_new chunks, sk_actions = chan_new actions,
      sk_s2 = S2Tick, sk_s1 = S1Tick, sk_s0 = S0Take, sk_act = ActTake, sk_log = []\<rparr>"

text \<open>The body of the harness loop up to its await.\<close>

definition observe :: "('s, 't) stack \<Rightarrow> ('s, 't) stack" where
  "observe st = st\<lparr>sk_obs := latest_set \<lparr>ob_t = sk_now st, ob_seq = sk_seq st\<rparr> (sk_obs st), sk_seq := sk_seq st + 1\<rparr>"

text \<open>\<open>s2_planner\<close>: a tick, and the end of its mock inference.\<close>

definition s2_tick :: "('s, 't) stack \<Rightarrow> ('s, 't) stack" where
  "s2_tick st = st\<lparr>sk_s2 := (case latest_get (sk_obs st) of None \<Rightarrow> S2Tick | Some obs \<Rightarrow> S2Think obs)\<rparr>"

definition s2_wake :: "obs \<Rightarrow> ('s, 't) stack \<Rightarrow> ('s, 't) stack" where
  "s2_wake obs st = st\<lparr>sk_subgoal := latest_set (plan obs (sk_now st)) (sk_subgoal st), sk_s2 := S2Tick\<rparr>"

text \<open>\<open>s1_policy\<close>.\<close>

definition s1_tick :: "('s, 't) stack \<Rightarrow> ('s, 't) stack" where
  "s1_tick st = st\<lparr>sk_s1 := (case (latest_get (sk_obs st), latest_get (sk_subgoal st)) of
     (Some obs, Some sg) \<Rightarrow> S1Think obs sg | _ \<Rightarrow> S1Tick)\<rparr>"

definition s1_wake :: "obs \<Rightarrow> sub_goal \<Rightarrow> ('s, 't) stack \<Rightarrow> ('s, 't) stack" where
  "s1_wake obs sg st = st\<lparr>sk_s1 := S1Send (make_chunk obs sg (sk_now st))\<rparr>"

definition s1_send :: "chunk \<Rightarrow> ('s, 't) stack \<Rightarrow> ('s, 't) stack" where
  "s1_send c st = (case send_begin c (sk_chunks st) of
     Inl e \<Rightarrow> st\<lparr>sk_s1 := S1Close\<rparr> | Inr ch \<Rightarrow> st\<lparr>sk_chunks := ch, sk_s1 := S1Sending c\<rparr>)"

definition s1_try :: "(chunk, 's) stream_ops \<Rightarrow> chunk \<Rightarrow> ('s, 't) stack \<Rightarrow> ('s, 't) stack" where
  "s1_try ops c st = (case send_try ops c (sk_chunks st) of (r, ch) \<Rightarrow>
     st\<lparr>sk_chunks := ch, sk_s1 := (case r of None \<Rightarrow> S1Sending c | Some (Inr _) \<Rightarrow> S1Tick | Some (Inl _) \<Rightarrow> S1Close)\<rparr>)"

definition s1_close :: "(chunk, 's) stream_ops \<Rightarrow> ('s, 't) stack \<Rightarrow> ('s, 't) stack" where
  "s1_close ops st = st\<lparr>sk_chunks := (sk_chunks st)\<lparr>cn_stream := so_close_send ops (cn_stream (sk_chunks st))\<rparr>,
     sk_s1 := S1Done\<rparr>"

text \<open>\<open>s0_dispenser\<close>: the two loops; \<open>S0Next c rest\<close> stands before the next command of the chunk \<open>c\<close>.\<close>

definition s0_take :: "('s, 't) stack \<Rightarrow> ('s, 't) stack" where
  "s0_take st = (case recv_begin (sk_chunks st) of
     Inl e \<Rightarrow> st\<lparr>sk_s0 := S0Close\<rparr> | Inr ch \<Rightarrow> st\<lparr>sk_chunks := ch, sk_s0 := S0Taking\<rparr>)"

definition s0_try :: "(chunk, 's) stream_ops \<Rightarrow> ('s, 't) stack \<Rightarrow> ('s, 't) stack" where
  "s0_try ops st = (case recv_try ops (sk_chunks st) of (r, ch) \<Rightarrow>
     st\<lparr>sk_chunks := ch, sk_s0 := (case r of
        None \<Rightarrow> S0Taking | Some (Inr c) \<Rightarrow> S0Next c (ck_actions c) | Some (Inl _) \<Rightarrow> S0Close)\<rparr>)"

fun s0_next :: "chunk \<Rightarrow> pyfloat list \<Rightarrow> ('s, 't) stack \<Rightarrow> ('s, 't) stack" where
  "s0_next c [] st = st\<lparr>sk_s0 := S0Take\<rparr>"
| "s0_next c (cmd # rest) st =
     (if sk_stopping st then st\<lparr>sk_s0 := S0Close\<rparr>
      else let a = \<lparr>ac_cmd = cmd, ac_cog = ck_cog c, ac_t_dispensed = sk_now st\<rparr> in
        case send_begin a (sk_actions st) of
          Inl e \<Rightarrow> st\<lparr>sk_s0 := S0Close\<rparr>
        | Inr ch \<Rightarrow> st\<lparr>sk_actions := ch, sk_s0 := S0Sending c a rest\<rparr>)"

definition s0_send_try ::
  "(action, 't) stream_ops \<Rightarrow> chunk \<Rightarrow> action \<Rightarrow> pyfloat list \<Rightarrow> ('s, 't) stack \<Rightarrow> ('s, 't) stack" where
  "s0_send_try ops c a rest st = (case send_try ops a (sk_actions st) of (r, ch) \<Rightarrow>
     st\<lparr>sk_actions := ch, sk_s0 := (case r of
        None \<Rightarrow> S0Sending c a rest | Some (Inr _) \<Rightarrow> S0Sleep c rest | Some (Inl _) \<Rightarrow> S0Close)\<rparr>)"

definition s0_wake :: "chunk \<Rightarrow> pyfloat list \<Rightarrow> ('s, 't) stack \<Rightarrow> ('s, 't) stack" where
  "s0_wake c rest st = st\<lparr>sk_s0 := S0Next c rest\<rparr>"

definition s0_close :: "(action, 't) stream_ops \<Rightarrow> ('s, 't) stack \<Rightarrow> ('s, 't) stack" where
  "s0_close ops st = st\<lparr>sk_actions := (sk_actions st)\<lparr>cn_stream := so_close_send ops (cn_stream (sk_actions st))\<rparr>,
     sk_s0 := S0Done\<rparr>"

text \<open>\<open>actuator\<close>.\<close>

definition act_take :: "('s, 't) stack \<Rightarrow> ('s, 't) stack" where
  "act_take st = (case recv_begin (sk_actions st) of
     Inl e \<Rightarrow> st\<lparr>sk_act := ActDone\<rparr> | Inr ch \<Rightarrow> st\<lparr>sk_actions := ch, sk_act := ActTaking\<rparr>)"

definition act_try :: "(action, 't) stream_ops \<Rightarrow> ('s, 't) stack \<Rightarrow> ('s, 't) stack" where
  "act_try ops st = (case recv_try ops (sk_actions st) of (r, ch) \<Rightarrow>
     st\<lparr>sk_actions := ch,
        sk_act := (case r of None \<Rightarrow> ActTaking | Some (Inr _) \<Rightarrow> ActTake | Some (Inl _) \<Rightarrow> ActDone),
        sk_log := (case r of Some (Inr a) \<Rightarrow> sk_log st @ [a] | _ \<Rightarrow> sk_log st)\<rparr>)"

section \<open>All together\<close>

text \<open>
  A step of a daemon, of the harness, or a cancellation, which reaches a daemon where it awaits and
  takes it to its \<open>finally\<close>; a send or receive it waits in is ended.
\<close>

inductive stack_step ::
  "(chunk, 's) stream_ops \<Rightarrow> (action, 't) stream_ops \<Rightarrow> ('s, 't) stack \<Rightarrow> ('s, 't) stack \<Rightarrow> bool"
  for ops1 ops2 where
  harness: "stack_step ops1 ops2 st (observe st)"
| time: "sk_now st \<le> now \<Longrightarrow> stack_step ops1 ops2 st (st\<lparr>sk_now := now\<rparr>)"
| stop: "stack_step ops1 ops2 st (st\<lparr>sk_stopping := True\<rparr>)"
| s2_ticks: "sk_s2 st = S2Tick \<Longrightarrow> stack_step ops1 ops2 st (s2_tick st)"
| s2_wakes: "sk_s2 st = S2Think obs \<Longrightarrow> stack_step ops1 ops2 st (s2_wake obs st)"
| s2_ends: "stack_step ops1 ops2 st (st\<lparr>sk_s2 := S2Done\<rparr>)"
| s1_ticks: "sk_s1 st = S1Tick \<Longrightarrow> stack_step ops1 ops2 st (s1_tick st)"
| s1_wakes: "sk_s1 st = S1Think obs sg \<Longrightarrow> stack_step ops1 ops2 st (s1_wake obs sg st)"
| s1_sends: "sk_s1 st = S1Send c \<Longrightarrow> stack_step ops1 ops2 st (s1_send c st)"
| s1_tries: "sk_s1 st = S1Sending c \<Longrightarrow> stack_step ops1 ops2 st (s1_try ops1 c st)"
| s1_ends: "sk_s1 st \<in> {S1Tick, S1Think obs sg} \<Longrightarrow> stack_step ops1 ops2 st (st\<lparr>sk_s1 := S1Close\<rparr>)"
| s1_cancelled: "sk_s1 st = S1Sending c \<Longrightarrow>
    stack_step ops1 ops2 st (st\<lparr>sk_chunks := send_end c (sk_chunks st), sk_s1 := S1Close\<rparr>)"
| s1_closes: "sk_s1 st = S1Close \<Longrightarrow> stack_step ops1 ops2 st (s1_close ops1 st)"
| s0_takes: "sk_s0 st = S0Take \<Longrightarrow> stack_step ops1 ops2 st (s0_take st)"
| s0_tries: "sk_s0 st = S0Taking \<Longrightarrow> stack_step ops1 ops2 st (s0_try ops1 st)"
| s0_goes_on: "sk_s0 st = S0Next c rest \<Longrightarrow> stack_step ops1 ops2 st (s0_next c rest st)"
| s0_send_tries: "sk_s0 st = S0Sending c a rest \<Longrightarrow> stack_step ops1 ops2 st (s0_send_try ops2 c a rest st)"
| s0_wakes: "sk_s0 st = S0Sleep c rest \<Longrightarrow> stack_step ops1 ops2 st (s0_wake c rest st)"
| s0_cancelled_take: "sk_s0 st = S0Taking \<Longrightarrow>
    stack_step ops1 ops2 st (st\<lparr>sk_chunks := recv_end (sk_chunks st), sk_s0 := S0Close\<rparr>)"
| s0_cancelled_send: "sk_s0 st = S0Sending c a rest \<Longrightarrow>
    stack_step ops1 ops2 st (st\<lparr>sk_actions := send_end a (sk_actions st), sk_s0 := S0Close\<rparr>)"
| s0_cancelled_sleep: "sk_s0 st = S0Sleep c rest \<Longrightarrow> stack_step ops1 ops2 st (st\<lparr>sk_s0 := S0Close\<rparr>)"
| s0_closes: "sk_s0 st = S0Close \<Longrightarrow> stack_step ops1 ops2 st (s0_close ops2 st)"
| act_takes: "sk_act st = ActTake \<Longrightarrow> stack_step ops1 ops2 st (act_take st)"
| act_tries: "sk_act st = ActTaking \<Longrightarrow> stack_step ops1 ops2 st (act_try ops2 st)"
| act_cancelled: "sk_act st = ActTaking \<Longrightarrow>
    stack_step ops1 ops2 st (st\<lparr>sk_actions := recv_end (sk_actions st), sk_act := ActDone\<rparr>)"

section \<open>What every run keeps\<close>

text \<open>The commands of a chunk, and those the dispenser still has in hand.\<close>

definition commands :: "chunk \<Rightarrow> (pyfloat \<times> int) list" where
  "commands c = map (\<lambda>cmd. (cmd, ck_cog c)) (ck_actions c)"

abbreviation act_id :: "action \<Rightarrow> pyfloat \<times> int" where
  "act_id a \<equiv> (ac_cmd a, ac_cog a)"

fun in_hand :: "s0_pc \<Rightarrow> (pyfloat \<times> int) list" where
  "in_hand (S0Next c rest) = map (\<lambda>cmd. (cmd, ck_cog c)) rest"
| "in_hand (S0Sending c a rest) = act_id a # map (\<lambda>cmd. (cmd, ck_cog c)) rest"
| "in_hand (S0Sleep c rest) = map (\<lambda>cmd. (cmd, ck_cog c)) rest"
| "in_hand _ = []"

text \<open>Where the daemons stand is where they wait in the channels.\<close>

definition places_ok :: "('s, 't) stack \<Rightarrow> bool" where
  "places_ok st \<longleftrightarrow>
     cn_sending (sk_chunks st) = (case sk_s1 st of S1Sending c \<Rightarrow> [c] | _ \<Rightarrow> []) \<and>
     cn_receiving (sk_chunks st) = (if sk_s0 st = S0Taking then 1 else 0) \<and>
     cn_sending (sk_actions st) = (case sk_s0 st of S0Sending c a rest \<Rightarrow> [a] | _ \<Rightarrow> []) \<and>
     cn_receiving (sk_actions st) = (if sk_act st = ActTaking then 1 else 0)"

text \<open>What the planner and the policy make, wherever it is on its way.\<close>

definition made_ok :: "('s, 't) stack \<Rightarrow> bool" where
  "made_ok st \<longleftrightarrow> (\<forall>g. sk_subgoal st = Some g \<longrightarrow> sub_goal_ok g) \<and>
     (case sk_s1 st of S1Think obs sg \<Rightarrow> sub_goal_ok sg | S1Send c \<Rightarrow> chunk_ok c | S1Sending c \<Rightarrow> chunk_ok c | _ \<Rightarrow> True) \<and>
     (\<forall>c \<in> set (cn_accepted (sk_chunks st)). chunk_ok c)"

text \<open>What the dispenser has done with what it received, and what the actuator has logged.\<close>

definition flow_ok :: "('s, 't) stack \<Rightarrow> bool" where
  "flow_ok st \<longleftrightarrow>
     (\<exists>rest. map act_id (cn_accepted (sk_actions st)) @ rest = concat (map commands (cn_received (sk_chunks st))) \<and>
        (sk_s0 st \<noteq> S0Close \<and> sk_s0 st \<noteq> S0Done \<longrightarrow> rest = in_hand (sk_s0 st)) \<and>
        (cn_ended (sk_chunks st) \<longrightarrow> rest = [])) \<and>
     (cn_ended (sk_chunks st) \<longrightarrow> sk_s0 st = S0Close \<or> sk_s0 st = S0Done) \<and>
     sk_log st = cn_received (sk_actions st)"

text \<open>The dispenser's times.\<close>

definition times_ok :: "('s, 't) stack \<Rightarrow> bool" where
  "times_ok st \<longleftrightarrow> (let as = cn_accepted (sk_actions st) @ cn_sending (sk_actions st) in
     sorted (map ac_t_dispensed as) \<and> (\<forall>a \<in> set as. ac_t_dispensed a \<le> sk_now st))"

locale stack_streams =
  c: closable_stream put1 get1 items1 s_open1 r_open1 calm1 cap1 close_send1 close_recv1 +
  a: closable_stream put2 get2 items2 s_open2 r_open2 calm2 cap2 close_send2 close_recv2
  for put1 :: "chunk \<Rightarrow> ('s, unit) py" and get1 items1 s_open1 r_open1 calm1 cap1 close_send1 close_recv1
    and put2 :: "action \<Rightarrow> ('t, unit) py" and get2 items2 s_open2 r_open2 calm2 cap2 close_send2 close_recv2
begin

definition stack_ok :: "('s, 't) stack \<Rightarrow> bool" where
  "stack_ok st \<longleftrightarrow> c.chan_ok (sk_chunks st) \<and> a.chan_ok (sk_actions st) \<and>
     places_ok st \<and> made_ok st \<and> flow_ok st \<and> times_ok st"

lemmas stack_defs = stack_ok_def places_ok_def made_ok_def flow_ok_def times_ok_def Let_def

lemma stack_ok_new:
  assumes "calm1 s" "items1 s = []" "calm2 t" "items2 t = []"
  shows "stack_ok (stack_new s t)"
proof -
  have "c.chan_ok (sk_chunks (stack_new s t))" "a.chan_ok (sk_actions (stack_new s t))"
    using assms by (simp_all add: stack_new_def c.chan_ok_new a.chan_ok_new)
  then show ?thesis by (simp add: stack_defs) (simp add: stack_new_def chan_new_def latest_new_def)
qed

text \<open>The steps that move no channel.\<close>

lemma ok_harness: "stack_ok st \<Longrightarrow> stack_ok (observe st)"
  by (auto simp: stack_defs observe_def)

lemma ok_time: "stack_ok st \<Longrightarrow> sk_now st \<le> now \<Longrightarrow> stack_ok (st\<lparr>sk_now := now\<rparr>)"
  unfolding stack_defs Let_def by (auto intro: order_trans)

lemma ok_stop: "stack_ok st \<Longrightarrow> stack_ok (st\<lparr>sk_stopping := True\<rparr>)"
  by (auto simp: stack_defs)

lemma ok_s2: "stack_ok st \<Longrightarrow> stack_ok (s2_tick st)" "stack_ok st \<Longrightarrow> stack_ok (s2_wake obs st)"
    "stack_ok st \<Longrightarrow> stack_ok (st\<lparr>sk_s2 := S2Done\<rparr>)"
  by (auto simp: stack_defs s2_tick_def s2_wake_def latest_set_def plan_ok)

lemma ok_s1_tick: "stack_ok st \<Longrightarrow> sk_s1 st = S1Tick \<Longrightarrow> stack_ok (s1_tick st)"
  by (auto simp: stack_defs s1_tick_def latest_get_def split: option.split)

lemma ok_s1_wake: "stack_ok st \<Longrightarrow> sk_s1 st = S1Think obs sg \<Longrightarrow> stack_ok (s1_wake obs sg st)"
  by (auto simp: stack_defs s1_wake_def make_chunk_ok)

lemma ok_s1_ends: "stack_ok st \<Longrightarrow> sk_s1 st = S1Tick \<or> sk_s1 st = S1Think obs sg \<Longrightarrow> stack_ok (st\<lparr>sk_s1 := S1Close\<rparr>)"
  by (auto simp: stack_defs)

text \<open>The policy's side of the chunk channel.\<close>

lemma ok_s1_send:
  assumes ok: "stack_ok st" and pc: "sk_s1 st = S1Send c"
  shows "stack_ok (s1_send c st)"
proof -
  have ch: "c.chan_ok (sk_chunks st)" "cn_sending (sk_chunks st) = []" using ok pc by (simp_all add: stack_defs)
  from c.send_begin_frame [OF ch, of c] obtain h where "send_begin c (sk_chunks st) = Inr h" "c.chan_ok h" "cn_sending h = [c]" "cn_receiving h = cn_receiving (sk_chunks st)"
    "cn_accepted h = cn_accepted (sk_chunks st)" "cn_received h = cn_received (sk_chunks st)" "cn_ended h = cn_ended (sk_chunks st)" by blast
  with ok pc show ?thesis by (auto simp: stack_defs s1_send_def)
qed

lemma ok_s1_try:
  assumes ok: "stack_ok st" and pc: "sk_s1 st = S1Sending c"
  shows "stack_ok (s1_try c.ops c st)"
proof -
  have ch: "c.chan_ok (sk_chunks st)" "cn_sending (sk_chunks st) = [c]" using ok pc by (simp_all add: stack_defs)
  obtain r k where run: "send_try c.ops c (sk_chunks st) = (r, k)" by (cases "send_try c.ops c (sk_chunks st)")
  from c.send_try_frame [OF ch run] ok pc run show ?thesis
    by (cases r) (auto simp: stack_defs s1_try_def split: sum.splits)
qed

lemma ok_s1_cancelled:
  assumes ok: "stack_ok st" and pc: "sk_s1 st = S1Sending c"
  shows "stack_ok (st\<lparr>sk_chunks := send_end c (sk_chunks st), sk_s1 := S1Close\<rparr>)"
proof -
  have ch: "c.chan_ok (sk_chunks st)" "c \<in> set (cn_sending (sk_chunks st))" using ok pc by (simp_all add: stack_defs)
  from c.ok_send_end [OF ch] ok show ?thesis by (auto simp: stack_defs)
qed

lemma ok_s1_close:
  assumes ok: "stack_ok st" and pc: "sk_s1 st = S1Close"
  shows "stack_ok (s1_close c.ops st)"
  using ok pc c.ok_close_send [of "sk_chunks st"] by (auto simp: stack_defs s1_close_def)

text \<open>The dispenser's side of the chunk channel.\<close>

lemma ok_s0_take:
  assumes ok: "stack_ok st" and pc: "sk_s0 st = S0Take"
  shows "stack_ok (s0_take st)"
proof -
  have ch: "c.chan_ok (sk_chunks st)" "cn_receiving (sk_chunks st) = 0" using ok pc by (simp_all add: stack_defs)
  from c.recv_begin_frame [OF ch] obtain h where "recv_begin (sk_chunks st) = Inr h" "c.chan_ok h" "cn_sending h = cn_sending (sk_chunks st)" "cn_receiving h = 1"
    "cn_accepted h = cn_accepted (sk_chunks st)" "cn_received h = cn_received (sk_chunks st)" "cn_ended h = cn_ended (sk_chunks st)" by blast
  with ok pc show ?thesis by (auto simp: stack_defs s0_take_def)
qed

lemma ok_s0_try:
  assumes ok: "stack_ok st" and pc: "sk_s0 st = S0Taking"
  shows "stack_ok (s0_try c.ops st)"
proof -
  have ch: "c.chan_ok (sk_chunks st)" "cn_receiving (sk_chunks st) = 1" using ok pc by (simp_all add: stack_defs)
  obtain r k where run: "recv_try c.ops (sk_chunks st) = (r, k)" by (cases "recv_try c.ops (sk_chunks st)")
  from c.recv_try_frame [OF ch run] ok pc run show ?thesis
    by (cases r) (auto simp: stack_defs s0_try_def commands_def split: sum.splits)
qed

lemma ok_s0_cancelled_take:
  assumes ok: "stack_ok st" and pc: "sk_s0 st = S0Taking"
  shows "stack_ok (st\<lparr>sk_chunks := recv_end (sk_chunks st), sk_s0 := S0Close\<rparr>)"
proof -
  have ch: "c.chan_ok (sk_chunks st)" "0 < cn_receiving (sk_chunks st)" using ok pc by (simp_all add: stack_defs)
  from c.ok_recv_end [OF ch] ok pc show ?thesis by (auto simp: stack_defs)
qed

text \<open>The dispenser's side of the action channel.\<close>

lemma ok_s0_next:
  assumes ok: "stack_ok st" and pc: "sk_s0 st = S0Next k rest"
  shows "stack_ok (s0_next k rest st)"
proof (cases rest)
  case Nil
  with ok pc show ?thesis by (auto simp: stack_defs)
next
  case (Cons cmd more)
  have ch: "a.chan_ok (sk_actions st)" "cn_sending (sk_actions st) = []" using ok pc by (simp_all add: stack_defs)
  let ?a = "\<lparr>ac_cmd = cmd, ac_cog = ck_cog k, ac_t_dispensed = sk_now st\<rparr>"
  from a.send_begin_frame [OF ch, of ?a] obtain h where "send_begin ?a (sk_actions st) = Inr h" "a.chan_ok h" "cn_sending h = [?a]" "cn_receiving h = cn_receiving (sk_actions st)"
    "cn_accepted h = cn_accepted (sk_actions st)" "cn_received h = cn_received (sk_actions st)" "cn_ended h = cn_ended (sk_actions st)" by blast
  with ok pc Cons show ?thesis by (auto simp: stack_defs sorted_append)
qed

lemma ok_s0_send_try:
  assumes ok: "stack_ok st" and pc: "sk_s0 st = S0Sending k x rest"
  shows "stack_ok (s0_send_try a.ops k x rest st)"
proof -
  have ch: "a.chan_ok (sk_actions st)" "cn_sending (sk_actions st) = [x]" using ok pc by (simp_all add: stack_defs)
  obtain r h where run: "send_try a.ops x (sk_actions st) = (r, h)" by (cases "send_try a.ops x (sk_actions st)")
  from a.send_try_frame [OF ch run] ok pc run show ?thesis
    by (cases r) (auto simp: stack_defs s0_send_try_def sorted_append split: sum.splits)
qed

lemma ok_s0_sleep: "stack_ok st \<Longrightarrow> sk_s0 st = S0Sleep k rest \<Longrightarrow> stack_ok (s0_wake k rest st)"
    "stack_ok st \<Longrightarrow> sk_s0 st = S0Sleep k rest \<Longrightarrow> stack_ok (st\<lparr>sk_s0 := S0Close\<rparr>)"
  by (auto simp: stack_defs s0_wake_def)

lemma ok_s0_cancelled_send:
  assumes ok: "stack_ok st" and pc: "sk_s0 st = S0Sending k x rest"
  shows "stack_ok (st\<lparr>sk_actions := send_end x (sk_actions st), sk_s0 := S0Close\<rparr>)"
proof -
  have ch: "a.chan_ok (sk_actions st)" "x \<in> set (cn_sending (sk_actions st))" using ok pc by (simp_all add: stack_defs)
  from a.ok_send_end [OF ch] ok pc show ?thesis by (auto simp: stack_defs sorted_append)
qed

lemma ok_s0_close: "stack_ok st \<Longrightarrow> sk_s0 st = S0Close \<Longrightarrow> stack_ok (s0_close a.ops st)"
  using a.ok_close_send [of "sk_actions st"] by (auto simp: stack_defs s0_close_def)

text \<open>The actuator.\<close>

lemma ok_act_take:
  assumes ok: "stack_ok st" and pc: "sk_act st = ActTake"
  shows "stack_ok (act_take st)"
proof -
  have ch: "a.chan_ok (sk_actions st)" "cn_receiving (sk_actions st) = 0" using ok pc by (simp_all add: stack_defs)
  from a.recv_begin_frame [OF ch] obtain h where "recv_begin (sk_actions st) = Inr h" "a.chan_ok h" "cn_sending h = cn_sending (sk_actions st)" "cn_receiving h = 1"
    "cn_accepted h = cn_accepted (sk_actions st)" "cn_received h = cn_received (sk_actions st)" "cn_ended h = cn_ended (sk_actions st)" by blast
  with ok pc show ?thesis by (auto simp: stack_defs act_take_def)
qed

lemma ok_act_try:
  assumes ok: "stack_ok st" and pc: "sk_act st = ActTaking"
  shows "stack_ok (act_try a.ops st)"
proof -
  have ch: "a.chan_ok (sk_actions st)" "cn_receiving (sk_actions st) = 1" using ok pc by (simp_all add: stack_defs)
  obtain r k where run: "recv_try a.ops (sk_actions st) = (r, k)" by (cases "recv_try a.ops (sk_actions st)")
  from a.recv_try_frame [OF ch run] ok pc run show ?thesis
    by (cases r) (auto simp: stack_defs act_try_def split: sum.splits)
qed

lemma ok_act_cancelled:
  assumes ok: "stack_ok st" and pc: "sk_act st = ActTaking"
  shows "stack_ok (st\<lparr>sk_actions := recv_end (sk_actions st), sk_act := ActDone\<rparr>)"
proof -
  have ch: "a.chan_ok (sk_actions st)" "0 < cn_receiving (sk_actions st)" using ok pc by (simp_all add: stack_defs)
  from a.ok_recv_end [OF ch] ok pc show ?thesis by (auto simp: stack_defs)
qed

lemma stack_ok_step: "stack_step c.ops a.ops st st' \<Longrightarrow> stack_ok st \<Longrightarrow> stack_ok st'"
  by (induction rule: stack_step.induct)
    (blast intro: ok_harness ok_time ok_stop ok_s2 ok_s1_tick ok_s1_wake ok_s1_send ok_s1_try ok_s1_ends ok_s1_cancelled
      ok_s1_close ok_s0_take ok_s0_try ok_s0_next ok_s0_send_try ok_s0_sleep ok_s0_cancelled_take ok_s0_cancelled_send
      ok_s0_close ok_act_take ok_act_try ok_act_cancelled)+

lemma stack_ok_reachable:
  assumes "(stack_step c.ops a.ops)\<^sup>*\<^sup>* (stack_new s t) st" "calm1 s" "items1 s = []" "calm2 t" "items2 t = []"
  shows "stack_ok st"
  using assms(1) by (induction rule: rtranclp_induct) (auto intro: stack_ok_step stack_ok_new assms(2-5))

end

interpretation mem_stack: stack_streams "mem_put cap1" mem_get mem_items mem_s_open mem_r_open "mem_calm cap1" cap1
    mem_close_send mem_close_recv "mem_put cap2" mem_get mem_items mem_s_open mem_r_open "mem_calm cap2" cap2
    mem_close_send mem_close_recv
  for cap1 cap2
  by unfold_locales

end
