(* ===== verification/Sessions.thy ===== *)
theory Sessions imports Pipeline begin

text \<open>
  \<open>examples/system_stack_multi_session.py\<close>: a dispatcher that gives every session a daemon of an outer
  supervisor, a cancel event and a log, and the harness loop of a session.

  Events and logs are objects that the dispatcher and the running session share: two stores, and
  their positions.  \<open>di_sessions\<close> are the session daemons the supervisor has accepted, with what was
  passed to them; the number of the daemon is its position.
\<close>

section \<open>The dispatcher\<close>

record session =
  ss_sid :: string
  ss_log :: nat
  ss_duration :: pyfloat
  ss_event :: nat

record dispatcher =
  di_sup :: supervisor
  di_cancel :: "string \<rightharpoonup> nat"
  di_logs :: "string \<rightharpoonup> nat"
  di_events :: "bool list"
  di_log_store :: "action list list"
  di_sessions :: "session list"

definition dispatcher_new :: "supervisor \<Rightarrow> dispatcher" where
  "dispatcher_new su = \<lparr>di_sup = su, di_cancel = Map.empty, di_logs = Map.empty, di_events = [],
     di_log_store = [], di_sessions = []\<rparr>"

definition session_name :: "string \<Rightarrow> string" where
  "session_name sid = ''sess/'' @ sid"

text \<open>\<open>register\<close>: the position of the new log; the two maps are written before \<open>add\<close> is called.\<close>

definition register :: "string \<Rightarrow> pyfloat \<Rightarrow> dispatcher \<Rightarrow> (exn + nat) \<times> dispatcher" where
  "register sid duration_s d =
     (if sid \<in> dom (di_cancel d) then (Inl ValueError, d)
      else
        let ev = length (di_events d);
            log = length (di_log_store d);
            d1 = d\<lparr>di_events := di_events d @ [False], di_log_store := di_log_store d @ [[]],
                   di_cancel := (di_cancel d)(sid \<mapsto> ev), di_logs := (di_logs d)(sid \<mapsto> log)\<rparr> in
        case add (ADaemon (length (di_sessions d)) ''session_runner'' ''_FnDaemon'') (Some (session_name sid)) (di_sup d) of
          (Inl e, su) \<Rightarrow> (Inl e, d1\<lparr>di_sup := su\<rparr>)
        | (Inr _, su) \<Rightarrow> (Inr log, d1\<lparr>di_sup := su, di_sessions := di_sessions d @
              [\<lparr>ss_sid = sid, ss_log = log, ss_duration = duration_s, ss_event = ev\<rparr>]\<rparr>))"

definition unregister :: "string \<Rightarrow> dispatcher \<Rightarrow> dispatcher" where
  "unregister sid d = (case di_cancel d sid of
     None \<Rightarrow> d
   | Some ev \<Rightarrow> d\<lparr>di_cancel := (di_cancel d)(sid := None), di_events := (di_events d)[ev := True]\<rparr>)"

text \<open>\<open>log_for\<close>; \<open>None\<close> is KeyError.\<close>

definition log_for :: "string \<Rightarrow> dispatcher \<Rightarrow> nat option" where
  "log_for sid d = di_logs d sid"

text \<open>The registrations of \<open>run_multi_session\<close>.\<close>

fun register_all :: "(string \<times> pyfloat) list \<Rightarrow> dispatcher \<Rightarrow> (exn + unit) \<times> dispatcher" where
  "register_all [] d = (Inr (), d)"
| "register_all ((sid, dur) # rest) d = (case register sid dur d of
     (Inl e, d1) \<Rightarrow> (Inl e, d1) | (Inr _, d1) \<Rightarrow> register_all rest d1)"

section \<open>A session\<close>

text \<open>
  The four daemons of a session's own supervisor, and the loop that feeds them: \<open>cancelled\<close> reads the
  cancel event, \<open>obs\<close> sets the cache, \<open>yield\<close> and \<open>advance\<close> are awaited.  \<open>run_mock\<close> has the same loop
  without the event.
\<close>

definition session_daemons :: "string \<Rightarrow> (string \<times> string) list" where
  "session_daemons sid = [(''s2_planner'', sid @ ''/s2''), (''s1_policy'', sid @ ''/s1''),
     (''s0_dispenser'', sid @ ''/s0''), (''actuator'', sid @ ''/act'')]"

fun add_daemons :: "nat \<Rightarrow> (string \<times> string) list \<Rightarrow> supervisor \<Rightarrow> (exn + unit) \<times> supervisor" where
  "add_daemons k [] s = (Inr (), s)"
| "add_daemons k ((own, name) # ds) s = (case add (ADaemon k own ''_FnDaemon'') (Some name) s of
     (Inl e, s1) \<Rightarrow> (Inl e, s1) | (Inr _, s1) \<Rightarrow> add_daemons (Suc k) ds s1)"

fun harness_loop ::
  "('w \<Rightarrow> bool) \<Rightarrow> (int \<Rightarrow> 'w \<Rightarrow> 'w) \<Rightarrow> ('w, unit) py \<Rightarrow> ('w, unit) py \<Rightarrow> int \<Rightarrow> nat \<Rightarrow> ('w, unit) py" where
  "harness_loop cancelled obs yield advance seq 0 s = (Inr (), s)"
| "harness_loop cancelled obs yield advance seq (Suc k) s =
     (if cancelled s then (Inr (), s)
      else andThen yield (\<lambda>_. andThen advance (\<lambda>_. harness_loop cancelled obs yield advance (seq + 1) k)) (obs seq s))"

section \<open>What every run of the dispatcher keeps\<close>

text \<open>
  The owner registers and unregisters; meanwhile the sessions write to their logs, and the supervisor
  goes on (its other users add nothing).
\<close>

inductive disp_step :: "dispatcher \<Rightarrow> dispatcher \<Rightarrow> bool" where
  registers: "disp_step d (snd (register sid dur d))"
| unregisters: "disp_step d (unregister sid d)"
| logs: "ss \<in> set (di_sessions d) \<Longrightarrow>
    disp_step d (d\<lparr>di_log_store := (di_log_store d)[ss_log ss := di_log_store d ! ss_log ss @ [a]]\<rparr>)"
| supervisor: "sys_step (di_sup d, fin) (su, fin') \<Longrightarrow> su_seen su = su_seen (di_sup d) \<Longrightarrow>
    disp_step d (d\<lparr>di_sup := su\<rparr>)"

text \<open>
  Every session has its own name, event and log; its event is unset exactly while the dispatcher
  still has it under the session's id, and nobody else's entry is that event.
\<close>

definition names_ok :: "dispatcher \<Rightarrow> bool" where
  "names_ok d \<longleftrightarrow> distinct (map ss_sid (di_sessions d)) \<and> distinct (map ss_log (di_sessions d)) \<and>
     su_seen (di_sup d) = session_name ` set (map ss_sid (di_sessions d)) \<and>
     (\<forall>l \<in> set (map ss_log (di_sessions d)). l < length (di_log_store d))"

definition session_ok :: "dispatcher \<Rightarrow> session \<Rightarrow> bool" where
  "session_ok d ss \<longleftrightarrow> ss_event ss < length (di_events d) \<and>
     (di_events d ! ss_event ss \<longleftrightarrow> di_cancel d (ss_sid ss) \<noteq> Some (ss_event ss))"

definition entries_ok :: "dispatcher \<Rightarrow> bool" where
  "entries_ok d \<longleftrightarrow> (\<forall>sid ev. di_cancel d sid = Some ev \<longrightarrow> ev < length (di_events d) \<and> \<not> di_events d ! ev \<and>
     sid \<in> dom (di_logs d) \<and> (\<forall>sid'. di_cancel d sid' = Some ev \<longrightarrow> sid' = sid))"

definition disp_ok :: "dispatcher \<Rightarrow> bool" where
  "disp_ok d \<longleftrightarrow> names_ok d \<and> list_all (session_ok d) (di_sessions d) \<and> entries_ok d"

lemma session_name_inj [simp]: "session_name a = session_name b \<longleftrightarrow> a = b"
  by (simp add: session_name_def)

lemma session_name_image [simp]: "session_name a \<in> session_name ` A \<longleftrightarrow> a \<in> A"
  by auto

lemma chosen_session_name: "chosen_name (Some (session_name sid)) own cls = session_name sid"
  by (simp add: chosen_name_def or_else_def session_name_def)

lemma disp_ok_new: "su_seen su = {} \<Longrightarrow> disp_ok (dispatcher_new su)"
  by (simp add: disp_ok_def dispatcher_new_def names_ok_def entries_ok_def)

lemma register_cases:
  assumes "register sid dur d = (r, d')"
  obtains (dup) "sid \<in> dom (di_cancel d)" "r = Inl ValueError" "d' = d"
  | (refused) "sid \<notin> dom (di_cancel d)" "session_name sid \<in> su_seen (di_sup d)" "r = Inl ValueError"
      "d' = d\<lparr>di_events := di_events d @ [False], di_log_store := di_log_store d @ [[]],
         di_cancel := (di_cancel d)(sid \<mapsto> length (di_events d)), di_logs := (di_logs d)(sid \<mapsto> length (di_log_store d))\<rparr>"
  | (accepted) su where "sid \<notin> dom (di_cancel d)" "session_name sid \<notin> su_seen (di_sup d)"
      "su_seen su = insert (session_name sid) (su_seen (di_sup d))" "r = Inr (length (di_log_store d))"
      "d' = d\<lparr>di_events := di_events d @ [False], di_log_store := di_log_store d @ [[]],
         di_cancel := (di_cancel d)(sid \<mapsto> length (di_events d)), di_logs := (di_logs d)(sid \<mapsto> length (di_log_store d)),
         di_sup := su, di_sessions := di_sessions d @
           [\<lparr>ss_sid = sid, ss_log = length (di_log_store d), ss_duration = dur, ss_event = length (di_events d)\<rparr>]\<rparr>"
proof (cases "sid \<in> dom (di_cancel d)")
  case True
  with assms have "r = Inl ValueError" "d' = d" by (simp_all add: register_def)
  with True show thesis by (rule dup)
next
  case free: False
  show thesis
  proof (cases "session_name sid \<in> su_seen (di_sup d)")
    case True
    then have "add (ADaemon k own cls) (Some (session_name sid)) (di_sup d) = (Inl ValueError, di_sup d)" for k own cls
      by (simp add: add_refused chosen_session_name)
    with assms free have "r = Inl ValueError" "d' = d\<lparr>di_events := di_events d @ [False],
        di_log_store := di_log_store d @ [[]], di_cancel := (di_cancel d)(sid \<mapsto> length (di_events d)),
        di_logs := (di_logs d)(sid \<mapsto> length (di_log_store d))\<rparr>"
      by (simp_all add: register_def Let_def)
    with free True show thesis by (rule refused)
  next
    case False
    from add_accepted [of "Some (session_name sid)" "''session_runner''" "''_FnDaemon''" "di_sup d" "session_name sid"
        "length (di_sessions d)"] False
    obtain su where "add (ADaemon (length (di_sessions d)) ''session_runner'' ''_FnDaemon'') (Some (session_name sid)) (di_sup d) =
        (Inr (), su)" "su_seen su = insert (session_name sid) (su_seen (di_sup d))"
      by (simp add: chosen_session_name)
    moreover from this assms free have "r = Inr (length (di_log_store d))" "d' = d\<lparr>di_events := di_events d @ [False],
        di_log_store := di_log_store d @ [[]], di_cancel := (di_cancel d)(sid \<mapsto> length (di_events d)),
        di_logs := (di_logs d)(sid \<mapsto> length (di_log_store d)), di_sup := su, di_sessions := di_sessions d @
          [\<lparr>ss_sid = sid, ss_log = length (di_log_store d), ss_duration = dur, ss_event = length (di_events d)\<rparr>]\<rparr>"
      by (simp_all add: register_def Let_def)
    ultimately show thesis using free False accepted by blast
  qed
qed

text \<open>The two maps and the two stores with a fresh entry.\<close>

abbreviation fresh :: "string \<Rightarrow> dispatcher \<Rightarrow> dispatcher" where
  "fresh sid d \<equiv> d\<lparr>di_events := di_events d @ [False], di_log_store := di_log_store d @ [[]],
     di_cancel := (di_cancel d)(sid \<mapsto> length (di_events d)), di_logs := (di_logs d)(sid \<mapsto> length (di_log_store d))\<rparr>"

lemma names_ok_fresh: "names_ok d \<Longrightarrow> names_ok (fresh sid d)"
  by (auto simp: names_ok_def)

lemma entries_ok_fresh: "entries_ok d \<Longrightarrow> sid \<notin> dom (di_cancel d) \<Longrightarrow> entries_ok (fresh sid d)"
  unfolding entries_ok_def
proof (intro allI impI)
  fix s ev
  assume old: "\<forall>sid ev. di_cancel d sid = Some ev \<longrightarrow> ev < length (di_events d) \<and> \<not> di_events d ! ev \<and>
      sid \<in> dom (di_logs d) \<and> (\<forall>sid'. di_cancel d sid' = Some ev \<longrightarrow> sid' = sid)"
    and free: "sid \<notin> dom (di_cancel d)" and new: "di_cancel (fresh sid d) s = Some ev"
  have none: "di_cancel d s' \<noteq> Some (length (di_events d))" for s' using old by blast
  show "ev < length (di_events (fresh sid d)) \<and> \<not> di_events (fresh sid d) ! ev \<and> s \<in> dom (di_logs (fresh sid d)) \<and>
      (\<forall>s'. di_cancel (fresh sid d) s' = Some ev \<longrightarrow> s' = s)"
  proof (cases "s = sid")
    case True
    with new none show ?thesis by (auto split: if_splits)
  next
    case False
    with new have "di_cancel d s = Some ev" by simp
    with old have "ev < length (di_events d)" "\<not> di_events d ! ev" "s \<in> dom (di_logs d)"
      "\<forall>s'. di_cancel d s' = Some ev \<longrightarrow> s' = s" by blast+
    with False show ?thesis by (auto simp: nth_append)
  qed
qed

lemma session_ok_fresh: "session_ok d ss \<Longrightarrow> sid \<notin> dom (di_cancel d) \<Longrightarrow> session_ok (fresh sid d) ss"
  by (auto simp: session_ok_def nth_append)

lemma disp_ok_fresh: "disp_ok d \<Longrightarrow> sid \<notin> dom (di_cancel d) \<Longrightarrow> disp_ok (fresh sid d)"
  unfolding disp_ok_def by (auto simp: names_ok_fresh entries_ok_fresh list_all_iff intro: session_ok_fresh)

lemma disp_ok_register:
  assumes ok: "disp_ok d" and run: "register sid dur d = (r, d')"
  shows "disp_ok d'"
  using run
proof (cases rule: register_cases)
  case dup
  with ok show ?thesis by simp
next
  case refused
  with disp_ok_fresh [OF ok] show ?thesis by simp
next
  case (accepted su)
  let ?ss = "\<lparr>ss_sid = sid, ss_log = length (di_log_store d), ss_duration = dur, ss_event = length (di_events d)\<rparr>"
  have names: "names_ok d" using ok by (simp add: disp_ok_def)
  then have "sid \<notin> set (map ss_sid (di_sessions d))" "length (di_log_store d) \<notin> set (map ss_log (di_sessions d))"
    using accepted(2) by (auto simp: names_ok_def)
  with names accepted(3) have "names_ok d'" unfolding accepted(5) names_ok_def by (simp add: less_SucI)
  moreover have fresh: "disp_ok (fresh sid d)" by (rule disp_ok_fresh [OF ok accepted(1)])
  have same: "di_cancel d' = di_cancel (fresh sid d)" "di_events d' = di_events (fresh sid d)"
    "di_logs d' = di_logs (fresh sid d)" "di_sessions d' = di_sessions d @ [?ss]"
    unfolding accepted(5) by simp_all
  from fresh have "entries_ok d'" unfolding disp_ok_def entries_ok_def same by blast
  moreover from fresh have "list_all (session_ok d') (di_sessions d)"
    unfolding disp_ok_def list_all_iff session_ok_def same(1,2) by simp
  moreover have "session_ok d' ?ss" unfolding session_ok_def same(1,2) by simp
  ultimately show ?thesis by (simp add: disp_ok_def same(4))
qed

lemma disp_ok_unregister:
  assumes ok: "disp_ok d"
  shows "disp_ok (unregister sid d)"
proof (cases "di_cancel d sid")
  case None
  with ok show ?thesis by (simp add: unregister_def)
next
  case (Some ev)
  have entries: "entries_ok d" using ok by (simp add: disp_ok_def)
  have other: "ss_sid ss = sid" if "di_cancel d (ss_sid ss) = Some ev" for ss
    using entries Some that by (auto simp: entries_ok_def)
  have "names_ok (unregister sid d)" using ok Some by (simp add: disp_ok_def names_ok_def unregister_def)
  moreover have "entries_ok (unregister sid d)"
    using entries Some by (auto simp: entries_ok_def unregister_def nth_list_update)
  moreover have "session_ok (unregister sid d) ss" if "session_ok d ss" for ss
  proof (cases "ss_event ss = ev")
    case True
    with that Some other [of ss] show ?thesis by (auto simp: session_ok_def unregister_def)
  next
    case False
    with that Some show ?thesis by (auto simp: session_ok_def unregister_def)
  qed
  ultimately show ?thesis using ok Some by (auto simp: disp_ok_def list_all_iff unregister_def)
qed

lemma disp_ok_step: "disp_step d d' \<Longrightarrow> disp_ok d \<Longrightarrow> disp_ok d'"
proof (induction rule: disp_step.induct)
  case (registers d sid dur)
  then show ?case by (cases "register sid dur d") (simp add: disp_ok_register)
next
  case (unregisters d sid)
  then show ?case by (simp add: disp_ok_unregister)
qed (auto simp: disp_ok_def names_ok_def entries_ok_def list_all_iff session_ok_def)

lemma disp_ok_reachable:
  "disp_step\<^sup>*\<^sup>* (dispatcher_new su) d \<Longrightarrow> su_seen su = {} \<Longrightarrow> disp_ok d"
  by (induction rule: rtranclp_induct) (auto intro: disp_ok_new disp_ok_step)

text \<open>All sessions of a dict are accepted, each with a log of its own.\<close>

lemma register_all_accepted:
  assumes "distinct (map fst ss)"
    "\<forall>sid \<in> set (map fst ss). sid \<notin> dom (di_cancel d) \<and> session_name sid \<notin> su_seen (di_sup d)"
  shows "\<exists>d'. register_all ss d = (Inr (), d') \<and> map ss_sid (di_sessions d') = map ss_sid (di_sessions d) @ map fst ss"
  using assms
proof (induction ss arbitrary: d)
  case (Cons s rest)
  obtain sid dur where s: "s = (sid, dur)" by (cases s)
  obtain r d1 where reg: "register sid dur d = (r, d1)" by (cases "register sid dur d")
  then show ?case
  proof (cases rule: register_cases)
    case (accepted su)
    have "\<exists>d'. register_all rest d1 = (Inr (), d') \<and> map ss_sid (di_sessions d') = map ss_sid (di_sessions d1) @ map fst rest"
    proof (intro Cons.IH ballI)
      fix other assume "other \<in> set (map fst rest)"
      then have "other \<noteq> sid" "other \<notin> dom (di_cancel d)" "session_name other \<notin> su_seen (di_sup d)"
        using Cons.prems s by auto
      with accepted show "other \<notin> dom (di_cancel d1) \<and> session_name other \<notin> su_seen (di_sup d1)" by simp
    qed (use Cons.prems(1) in simp)
    with s reg accepted show ?thesis by auto
  qed (use Cons.prems s in auto)
qed simp

lemma add_daemons_accepted:
  assumes "distinct (map snd ds)" "\<forall>d \<in> set ds. snd d \<noteq> [] \<and> snd d \<notin> su_seen s"
  shows "\<exists>s'. add_daemons k ds s = (Inr (), s') \<and> su_seen s' = su_seen s \<union> set (map snd ds)"
  using assms
proof (induction ds arbitrary: k s)
  case (Cons x ds)
  obtain own name where x: "x = (own, name)" by (cases x)
  have "chosen_name (Some name) own ''_FnDaemon'' = name" using Cons.prems(2) x by (simp add: chosen_name_def or_else_def)
  with add_accepted [of "Some name" own "''_FnDaemon''" s name k] Cons.prems(2) x
  obtain s1 where s1: "add (ADaemon k own ''_FnDaemon'') (Some name) s = (Inr (), s1)" "su_seen s1 = insert name (su_seen s)"
    by simp
  have "\<exists>s'. add_daemons (Suc k) ds s1 = (Inr (), s') \<and> su_seen s' = su_seen s1 \<union> set (map snd ds)"
    using Cons.prems x s1 by (intro Cons.IH) auto
  with x s1 show ?case by auto
qed simp

lemma session_daemons_accepted:
  "\<exists>s'. add_daemons k (session_daemons sid) (new_supervisor oe rp) = (Inr (), s') \<and>
    su_seen s' = set (map snd (session_daemons sid))"
  using add_daemons_accepted [of "session_daemons sid" "new_supervisor oe rp" k]
  by (simp add: session_daemons_def new_supervisor_def)

text \<open>
  The harness numbers its observations one by one (\<open>seqs\<close> reads those made so far), makes all of them
  unless it is cancelled or interrupted, and makes none after it found the event set.
\<close>

lemma harness_observes:
  assumes "\<And>q s. seqs (obs q s) = seqs s @ [q]" "\<And>s. seqs (snd (yield s)) = seqs s" "\<And>s. seqs (snd (advance s)) = seqs s"
    and "harness_loop cancelled obs yield advance seq n s = (r, s')"
  shows "\<exists>k \<le> n. seqs s' = seqs s @ map (\<lambda>i. seq + int i) [0..<k] \<and> (r = Inr () \<and> \<not> cancelled s' \<longrightarrow> k = n)"
  using assms(4)
proof (induction n arbitrary: seq s)
  case (Suc n)
  show ?case
  proof (cases "cancelled s")
    case True
    with Suc.prems show ?thesis by (intro exI [of _ 0]) simp
  next
    case False
    obtain y s1 where y: "yield (obs seq s) = (y, s1)" by (cases "yield (obs seq s)")
    have s1: "seqs s1 = seqs s @ [seq]" using assms(2) [of "obs seq s"] y assms(1) by simp
    obtain a s2 where a: "advance s1 = (a, s2)" by (cases "advance s1")
    have s2: "seqs s2 = seqs s @ [seq]" using assms(3) [of s1] a s1 by simp
    show ?thesis
    proof (cases "(\<exists>e. y = Inl e) \<or> (\<exists>e. a = Inl e)")
      case True
      with Suc.prems False y a s1 s2 show ?thesis by (intro exI [of _ 1]) (cases y; cases a; auto)
    next
      case ok: False
      then obtain u v where "y = Inr u" "a = Inr v" by (cases y; cases a) auto
      with Suc.prems False y a have "harness_loop cancelled obs yield advance (seq + 1) n s2 = (r, s')" by simp
      from Suc.IH [OF this] obtain k where k: "k \<le> n" "seqs s' = seqs s2 @ map (\<lambda>i. seq + 1 + int i) [0..<k]"
        "r = Inr () \<and> \<not> cancelled s' \<longrightarrow> k = n"
        by blast
      have "map (\<lambda>i. seq + int i) [0..<Suc k] = seq # map (\<lambda>i. seq + 1 + int i) [0..<k]"
        by (simp add: upt_conv_Cons map_Suc_upt [symmetric] del: upt_Suc)
      with k s2 show ?thesis by (intro exI [of _ "Suc k"]) simp
    qed
  qed
qed simp

end
