(* ===== verification/ExampleRuns.thy ===== *)
theory ExampleRuns imports Sessions begin

text \<open>
  The coroutines that put the examples together: \<open>run_mock\<close>, the body of a session, and
  \<open>run_with_early_unregister\<close>.  What they await (the scheduler, the advance of the clock, the wait of
  \<open>stop\<close>) is an argument and may change the whole state.
\<close>

section \<open>A session and \<open>run_mock\<close>\<close>

text \<open>The four daemons under their own names.\<close>

fun add_unnamed :: "nat \<Rightarrow> string list \<Rightarrow> supervisor \<Rightarrow> (exn + unit) \<times> supervisor" where
  "add_unnamed k [] s = (Inr (), s)"
| "add_unnamed k (own # ds) s = (case add (ADaemon k own ''_FnDaemon'') None s of
     (Inl e, s1) \<Rightarrow> (Inl e, s1) | (Inr _, s1) \<Rightarrow> add_unnamed (Suc k) ds s1)"

definition mock_daemons :: "string list" where
  "mock_daemons = [''s2_planner'', ''s1_policy'', ''s0_dispenser'', ''actuator'']"

text \<open>The loop for the given duration, and the stop without a grace.\<close>

definition harness_run ::
  "('w sup_st \<Rightarrow> bool) \<Rightarrow> (int \<Rightarrow> 'w sup_st \<Rightarrow> 'w sup_st) \<Rightarrow> ('w sup_st, unit) py \<Rightarrow> ('w sup_st, unit) py \<Rightarrow>
   (pyfloat \<Rightarrow> ('w sup_st, unit) py) \<Rightarrow> pyfloat \<Rightarrow> ('w sup_st, unit) py" where
  "harness_run cancelled obs yield advance wait_done duration_s s = (case n_steps duration_s of
     Inl e \<Rightarrow> (Inl e, s)
   | Inr n \<Rightarrow> andThen (harness_loop cancelled obs yield advance 0 (nat n)) (\<lambda>_. stop wait_done (Fin 0) (Fin 2)) s)"

definition session_body ::
  "string \<Rightarrow> ('w sup_st \<Rightarrow> bool) \<Rightarrow> (int \<Rightarrow> 'w sup_st \<Rightarrow> 'w sup_st) \<Rightarrow> ('w sup_st, unit) py \<Rightarrow> ('w sup_st, unit) py \<Rightarrow>
   (pyfloat \<Rightarrow> ('w sup_st, unit) py) \<Rightarrow> pyfloat \<Rightarrow> ('w sup_st, unit) py" where
  "session_body sid cancelled obs yield advance wait_done duration_s =
     andThen (beside (add_daemons 0 (session_daemons sid)))
       (\<lambda>_. harness_run cancelled obs yield advance wait_done duration_s)"

definition mock_body ::
  "(int \<Rightarrow> 'w sup_st \<Rightarrow> 'w sup_st) \<Rightarrow> ('w sup_st, unit) py \<Rightarrow> ('w sup_st, unit) py \<Rightarrow>
   (pyfloat \<Rightarrow> ('w sup_st, unit) py) \<Rightarrow> pyfloat \<Rightarrow> ('w sup_st, unit) py" where
  "mock_body obs yield advance wait_done duration_s =
     andThen (beside (add_unnamed 0 mock_daemons)) (\<lambda>_. harness_run (\<lambda>_. False) obs yield advance wait_done duration_s)"

text \<open>Without a grace, nothing that runs is left uncancelled.\<close>

lemma stop_at_once:
  assumes "stop wait_done (Fin 0) ft s = (r, s')"
  shows "r = Inr () \<and> fst s' = fst s \<and>
    (su_tg (snd s') \<and> su_active (snd s') \<noteq> 0 \<and> su_all_done (snd s') = Some False \<longrightarrow> su_cancelled (snd s'))"
  using assms by (auto simp: stop_def signal_stop_def Let_def split: if_splits)

lemma add_unnamed_accepted:
  assumes "distinct ds" "[] \<notin> set ds" "set ds \<inter> su_seen s = {}"
  shows "\<exists>s'. add_unnamed k ds s = (Inr (), s') \<and> su_seen s' = su_seen s \<union> set ds"
  using assms
proof (induction ds arbitrary: k s)
  case (Cons own ds)
  have "chosen_name None own ''_FnDaemon'' = own" using Cons.prems(2) by (auto simp: chosen_name_def or_else_def)
  with add_accepted [of None own "''_FnDaemon''" s own k] Cons.prems(3)
  obtain s1 where s1: "add (ADaemon k own ''_FnDaemon'') None s = (Inr (), s1)" "su_seen s1 = insert own (su_seen s)"
    by simp
  have "\<exists>s'. add_unnamed (Suc k) ds s1 = (Inr (), s') \<and> su_seen s' = su_seen s1 \<union> set ds"
    using Cons.prems s1 by (intro Cons.IH) auto
  with s1 show ?case by auto
qed simp

text \<open>
  A \<open>run_mock\<close> that returns has made all the observations of its duration, numbered from 0, and left no
  daemon running that was not cancelled.
\<close>

lemma mock_body_returns:
  assumes "\<And>q s. seqs (fst (obs q s)) = seqs (fst s) @ [q]" "\<And>s. seqs (fst (snd (yield s))) = seqs (fst s)"
    "\<And>s. seqs (fst (snd (advance s))) = seqs (fst s)"
    and "mock_body obs yield advance wait_done duration_s (w, su) = (Inr (), s')"
  shows "\<exists>n \<ge> 1. n_steps duration_s = Inr n \<and> seqs (fst s') = seqs w @ map int [0..<nat n] \<and>
    (su_tg (snd s') \<and> su_active (snd s') \<noteq> 0 \<and> su_all_done (snd s') = Some False \<longrightarrow> su_cancelled (snd s'))"
proof -
  obtain r su1 where added: "add_unnamed 0 mock_daemons su = (r, su1)" by (cases "add_unnamed 0 mock_daemons su")
  with assms(4) have run: "harness_run (\<lambda>_. False) obs yield advance wait_done duration_s (w, su1) = (Inr (), s')"
    by (cases r) (simp_all add: mock_body_def andThen_def beside_def)
  then obtain n where n: "n_steps duration_s = Inr n" by (cases "n_steps duration_s") (simp_all add: harness_run_def)
  obtain q s2 where loop: "harness_loop (\<lambda>_. False) obs yield advance 0 (nat n) (w, su1) = (q, s2)"
    by (cases "harness_loop (\<lambda>_. False) obs yield advance 0 (nat n) (w, su1)")
  with run n have q: "q = Inr ()" and stopped: "stop wait_done (Fin 0) (Fin 2) s2 = (Inr (), s')"
    by (cases q; simp add: harness_run_def andThen_def)+
  from harness_observes [of "\<lambda>s. seqs (fst s)", OF assms(1-3) loop] q
  have "seqs (fst s2) = seqs w @ map int [0..<nat n]" by auto
  moreover have "1 \<le> n" using n by (auto simp: n_steps_def obs_period_value split: pyfloat.splits)
  ultimately show ?thesis using n stop_at_once [OF stopped] by auto
qed

section \<open>\<open>run_with_early_unregister\<close>\<close>

definition early_unregister :: "pyfloat \<Rightarrow> (dispatcher, unit) py \<Rightarrow> (dispatcher, nat) py" where
  "early_unregister long_duration_s wait =
     andThen (register ''victim'' long_duration_s) (\<lambda>pos. andThen wait (\<lambda>_ d. (Inr pos, unregister ''victim'' d)))"

lemma sessions_grow: "disp_step d d' \<Longrightarrow> \<exists>more. di_sessions d' = di_sessions d @ more"
proof (induction rule: disp_step.induct)
  case (registers d sid dur)
  obtain r d' where reg: "register sid dur d = (r, d')" by (cases "register sid dur d")
  then have "\<exists>more. di_sessions d' = di_sessions d @ more" by (cases rule: register_cases) simp_all
  with reg show ?case by simp
qed (auto simp: unregister_def split: option.split)

lemma sessions_stay: "disp_step\<^sup>*\<^sup>* d d' \<Longrightarrow> set (di_sessions d) \<subseteq> set (di_sessions d')"
  by (induction rule: rtranclp_induct) (use sessions_grow in fastforce)+

text \<open>The log it returns is the victim's own, and the victim's event is set, whatever went on meanwhile.\<close>

lemma early_unregister_cancels:
  assumes ok: "disp_ok d" and wait: "\<And>d r d'. wait d = (r, d') \<Longrightarrow> disp_step\<^sup>*\<^sup>* d d'"
    and run: "early_unregister dur wait d = (Inr pos, d')"
  shows "\<exists>ss \<in> set (di_sessions d'). ss_sid ss = ''victim'' \<and> ss_log ss = pos \<and> di_events d' ! ss_event ss"
proof -
  obtain r d1 where reg: "register ''victim'' dur d = (r, d1)" by (cases "register ''victim'' dur d")
  from run reg have r: "r = Inr pos" by (cases r) (auto simp: early_unregister_def andThen_def split: sum.splits prod.splits)
  obtain q d2 where w: "wait d1 = (q, d2)" by (cases "wait d1")
  from run reg r w have d': "d' = unregister ''victim'' d2"
    by (cases q) (auto simp: early_unregister_def andThen_def)
  have "\<exists>ss \<in> set (di_sessions d1). ss_sid ss = ''victim'' \<and> ss_log ss = pos"
    using reg by (cases rule: register_cases) (use r in auto)
  then obtain ss where ss: "ss \<in> set (di_sessions d1)" "ss_sid ss = ''victim''" "ss_log ss = pos" by blast
  with sessions_stay [OF wait [OF w]] have in2: "ss \<in> set (di_sessions d2)" by blast
  have "disp_ok d1" using ok reg by (rule disp_ok_register)
  from wait [OF w] this have "disp_ok d2" by (induction rule: rtranclp_induct) (auto intro: disp_ok_step)
  then have "disp_ok d'" unfolding d' by (rule disp_ok_unregister)
  moreover have same: "di_sessions d' = di_sessions d2" "di_cancel d' ''victim'' = None"
    unfolding d' by (cases "di_cancel d2 ''victim''"; simp add: unregister_def)+
  ultimately have "di_events d' ! ss_event ss" using in2 ss(2) by (auto simp: disp_ok_def list_all_iff session_ok_def)
  with ss in2 same(1) show ?thesis by auto
qed

end
