(* ===== verification/ExampleProps.thy ===== *)
theory ExampleProps imports ExampleRuns "HOL-Library.Sublist" begin

text \<open>
  The properties of the two examples: what arrives at the end of the pipeline, and what the session
  dispatcher does to its sessions.
\<close>

section \<open>The pipeline\<close>

text \<open>C15: However the daemons of the pipeline, the harness, the clock, the stop signal and cancellations
  interleave, the actuator has logged a beginning of the commands of the chunks that the policy got
  into its channel, in order, none twice and none skipped, with times that never run back; every such
  chunk has eight commands and a number below 997; neither channel holds more than its size; and when
  both streams have been read to their end, every command has been logged.\<close>

theorem stack_log:
  assumes "closable_stream put1 get1 items1 s_open1 r_open1 calm1 cap1 close_send1 close_recv1"
    and "closable_stream put2 get2 items2 s_open2 r_open2 calm2 cap2 close_send2 close_recv2"
    and "calm1 s" "items1 s = []" "calm2 t" "items2 t = []"
    and "(stack_step \<lparr>so_put = put1, so_get = get1, so_close_send = close_send1, so_close_recv = close_recv1\<rparr>
        \<lparr>so_put = put2, so_get = get2, so_close_send = close_send2, so_close_recv = close_recv2\<rparr>)\<^sup>*\<^sup>* (stack_new s t) st"
  shows "prefix (map act_id (sk_log st)) (concat (map commands (cn_accepted (sk_chunks st)))) \<and>
    sorted (map ac_t_dispensed (sk_log st)) \<and> (\<forall>a \<in> set (sk_log st). ac_t_dispensed a \<le> sk_now st) \<and>
    (\<forall>c \<in> set (cn_accepted (sk_chunks st)). length (ck_actions c) = 8 \<and> 0 \<le> ck_cog c \<and> ck_cog c < 997) \<and>
    length (items1 (cn_stream (sk_chunks st))) \<le> cap1 \<and> length (items2 (cn_stream (sk_actions st))) \<le> cap2 \<and>
    (cn_ended (sk_chunks st) \<and> cn_ended (sk_actions st) \<longrightarrow>
      map act_id (sk_log st) = concat (map commands (cn_accepted (sk_chunks st))))"
proof -
  note c = assms(1) and a = assms(2)
  have str: "stack_streams put1 get1 items1 s_open1 r_open1 calm1 cap1 close_send1 close_recv1
      put2 get2 items2 s_open2 r_open2 calm2 cap2 close_send2 close_recv2"
    by (rule stack_streams.intro [OF c a])
  from stack_streams.stack_ok_reachable [OF str assms(7,3-6)]
  have ok: "closable_stream.chan_ok items1 s_open1 calm1 (sk_chunks st)" "closable_stream.chan_ok items2 s_open2 calm2 (sk_actions st)"
    "made_ok st" "flow_ok st" "times_ok st"
    by (simp_all add: stack_streams.stack_ok_def [OF str])
  let ?C = "sk_chunks st" and ?A = "sk_actions st"
  have chunks: "calm1 (cn_stream ?C)" "cn_received ?C @ items1 (cn_stream ?C) = cn_accepted ?C"
    "cn_ended ?C \<longrightarrow> items1 (cn_stream ?C) = []"
    using ok(1) by (simp_all add: closable_stream.chan_ok_def [OF c])
  have actions: "calm2 (cn_stream ?A)" "cn_received ?A @ items2 (cn_stream ?A) = cn_accepted ?A"
    "cn_ended ?A \<longrightarrow> items2 (cn_stream ?A) = []"
    using ok(2) by (simp_all add: closable_stream.chan_ok_def [OF a])
  from ok(4) obtain rest where rest: "map act_id (cn_accepted ?A) @ rest = concat (map commands (cn_received ?C))"
    "cn_ended ?C \<longrightarrow> rest = []" and log: "sk_log st = cn_received ?A"
    unfolding flow_ok_def by blast
  have all: "concat (map commands (cn_accepted ?C)) =
      map act_id (sk_log st) @ map act_id (items2 (cn_stream ?A)) @ rest @ concat (map commands (items1 (cn_stream ?C)))"
    unfolding chunks(2) [symmetric] map_append concat_append rest(1) [symmetric] actions(2) [symmetric] log by simp
  then have "prefix (map act_id (sk_log st)) (concat (map commands (cn_accepted ?C)))" by (simp add: prefix_def)
  moreover have "sorted (map ac_t_dispensed (sk_log st)) \<and> (\<forall>a \<in> set (sk_log st). ac_t_dispensed a \<le> sk_now st)"
    using ok(5) unfolding times_ok_def actions(2) [symmetric] log by (auto simp: Let_def sorted_append)
  moreover have "\<forall>c \<in> set (cn_accepted ?C). length (ck_actions c) = 8 \<and> 0 \<le> ck_cog c \<and> ck_cog c < 997"
    using ok(3) by (simp add: made_ok_def chunk_ok_def CHUNK_SIZE_def)
  moreover have "length (items1 (cn_stream ?C)) \<le> cap1"
    by (rule memory_stream.raw_items_cap [OF closable_stream.axioms(1) [OF c] chunks(1)])
  moreover have "length (items2 (cn_stream ?A)) \<le> cap2"
    by (rule memory_stream.raw_items_cap [OF closable_stream.axioms(1) [OF a] actions(1)])
  ultimately show ?thesis using all chunks(3) actions(3) rest(2) by simp
qed

text \<open>A run on the reference streams in which one command reaches the log.\<close>

abbreviation chunk_ops :: "(chunk, chunk mem) stream_ops" where
  "chunk_ops \<equiv> \<lparr>so_put = mem_put 4, so_get = mem_get, so_close_send = mem_close_send, so_close_recv = mem_close_recv\<rparr>"

abbreviation action_ops :: "(action, action mem) stream_ops" where
  "action_ops \<equiv> \<lparr>so_put = mem_put 64, so_get = mem_get, so_close_send = mem_close_send, so_close_recv = mem_close_recv\<rparr>"

abbreviation demo_steps :: "(chunk mem, action mem) stack \<Rightarrow> (chunk mem, action mem) stack \<Rightarrow> bool" where
  "demo_steps \<equiv> (stack_step chunk_ops action_ops)\<^sup>*\<^sup>*"

definition demo_obs :: obs where
  "demo_obs = \<lparr>ob_t = Fin 0, ob_seq = 0\<rparr>"

definition demo_chunk :: chunk where
  "demo_chunk = make_chunk demo_obs (plan demo_obs (Fin 0)) (Fin 0)"

text \<open>The first half: a chunk of eight commands is received.\<close>

lemma demo_first:
  obtains cmd cmds st where "demo_steps (stack_new mem_new mem_new) st" "sk_s0 st = S0Next demo_chunk (cmd # cmds)"
    "sk_act st = ActTake" "sk_actions st = chan_new mem_new" "sk_log st = []" "\<not> sk_stopping st"
    "cn_accepted (sk_chunks st) = [demo_chunk]"
proof -
  let ?s0 = "stack_new mem_new mem_new :: (chunk mem, action mem) stack"
  let ?s1 = "s2_tick (observe ?s0)"
  let ?s2 = "s1_tick (s2_wake demo_obs ?s1)"
  let ?s3 = "s1_wake demo_obs (plan demo_obs (Fin 0)) ?s2"
  have "stack_step chunk_ops action_ops ?s0 (observe ?s0)" by (rule stack_step.harness)
  moreover have "stack_step chunk_ops action_ops (observe ?s0) ?s1"
    by (rule stack_step.s2_ticks) (simp add: observe_def stack_new_def)
  moreover have "stack_step chunk_ops action_ops ?s1 (s2_wake demo_obs ?s1)"
    by (rule stack_step.s2_wakes) (simp add: s2_tick_def observe_def stack_new_def latest_set_def latest_get_def demo_obs_def)
  moreover have "stack_step chunk_ops action_ops (s2_wake demo_obs ?s1) ?s2"
    by (rule stack_step.s1_ticks) (simp add: s2_wake_def s2_tick_def observe_def stack_new_def)
  moreover have "stack_step chunk_ops action_ops ?s2 ?s3"
    by (rule stack_step.s1_wakes)
      (simp add: s1_tick_def s2_wake_def s2_tick_def observe_def stack_new_def latest_set_def latest_get_def demo_obs_def)
  ultimately have r3: "demo_steps ?s0 ?s3" by simp
  have s3: "sk_s1 ?s3 = S1Send demo_chunk" "sk_chunks ?s3 = chan_new mem_new" "sk_s0 ?s3 = S0Take" "sk_act ?s3 = ActTake"
    "sk_actions ?s3 = chan_new mem_new" "sk_log ?s3 = []" "\<not> sk_stopping ?s3"
    by (simp_all add: s1_wake_def s1_tick_def s2_wake_def s2_tick_def observe_def stack_new_def demo_chunk_def)
  define s4 where "s4 = s1_try chunk_ops demo_chunk (s1_send demo_chunk ?s3)"
  define s5 where "s5 = s0_try chunk_ops (s0_take s4)"
  have send: "s1_send demo_chunk ?s3 = ?s3\<lparr>sk_chunks := (chan_new mem_new)\<lparr>cn_s_busy := True, cn_sending := [demo_chunk]\<rparr>,
      sk_s1 := S1Sending demo_chunk\<rparr>"
    using s3 by (simp add: s1_send_def send_begin_def ep_enter_def chan_new_def)
  have s4: "s4 = ?s3\<lparr>sk_chunks := (chan_new (mem_new\<lparr>mem_items := [demo_chunk]\<rparr>))\<lparr>cn_accepted := [demo_chunk]\<rparr>, sk_s1 := S1Tick\<rparr>"
    unfolding s4_def send
    by (simp add: s1_try_def send_try_def send_end_def ep_exit_def mem_put_def mem_new_def chan_new_def)
  have s5: "s5 = ?s3\<lparr>sk_chunks := (chan_new mem_new)\<lparr>cn_accepted := [demo_chunk], cn_received := [demo_chunk]\<rparr>, sk_s1 := S1Tick,
      sk_s0 := S0Next demo_chunk (ck_actions demo_chunk)\<rparr>"
    unfolding s5_def s4
    by (simp add: s0_take_def s0_try_def recv_begin_def recv_try_def recv_end_def ep_enter_def ep_exit_def mem_get_def
        mem_new_def chan_new_def)
  have "stack_step chunk_ops action_ops ?s3 (s1_send demo_chunk ?s3)" by (rule stack_step.s1_sends [OF s3(1)])
  moreover have "stack_step chunk_ops action_ops (s1_send demo_chunk ?s3) s4"
    unfolding s4_def by (rule stack_step.s1_tries) (simp add: send)
  moreover have "stack_step chunk_ops action_ops s4 (s0_take s4)"
    by (rule stack_step.s0_takes) (simp add: s4 s3)
  moreover have "stack_step chunk_ops action_ops (s0_take s4) s5"
    unfolding s5_def by (rule stack_step.s0_tries)
      (simp add: s4 s0_take_def recv_begin_def ep_enter_def chan_new_def)
  ultimately have "demo_steps ?s3 s5" by simp
  with r3 have run: "demo_steps ?s0 s5" by (rule rtranclp_trans)
  have "length (ck_actions demo_chunk) = 8" by (simp add: demo_chunk_def make_chunk_def CHUNK_SIZE_def)
  then obtain cmd cmds where "ck_actions demo_chunk = cmd # cmds" by (cases "ck_actions demo_chunk") auto
  with that [OF run] s3 show thesis by (simp add: s5)
qed

theorem stack_log_witness:
  "\<exists>st. demo_steps (stack_new mem_new mem_new) st \<and> length (sk_log st) = 1 \<and>
     prefix (map act_id (sk_log st)) (commands demo_chunk)"
proof -
  obtain cmd cmds st where st: "demo_steps (stack_new mem_new mem_new) st" "sk_s0 st = S0Next demo_chunk (cmd # cmds)"
    "sk_act st = ActTake" "sk_actions st = chan_new mem_new" "sk_log st = []" "\<not> sk_stopping st"
    "cn_accepted (sk_chunks st) = [demo_chunk]"
    by (rule demo_first)
  let ?a = "\<lparr>ac_cmd = cmd, ac_cog = ck_cog demo_chunk, ac_t_dispensed = sk_now st\<rparr>"
  define s1 where "s1 = s0_send_try action_ops demo_chunk ?a cmds (s0_next demo_chunk (cmd # cmds) st)"
  define s2 where "s2 = act_try action_ops (act_take s1)"
  have next_st: "s0_next demo_chunk (cmd # cmds) st = st\<lparr>sk_actions := (chan_new mem_new)\<lparr>cn_s_busy := True, cn_sending := [?a]\<rparr>,
      sk_s0 := S0Sending demo_chunk ?a cmds\<rparr>"
    using st by (simp add: send_begin_def ep_enter_def chan_new_def Let_def)
  have s1: "s1 = st\<lparr>sk_actions := (chan_new (mem_new\<lparr>mem_items := [?a]\<rparr>))\<lparr>cn_accepted := [?a]\<rparr>, sk_s0 := S0Sleep demo_chunk cmds\<rparr>"
    unfolding s1_def next_st
    by (simp add: s0_send_try_def send_try_def send_end_def ep_exit_def mem_put_def mem_new_def chan_new_def)
  have log: "sk_log s2 = [?a]" "cn_accepted (sk_chunks s2) = [demo_chunk]"
    unfolding s2_def s1 using st(5,7)
    by (simp_all add: act_take_def act_try_def recv_begin_def recv_try_def recv_end_def ep_enter_def ep_exit_def
        mem_get_def mem_new_def chan_new_def)
  have "stack_step chunk_ops action_ops st (s0_next demo_chunk (cmd # cmds) st)" by (rule stack_step.s0_goes_on [OF st(2)])
  moreover have "stack_step chunk_ops action_ops (s0_next demo_chunk (cmd # cmds) st) s1"
    unfolding s1_def by (rule stack_step.s0_send_tries) (simp del: s0_next.simps add: next_st)
  moreover have "stack_step chunk_ops action_ops s1 (act_take s1)" by (rule stack_step.act_takes) (simp add: s1 st)
  moreover have "stack_step chunk_ops action_ops (act_take s1) s2"
    unfolding s2_def by (rule stack_step.act_tries) (simp add: s1 act_take_def recv_begin_def ep_enter_def chan_new_def)
  ultimately have "demo_steps st s2" by simp
  with st(1) have run: "demo_steps (stack_new mem_new mem_new) s2" by (rule rtranclp_trans)
  from stack_log [OF mem_tasks.closable_stream_axioms mem_tasks.closable_stream_axioms _ _ _ _ run]
  have "prefix (map act_id (sk_log s2)) (concat (map commands (cn_accepted (sk_chunks s2))))"
    by (simp add: mem_calm_def mem_new_def)
  with run log show ?thesis by (intro exI [of _ s2]) simp
qed

section \<open>The dispatcher\<close>

text \<open>C39: Unregistering reaches exactly the session that was registered: whatever the dispatcher, its
  sessions and the supervisor went through, every accepted session has an id, a log and a cancel event
  of its own, the event is unset exactly while the dispatcher holds it under that id, and unregister
  sets the event of the session with the given id and of no other.\<close>

theorem dispatcher_cancels:
  assumes "disp_step\<^sup>*\<^sup>* (dispatcher_new su) d" "su_seen su = {}"
  shows "distinct (map ss_sid (di_sessions d)) \<and> distinct (map ss_log (di_sessions d)) \<and>
    (\<forall>ss \<in> set (di_sessions d). ss_event ss < length (di_events d) \<and>
       (di_events d ! ss_event ss \<longleftrightarrow> di_cancel d (ss_sid ss) \<noteq> Some (ss_event ss)) \<and>
       (di_events (unregister sid d) ! ss_event ss \<longleftrightarrow> di_events d ! ss_event ss \<or> ss_sid ss = sid))"
proof -
  have ok: "disp_ok d" by (rule disp_ok_reachable [OF assms])
  then have ok': "disp_ok (unregister sid d)" by (rule disp_ok_unregister)
  have "di_events (unregister sid d) ! ss_event ss \<longleftrightarrow> di_events d ! ss_event ss \<or> ss_sid ss = sid"
    if ss: "ss \<in> set (di_sessions d)" for ss
  proof -
    have "di_events d ! ss_event ss \<longleftrightarrow> di_cancel d (ss_sid ss) \<noteq> Some (ss_event ss)"
      using ok ss by (simp add: disp_ok_def list_all_iff session_ok_def)
    moreover have "di_events (unregister sid d) ! ss_event ss \<longleftrightarrow> di_cancel (unregister sid d) (ss_sid ss) \<noteq> Some (ss_event ss)"
      using ok' ss by (cases "di_cancel d sid") (simp_all add: disp_ok_def list_all_iff session_ok_def unregister_def)
    moreover have "di_cancel (unregister sid d) = (di_cancel d)(sid := None)"
      by (cases "di_cancel d sid") (auto simp: unregister_def fun_eq_iff)
    ultimately show ?thesis by auto
  qed
  with ok show ?thesis by (simp add: disp_ok_def names_ok_def list_all_iff session_ok_def)
qed

definition outer :: supervisor where
  "outer = sup_enter (new_supervisor Shutdown (Some \<lparr>rp_base = Fin 1, rp_factor = Fin 2, rp_cap = Fin 5, rp_max_retries = None\<rparr>))"

definition two_sessions :: dispatcher where
  "two_sessions = snd (register_all [(''A'', Fin 2), (''B'', Fin 3)] (dispatcher_new outer))"

lemma two_sessions_reachable: "disp_step\<^sup>*\<^sup>* (dispatcher_new outer) two_sessions"
proof -
  let ?d = "dispatcher_new outer"
  have "fst (register ''A'' (Fin 2) ?d) = Inr 0" by code_simp
  then obtain d1 where d1: "register ''A'' (Fin 2) ?d = (Inr 0, d1)" by (metis prod.collapse)
  have "two_sessions = snd (register ''B'' (Fin 3) d1)"
    unfolding two_sessions_def by (cases "register ''B'' (Fin 3) d1") (simp add: d1 split: sum.split)
  moreover have "disp_step ?d d1" using disp_step.registers [of ?d "''A''" "Fin 2"] d1 by simp
  ultimately show ?thesis by (metis disp_step.registers r_into_rtranclp rtranclp.rtrancl_into_rtrancl)
qed

lemma fresh_supervisor: "su_seen outer = {}"
  by (simp add: outer_def sup_enter_eq new_supervisor_def)

theorem dispatcher_cancels_witness:
  "map ss_sid (di_sessions two_sessions) = [''A'', ''B''] \<and>
   map (\<lambda>ss. di_events (unregister ''B'' two_sessions) ! ss_event ss) (di_sessions two_sessions) = [False, True]"
proof -
  have s: "map ss_sid (di_sessions two_sessions) = [''A'', ''B'']"
    "map (\<lambda>ss. di_events two_sessions ! ss_event ss) (di_sessions two_sessions) = [False, False]"
    by code_simp+
  then obtain a b where ab: "di_sessions two_sessions = [a, b]" "ss_sid a = ''A''" "ss_sid b = ''B''" by (auto simp: map_eq_Cons_conv)
  with s dispatcher_cancels [OF two_sessions_reachable fresh_supervisor, of "''B''"] show ?thesis by simp
qed

text \<open>C40: A session id cannot be used again: after unregister, registering it raises ValueError (its daemon
  name stays taken), no session is started, and yet the dispatcher then holds the id, with a cancel
  event nobody watches and, in the place of the session's log, an empty one that no session writes.
  Registering it once more raises ValueError too.\<close>

theorem dispatcher_reregister:
  assumes "disp_step\<^sup>*\<^sup>* (dispatcher_new su) d" "su_seen su = {}" "ss \<in> set (di_sessions d)"
    and "register (ss_sid ss) duration_s (unregister (ss_sid ss) d) = (r, d')"
  shows "r = Inl ValueError \<and> di_sessions d' = di_sessions d \<and> ss_sid ss \<in> dom (di_cancel d') \<and>
    (\<forall>other \<in> set (di_sessions d'). di_cancel d' (ss_sid ss) \<noteq> Some (ss_event other)) \<and>
    (\<exists>log. log_for (ss_sid ss) d' = Some log \<and> di_log_store d' ! log = [] \<and> log \<notin> set (map ss_log (di_sessions d'))) \<and>
    fst (register (ss_sid ss) again d') = Inl ValueError"
proof -
  let ?d = "unregister (ss_sid ss) d"
  have ok: "disp_ok d" by (rule disp_ok_reachable [OF assms(1,2)])
  have same: "di_sessions ?d = di_sessions d" "di_sup ?d = di_sup d" "ss_sid ss \<notin> dom (di_cancel ?d)"
    by (auto simp: unregister_def split: option.split)
  from ok assms(3) have seen: "session_name (ss_sid ss) \<in> su_seen (di_sup d)" by (auto simp: disp_ok_def names_ok_def)
  have ok': "disp_ok ?d" using ok by (rule disp_ok_unregister)
  from assms(4) show ?thesis
  proof (cases rule: register_cases)
    case refused
    have "length (di_log_store ?d) \<notin> set (map ss_log (di_sessions d))"
      using ok' same(1) by (auto simp: disp_ok_def names_ok_def)
    moreover have "\<forall>other \<in> set (di_sessions d). length (di_events ?d) \<noteq> ss_event other"
      using ok' same(1) by (auto simp: disp_ok_def list_all_iff session_ok_def)
    ultimately show ?thesis using refused same
      by (auto simp: log_for_def register_def nth_append)
  qed (use same seen in auto)
qed

theorem dispatcher_reregister_witness:
  "fst (register ''A'' (Fin 2) (unregister ''A'' two_sessions)) = Inl ValueError"
proof -
  have s: "map ss_sid (di_sessions two_sessions) = [''A'', ''B'']" by code_simp
  then obtain a b where "di_sessions two_sessions = [a, b]" "ss_sid a = ''A''" by (auto simp: map_eq_Cons_conv)
  then have a: "a \<in> set (di_sessions two_sessions)" "ss_sid a = ''A''" by simp_all
  obtain r d' where run: "register (ss_sid a) (Fin 2) (unregister (ss_sid a) two_sessions) = (r, d')"
    by (cases "register (ss_sid a) (Fin 2) (unregister (ss_sid a) two_sessions)") auto
  from dispatcher_reregister [OF two_sessions_reachable fresh_supervisor a(1) run] run a(2) show ?thesis by simp
qed

end
